(* ===== verification/Prelude.thy ===== *)
theory Prelude
  imports Complex_Main "HOL-Library.Word" "HOL-Library.Char_ord" "HOL-Library.List_Lexorder"
    "HOL-Library.Product_Lexorder" "HOL-Library.Sublist" "HOL-Library.AList" "HOL-Library.Multiset"
begin

text \<open>
  Shared vocabulary of the development.

  \<^item> A Rust \<open>str\<close> or \<open>String\<close> is the list of its UTF-8 bytes: \<open>string\<close>, whose characters are
    the 256 byte values, so \<open>length\<close> is Rust's \<open>len()\<close> and comparison is the bytewise
    lexicographic order of \<open>Ord for str\<close>.
  \<^item> \<open>Result<T, String>\<close> is \<open>'a res\<close>; a panic (\<open>unwrap\<close>, \<open>expect\<close>, an SQL error raised through
    \<open>unwrap\<close>) is a value of its own, so that the absence of panics is a theorem and not a
    convention. The operator \<open>?\<close> is \<open>and_then\<close>.
  \<^item> A \<open>HashMap\<close> is an association list in its (unspecified) iteration order; theorems about
    maps hold for every order.
\<close>

named_theorems res_simps \<open>unfolding the error-threading combinators\<close>

section \<open>Results\<close>

datatype fault = Err string | Panic string

type_synonym 'a res = "fault + 'a"

fun and_then :: "'e + 'a \<Rightarrow> ('a \<Rightarrow> 'e + 'b) \<Rightarrow> 'e + 'b" where
  "and_then (Inl e) f = Inl e"
| "and_then (Inr a) f = f a"

fun map_res :: "('a \<Rightarrow> 'b) \<Rightarrow> 'e + 'a \<Rightarrow> 'e + 'b" where
  "map_res f (Inl e) = Inl e"
| "map_res f (Inr a) = Inr (f a)"

definition ok_or :: "'a option \<Rightarrow> string \<Rightarrow> 'a res" where
  "ok_or x e = (case x of None \<Rightarrow> Inl (Err e) | Some a \<Rightarrow> Inr a)"

definition panics :: "'a res \<Rightarrow> bool" where
  "panics r \<longleftrightarrow> (\<exists>e. r = Inl (Panic e))"

lemma and_then_cong [fundef_cong]:
  assumes "r = r'" and "\<And>a. r' = Inr a \<Longrightarrow> f a = g a"
  shows "and_then r f = and_then r' g"
  using assms by (cases r') auto

lemma and_then_Inr_iff [simp]:
  "and_then r f = Inr b \<longleftrightarrow> (\<exists>a. r = Inr a \<and> f a = Inr b)"
  by (cases r) auto

lemma and_then_Inl_iff: "and_then r f = Inl e \<longleftrightarrow> r = Inl e \<or> (\<exists>a. r = Inr a \<and> f a = Inl e)"
  by (cases r) auto

lemma map_res_Inl_iff [simp]: "map_res f r = Inl e \<longleftrightarrow> r = Inl e"
  by (cases r) auto

lemma map_res_Inr_iff [simp]: "map_res f r = Inr b \<longleftrightarrow> (\<exists>a. r = Inr a \<and> b = f a)"
  by (cases r) auto

lemma ok_or_Inr_iff [simp]: "ok_or x e = Inr a \<longleftrightarrow> x = Some a"
  by (auto simp: ok_or_def split: option.splits)

lemma ok_or_simps [simp]: "ok_or None e = Inl (Err e)" "ok_or (Some a) e = Inr a"
  by (simp_all add: ok_or_def)

lemma panics_simps [simp]:
  "\<not> panics (Inr a)" "\<not> panics (Inl (Err e))" "panics (Inl (Panic e))" "\<not> panics (ok_or x e)"
  by (auto simp: panics_def ok_or_def split: option.splits)

lemma panics_and_then:
  "panics (and_then r f) \<longleftrightarrow> panics r \<or> (\<exists>a. r = Inr a \<and> panics (f a))"
  by (cases r) (auto simp: panics_def)

lemma panics_map_res [simp]: "panics (map_res f r) \<longleftrightarrow> panics r"
  by (cases r) (auto simp: panics_def)

subsection \<open>Collecting a list of results\<close>

text \<open>\<open>iter().map(f).collect::<Result<Vec<_>, _>>()\<close>: the first error stops the traversal.\<close>

fun traverse :: "('a \<Rightarrow> 'b res) \<Rightarrow> 'a list \<Rightarrow> 'b list res" where
  "traverse f [] = Inr []"
| "traverse f (x # xs) = and_then (f x) (\<lambda>y. and_then (traverse f xs) (\<lambda>ys. Inr (y # ys)))"

lemma traverse_cong [fundef_cong]:
  assumes "xs = ys" and "\<And>x. x \<in> set ys \<Longrightarrow> f x = g x"
  shows "traverse f xs = traverse g ys"
proof -
  have "(\<And>x. x \<in> set ys \<Longrightarrow> f x = g x) \<Longrightarrow> traverse f ys = traverse g ys"
    by (induction ys) auto
  with assms show ?thesis by simp
qed

lemma traverse_Inr_iff:
  "traverse f xs = Inr ys \<longleftrightarrow> list_all2 (\<lambda>x y. f x = Inr y) xs ys"
proof (induction xs arbitrary: ys)
  case Nil
  then show ?case by auto
next
  case (Cons x xs)
  then show ?case by (cases ys) auto
qed

lemma traverse_length: "traverse f xs = Inr ys \<Longrightarrow> length ys = length xs"
  by (auto simp: traverse_Inr_iff dest: list_all2_lengthD)

lemma traverse_panics: "(\<And>x. x \<in> set xs \<Longrightarrow> \<not> panics (f x)) \<Longrightarrow> \<not> panics (traverse f xs)"
  by (induction xs) (auto simp: panics_and_then)

text \<open>
  \<open>for (element, item) in slot.iter_mut().zip(items) { *element = f(item)?; }\<close>: the slot keeps
  its length, the shorter list ends the loop.
\<close>

fun zip_assign :: "('e \<Rightarrow> 'i \<Rightarrow> 'e res) \<Rightarrow> 'e list \<Rightarrow> 'i list \<Rightarrow> 'e list res" where
  "zip_assign f [] items = Inr []"
| "zip_assign f (e # es) [] = Inr (e # es)"
| "zip_assign f (e # es) (i # is) =
     and_then (f e i) (\<lambda>e'. and_then (zip_assign f es is) (\<lambda>es'. Inr (e' # es')))"

lemma zip_assign_cong [fundef_cong]:
  assumes "es = es'" and "is = is'" and "\<And>e i. e \<in> set es' \<Longrightarrow> i \<in> set is' \<Longrightarrow> f e i = g e i"
  shows "zip_assign f es is = zip_assign g es' is'"
proof -
  have "(\<And>e i. e \<in> set es' \<Longrightarrow> i \<in> set is' \<Longrightarrow> f e i = g e i)
    \<Longrightarrow> zip_assign f es' is' = zip_assign g es' is'"
  proof (induction es' arbitrary: is')
    case (Cons e es')
    then show ?case by (cases is') (simp_all cong: and_then_cong)
  qed simp
  with assms show ?thesis by simp
qed

lemma zip_assign_length: "zip_assign f es is = Inr es' \<Longrightarrow> length es' = length es"
  by (induction f es "is" arbitrary: es' rule: zip_assign.induct) auto

lemma zip_assign_Inr_iff:
  assumes "length is = length es"
  shows "zip_assign f es is = Inr es' \<longleftrightarrow>
    length es' = length es \<and> (\<forall>k < length es. f (es ! k) (is ! k) = Inr (es' ! k))"
  using assms
proof (induction es arbitrary: "is" es')
  case (Cons e es)
  then obtain i is' where "is": "is = i # is'" and len: "length is' = length es"
    by (cases "is") auto
  show ?case
  proof (cases es')
    case (Cons e' es'')
    then show ?thesis using "is" Cons.IH [OF len, of es'']
      by (auto simp: less_Suc_eq_0_disj)
  qed (simp add: "is")
qed auto

lemma zip_assign_panics:
  "(\<And>e i. e \<in> set es \<Longrightarrow> i \<in> set is \<Longrightarrow> \<not> panics (f e i)) \<Longrightarrow> \<not> panics (zip_assign f es is)"
  by (induction f es "is" rule: zip_assign.induct) (auto simp: panics_and_then)

lemma zip_assign_set:
  assumes "zip_assign f es is = Inr es'" and "\<And>e. e \<in> set es \<Longrightarrow> P e"
    and "\<And>e i e'. e \<in> set es \<Longrightarrow> i \<in> set is \<Longrightarrow> f e i = Inr e' \<Longrightarrow> P e'"
  shows "list_all P es'"
  using assms
proof (induction es arbitrary: "is" es')
  case (Cons e es)
  show ?case
  proof (cases "is")
    case Nil
    then show ?thesis using Cons.prems(1,2) by (auto simp: list.pred_set)
  next
    case (Cons i is')
    then obtain e' es'' where e': "f e i = Inr e'" and es'': "zip_assign f es is' = Inr es''"
      and es': "es' = e' # es''" using Cons.prems(1) by auto
    have "P e'" using Cons.prems(3) [of e i e'] e' Cons by simp
    moreover have "list_all P es''"
      by (rule Cons.IH [OF es'']) (use Cons.prems(2,3) Cons in auto)
    ultimately show ?thesis by (simp add: es')
  qed
qed simp

text \<open>\<open>for x in xs { body(state, x)?; }\<close> with the mutated state passed along.\<close>

fun fold_res :: "('x \<Rightarrow> 's \<Rightarrow> 's res) \<Rightarrow> 'x list \<Rightarrow> 's \<Rightarrow> 's res" where
  "fold_res f [] s = Inr s"
| "fold_res f (x # xs) s = and_then (f x s) (\<lambda>s'. fold_res f xs s')"

lemma fold_res_cong [fundef_cong]:
  assumes "xs = ys" and "s = t" and "\<And>x s. x \<in> set ys \<Longrightarrow> f x s = g x s"
  shows "fold_res f xs s = fold_res g ys t"
proof -
  have "(\<And>x s. x \<in> set ys \<Longrightarrow> f x s = g x s) \<Longrightarrow> fold_res f ys t = fold_res g ys t"
  proof (induction ys arbitrary: t)
    case (Cons y ys)
    then show ?case by (simp cong: and_then_cong)
  qed simp
  with assms show ?thesis by simp
qed

lemma fold_res_append: "fold_res f (xs @ ys) s = and_then (fold_res f xs s) (\<lambda>s'. fold_res f ys s')"
proof (induction xs arbitrary: s)
  case (Cons x xs)
  then show ?case by (cases "f x s") simp_all
qed simp

lemma fold_res_invariant:
  assumes "fold_res f xs s = Inr t" and "P s"
    and "\<And>x s s'. x \<in> set xs \<Longrightarrow> P s \<Longrightarrow> f x s = Inr s' \<Longrightarrow> P s'"
  shows "P t"
  using assms by (induction xs arbitrary: s) auto

lemma fold_res_panics:
  assumes "P s" and "\<And>x s. x \<in> set xs \<Longrightarrow> P s \<Longrightarrow> \<not> panics (f x s)"
    and "\<And>x s s'. x \<in> set xs \<Longrightarrow> P s \<Longrightarrow> f x s = Inr s' \<Longrightarrow> P s'"
  shows "\<not> panics (fold_res f xs s)"
  using assms
proof (induction xs arbitrary: s)
  case (Cons x xs)
  have "\<not> panics (fold_res f xs s')" if s': "f x s = Inr s'" for s'
  proof (rule Cons.IH)
    show "P s'" using Cons.prems(3) [OF _ Cons.prems(1) s'] by simp
  next
    fix y t assume "y \<in> set xs" and "P t"
    then show "\<not> panics (f y t)" using Cons.prems(2) by simp
  next
    fix y t t' assume "y \<in> set xs" and "P t" and "f y t = Inr t'"
    then show "P t'" using Cons.prems(3) [of y t t'] by simp
  qed
  then show ?case using Cons.prems(1,2) by (auto simp: panics_and_then)
qed simp

section \<open>Strings\<close>

fun joined :: "string \<Rightarrow> string list \<Rightarrow> string" where
  "joined sep [] = []"
| "joined sep [x] = x"
| "joined sep (x # xs) = x @ sep @ joined sep xs"

lemma joined_Cons: "joined sep (x # xs) = x @ concat (map (\<lambda>y. sep @ y) xs)"
  by (induction xs arbitrary: x) auto

section \<open>Decimal numbers\<close>

definition digit :: "nat \<Rightarrow> char" where
  "digit d = ''0123456789'' ! d"

fun show_nat :: "nat \<Rightarrow> string" where
  "show_nat n = (if n < 10 then [digit n] else show_nat (n div 10) @ [digit (n mod 10)])"

declare show_nat.simps [simp del]

text \<open>Digits, and that two numbers with the same digits are equal.\<close>

lemma digit_inject: "a < 10 \<Longrightarrow> b < 10 \<Longrightarrow> digit a = digit b \<longleftrightarrow> a = b"
proof -
  have "distinct ''0123456789''" by simp
  moreover assume "a < 10" "b < 10"
  ultimately show ?thesis using nth_eq_iff_index_eq [of "''0123456789''" a b] by (simp add: digit_def)
qed

lemma show_nat_snoc: "10 \<le> n \<Longrightarrow> show_nat n = show_nat (n div 10) @ [digit (n mod 10)]"
  by (simp add: show_nat.simps [of n])

lemma show_nat_nonempty: "show_nat n \<noteq> []"
  by (simp add: show_nat.simps [of n])

lemma show_nat_inject: "show_nat m = show_nat n \<longleftrightarrow> m = n"
proof -
  have single: "show_nat m \<noteq> show_nat n" if "m < 10" "10 \<le> n" for m n :: nat
    using that by (simp add: show_nat.simps [of m] show_nat_snoc [of n] show_nat_nonempty [symmetric])
  have "show_nat m = show_nat n \<Longrightarrow> m = n"
  proof (induction m arbitrary: n rule: less_induct)
    case (less m)
    show ?case
    proof (cases "m < 10 \<or> n < 10")
      case True
      with less.prems single [of m n] single [of n m] show ?thesis
        by (auto simp: show_nat.simps [of m] show_nat.simps [of n] digit_inject not_less show_nat_nonempty show_nat_nonempty [symmetric]
            split: if_splits)
    next
      case False
      with less.prems have "show_nat (m div 10) = show_nat (n div 10)" "digit (m mod 10) = digit (n mod 10)"
        by (simp_all add: show_nat_snoc)
      with less.IH [of "m div 10" "n div 10"] False have "m div 10 = n div 10" "m mod 10 = n mod 10"
        by (simp_all add: digit_inject)
      then show ?thesis by (metis div_mult_mod_eq)
    qed
  qed
  then show ?thesis by blast
qed

lemma show_nat_digits: "CHR 0x2C \<notin> set (show_nat n)"
proof (induction n rule: less_induct)
  case (less n)
  have "CHR 0x2C \<noteq> digit d" if "d < 10" for d
  proof -
    have "digit d \<in> set ''0123456789''" unfolding digit_def by (rule nth_mem) (use that in simp)
    then show ?thesis by auto
  qed
  with less [of "n div 10"] show ?case
    by (cases "n < 10") (auto simp: show_nat.simps [of n])
qed

lemma show_nat_followed:
  assumes "show_nat m @ CHR 0x2C # x = show_nat n @ CHR 0x2C # y"
  shows "m = n"
proof -
  have "takeWhile (\<lambda>c. c \<noteq> CHR 0x2C) (show_nat k @ CHR 0x2C # z) = show_nat k" for k z
    using show_nat_digits [of k] by (subst takeWhile_append2) auto
  from this [of m x] this [of n y] assms show ?thesis by (simp add: show_nat_inject)
qed

text \<open>
  \<open>Display\<close> for an integer hands the sign and the digits to the formatter as separate pieces.
\<close>

definition show_int :: "int \<Rightarrow> string list" where
  "show_int n = (if n < 0 then [''-'', show_nat (nat (- n))] else [show_nat (nat n)])"

definition show_bool :: "bool \<Rightarrow> string" where
  "show_bool b = (if b then ''true'' else ''false'')"

section \<open>Sorting and deduplication\<close>

lemma sort_determined: "mset xs = mset ys \<Longrightarrow> sort xs = sort (ys :: 'a :: linorder list)"
  by (metis sorted_list_of_multiset_mset)

text \<open>\<open>v.sort(); v.dedup()\<close> is the canonical list of the set of elements.\<close>

lemma sort_dedup_distinct: "distinct (remdups_adj (sort (xs :: 'a :: linorder list)))"
proof -
  have "sorted ys \<Longrightarrow> distinct (remdups_adj ys)" for ys :: "'a list"
    by (induction ys rule: remdups_adj.induct) (auto simp: less_le antisym)
  then show ?thesis by simp
qed

lemma sort_dedup_canonical:
  "set xs = set ys \<Longrightarrow> remdups_adj (sort xs) = remdups_adj (sort (ys :: 'a :: linorder list))"
proof -
  have sd: "sorted (remdups_adj (sort zs))" "set (remdups_adj (sort zs)) = set zs" for zs :: "'a list"
    by (simp_all add: sorted_remdups_adj)
  assume "set xs = set ys"
  then show ?thesis
    using sd [of xs] sd [of ys] sort_dedup_distinct [of xs] sort_dedup_distinct [of ys]
    by (intro sorted_distinct_set_unique) simp_all
qed

end
