(* ===== verification/Floats.thy ===== *)
theory Floats
  imports Prelude
begin

text \<open>
  The machine numbers of the program: \<open>f64\<close> and \<open>f32\<close> are IEEE 754 bit patterns, \<open>i32\<close> a
  32-bit word read with \<open>sint\<close>. The theory holds the operations the code uses: \<open>is_finite\<close>,
  \<open>f64::NAN\<close>, the cast \<open>as f32\<close> (round to nearest, ties to even), \<open>f64::from(i32)\<close> and the
  comparison \<open>>\<close>. A cast of a NaN gives the canonical NaN, one of the patterns Rust allows.
\<close>

type_synonym i32 = "32 word"
type_synonym u64 = "64 word"
type_synonym f64 = "64 word"
type_synonym f32 = "32 word"

section \<open>Fields of a binary64\<close>

definition f64_sign :: "f64 \<Rightarrow> bool" where
  "f64_sign v \<longleftrightarrow> 2 ^ 63 \<le> unat v"

definition f64_exponent :: "f64 \<Rightarrow> nat" where
  "f64_exponent v = unat v div 2 ^ 52 mod 2048"

definition f64_fraction :: "f64 \<Rightarrow> nat" where
  "f64_fraction v = unat v mod 2 ^ 52"

definition f64_is_finite :: "f64 \<Rightarrow> bool" where
  "f64_is_finite v \<longleftrightarrow> f64_exponent v \<noteq> 2047"

definition f64_is_nan :: "f64 \<Rightarrow> bool" where
  "f64_is_nan v \<longleftrightarrow> f64_exponent v = 2047 \<and> f64_fraction v \<noteq> 0"

definition f64_NAN :: f64 where
  "f64_NAN = 0x7FF8000000000000"

definition f32_is_finite :: "f32 \<Rightarrow> bool" where
  "f32_is_finite v \<longleftrightarrow> unat v div 2 ^ 23 mod 256 \<noteq> 255"

definition f32_NAN :: f32 where
  "f32_NAN = 0x7FC00000"

section \<open>Casts\<close>

fun bit_length :: "nat \<Rightarrow> nat" where
  "bit_length n = (if n = 0 then 0 else Suc (bit_length (n div 2)))"

declare bit_length.simps [simp del]

text \<open>On numerals the length is computed bit by bit.\<close>

lemma bit_length_numeral [simp]:
  "bit_length 0 = 0"
  "bit_length (Suc 0) = 1"
  "bit_length (numeral Num.One) = 1"
  "bit_length (numeral (Num.Bit0 n)) = Suc (bit_length (numeral n))"
  "bit_length (numeral (Num.Bit1 n)) = Suc (bit_length (numeral n))"
  by (subst bit_length.simps, simp add: bit_length.simps [of 0] bit_length.simps [of 1])+

text \<open>\<open>m / 2^s\<close>, rounded to the nearest integer, a tie to the even one.\<close>

definition round_half_even :: "nat \<Rightarrow> nat \<Rightarrow> nat" where
  "round_half_even m s =
     (if s = 0 then m
      else let q = m div 2 ^ s; r = m mod 2 ^ s; half = 2 ^ (s - 1)
           in if half < r \<or> r = half \<and> odd q then Suc q else q)"

text \<open>
  \<open>v as f32\<close>. A finite \<open>v\<close> is \<open>m * 2^(e - 1075)\<close>. The result keeps 24 bits, or fewer at the
  bottom of the range; \<open>shift\<close> is the number of bits dropped. The sum of exponent field and
  significand carries into the exponent when rounding overflows the significand, and saturates at
  infinity.
\<close>

definition f64_to_f32 :: "f64 \<Rightarrow> f32" where
  "f64_to_f32 v =
     (if f64_is_nan v then f32_NAN
      else let sign = (if f64_sign v then 2 ^ 31 else 0);
               e = max 1 (f64_exponent v);
               m = (if f64_exponent v = 0 then 0 else 2 ^ 52) + f64_fraction v;
               shift = max (bit_length m - 24) (926 - e);
               bits = (e + shift - 926) * 2 ^ 23 + round_half_even m shift
           in if f64_is_finite v then of_nat (sign + min 0x7F800000 bits)
              else of_nat (sign + 0x7F800000))"

text \<open>\<open>f64::from(n)\<close> for a 32-bit integer: always exact.\<close>

definition f64_of_i32 :: "i32 \<Rightarrow> f64" where
  "f64_of_i32 n =
     (let m = nat \<bar>sint n\<bar>; b = bit_length m
      in if m = 0 then 0
         else of_nat ((if sint n < 0 then 2 ^ 63 else 0) + (b + 1022) * 2 ^ 52 + (m * 2 ^ (53 - b) - 2 ^ 52)))"

section \<open>Comparison\<close>

text \<open>The magnitude bits of two numbers are ordered as the numbers are.\<close>

definition f64_key :: "f64 \<Rightarrow> int" where
  "f64_key v = (let mag = int (unat v mod 2 ^ 63) in if f64_sign v then - mag else mag)"

definition f64_gt :: "f64 \<Rightarrow> f64 \<Rightarrow> bool" where
  "f64_gt a b \<longleftrightarrow> \<not> f64_is_nan a \<and> \<not> f64_is_nan b \<and> f64_key b < f64_key a"

section \<open>Facts\<close>

lemma f64_NAN_facts [simp]: "f64_is_nan f64_NAN" "\<not> f64_is_finite f64_NAN"
  by (simp_all add: f64_is_nan_def f64_is_finite_def f64_NAN_def f64_exponent_def f64_fraction_def)

lemma f32_NAN_not_finite [simp]: "\<not> f32_is_finite f32_NAN"
  by (simp add: f32_is_finite_def f32_NAN_def)

lemma f64_to_f32_NAN [simp]: "f64_to_f32 f64_NAN = f32_NAN"
  by (simp add: f64_to_f32_def)

lemma f64_gt_irrefl [simp]: "\<not> f64_gt a a"
  by (simp add: f64_gt_def)

lemma f64_gt_trans: "f64_gt a b \<Longrightarrow> f64_gt b c \<Longrightarrow> f64_gt a c"
  by (auto simp: f64_gt_def)

lemma f64_gt_nan [simp]: "\<not> f64_gt f64_NAN b" "\<not> f64_gt a f64_NAN"
  by (simp_all add: f64_gt_def)

lemma cast_samples:
  "f64_to_f32 0x3FF8000000000000 = 0x3FC00000"
  "f64_to_f32 0x3FB999999999999A = 0x3DCCCCCD"
  "f64_to_f32 0xFFEFFFFFFFFFFFFF = 0xFF800000"
  "f64_to_f32 0x36A0000000000001 = 1"
  "f64_of_i32 86400 = 0x40F5180000000000"
  "f64_of_i32 (- 1) = 0xBFF0000000000000"
  by (simp_all add: f64_to_f32_def f64_of_i32_def f64_is_nan_def f64_is_finite_def f64_exponent_def
      f64_fraction_def f64_sign_def round_half_even_def)

end
