(* ===== verification/Json.thy ===== *)
theory Json
  imports Floats
begin

text \<open>
  JSON as the program sees it. \<open>serde_json::Value\<close> is its public enumeration; a \<open>Number\<close> is opaque
  there, and the code looks at it only through \<open>as_i64\<close>, \<open>as_u64\<close> and \<open>as_f64\<close>, so a number is
  here what these three return. An object is the list of its entries in the map's iteration order.
  The second half is JSON text: a tree of tokens and its compact rendering, the specification of
  the encoder's output. The escaping of a string is a parameter (\<open>serde_json::to_string\<close>).
\<close>

section \<open>Values\<close>

record number =
  num_i64 :: "int option"
  num_u64 :: "int option"
  num_f64 :: "f64 option"

datatype json =
    JNull
  | JBool bool
  | JNumber number
  | JString string
  | JArray "json list"
  | JObject "(string \<times> json) list"

fun is_null :: "json \<Rightarrow> bool" where
  "is_null JNull = True"
| "is_null _ = False"

fun as_bool :: "json \<Rightarrow> bool option" where
  "as_bool (JBool b) = Some b"
| "as_bool _ = None"

fun as_i64 :: "json \<Rightarrow> int option" where
  "as_i64 (JNumber n) = num_i64 n"
| "as_i64 _ = None"

fun as_u64 :: "json \<Rightarrow> int option" where
  "as_u64 (JNumber n) = num_u64 n"
| "as_u64 _ = None"

fun as_f64 :: "json \<Rightarrow> f64 option" where
  "as_f64 (JNumber n) = num_f64 n"
| "as_f64 _ = None"

fun as_str :: "json \<Rightarrow> string option" where
  "as_str (JString s) = Some s"
| "as_str _ = None"

fun as_array :: "json \<Rightarrow> json list option" where
  "as_array (JArray xs) = Some xs"
| "as_array _ = None"

fun as_object :: "json \<Rightarrow> (string \<times> json) list option" where
  "as_object (JObject es) = Some es"
| "as_object _ = None"

definition get :: "json \<Rightarrow> string \<Rightarrow> json option" where
  "get v k = Option.bind (as_object v) (\<lambda>es. map_of es k)"

lemma as_array_Some [simp]: "as_array v = Some xs \<longleftrightarrow> v = JArray xs"
  by (cases v) auto

lemma as_object_Some [simp]: "as_object v = Some es \<longleftrightarrow> v = JObject es"
  by (cases v) auto

lemma as_str_Some [simp]: "as_str v = Some s \<longleftrightarrow> v = JString s"
  by (cases v) auto

lemma as_bool_Some [simp]: "as_bool v = Some b \<longleftrightarrow> v = JBool b"
  by (cases v) auto

lemma size_array_item [termination_simp]: "x \<in> set xs \<Longrightarrow> size x < size (JArray xs)"
  using size_list_estimation' [of x xs "size x" size] by (simp add: less_Suc_eq_le)

lemma size_object_item [termination_simp]: "(k, x) \<in> set es \<Longrightarrow> size x < size (JObject es)"
proof -
  assume "(k, x) \<in> set es"
  then have "size x \<le> size_list (size_prod (\<lambda>_. 0) size) es"
    by (rule size_list_estimation') simp
  then show ?thesis by simp
qed

section \<open>Text\<close>

datatype jtext =
    Lit string
  | Quoted string
  | Arr "jtext list"
  | Obj "(string \<times> jtext) list"

definition DQUOTE :: char where
  "DQUOTE = CHR 0x22"

fun render :: "(string \<Rightarrow> string) \<Rightarrow> jtext \<Rightarrow> string" where
  "render q (Lit s) = s"
| "render q (Quoted s) = q s"
| "render q (Arr ts) = ''['' @ joined '','' (map (render q) ts) @ '']''"
| "render q (Obj es) = ''{'' @ joined '','' (map (\<lambda>(k, t). q k @ '':'' @ render q t) es) @ ''}''"

text \<open>
  Reading a tree back: \<open>lit\<close> says what a literal token denotes, \<open>arrange\<close> in which order the
  parsed map iterates over the entries of an object.
\<close>

fun value_of :: "(string \<Rightarrow> json) \<Rightarrow> ((string \<times> json) list \<Rightarrow> (string \<times> json) list) \<Rightarrow> jtext \<Rightarrow> json" where
  "value_of lit arrange (Lit s) = lit s"
| "value_of lit arrange (Quoted s) = JString s"
| "value_of lit arrange (Arr ts) = JArray (map (value_of lit arrange) ts)"
| "value_of lit arrange (Obj es) = JObject (arrange (map (\<lambda>(k, t). (k, value_of lit arrange t)) es))"

end
