(* ===== verification/Ros_Message.thy ===== *)
theory Ros_Message
  imports Json
begin

text \<open>
  Runtime ROS messages, as the encoder and the decoder take them apart. rclrs has one enumeration
  for simple values and three parallel ones for arrays, sequences and bounded sequences; here the
  three share the type \<open>elements\<close>, whose constructor is the element type. The eleven integer types
  are \<open>Integer\<close> with their kind, the four string types \<open>Str\<close> with theirs.

  A message sequence carries the default value of its element type, which is what a reset fills it
  with. The functions of the Rust library and of rclrs that are not in the repository are the fields
  of \<open>runtime\<close>; every definition that uses one takes it as an argument. A string is the list of its UTF-8
  bytes; what Rust shows for a ROS string that is not valid UTF-8 or UTF-16 is not modelled.
\<close>

section \<open>Values\<close>

datatype int_kind =
  KChar | KWChar | KOctet | KUint8 | KInt8 | KUint16 | KInt16 | KUint32 | KInt32 | KUint64 | KInt64

fun int_min :: "int_kind \<Rightarrow> int" where
  "int_min KInt8 = - (2 ^ 7)"
| "int_min KInt16 = - (2 ^ 15)"
| "int_min KInt32 = - (2 ^ 31)"
| "int_min KInt64 = - (2 ^ 63)"
| "int_min _ = 0"

fun int_max :: "int_kind \<Rightarrow> int" where
  "int_max KChar = 2 ^ 8 - 1"
| "int_max KWChar = 2 ^ 16 - 1"
| "int_max KOctet = 2 ^ 8 - 1"
| "int_max KUint8 = 2 ^ 8 - 1"
| "int_max KInt8 = 2 ^ 7 - 1"
| "int_max KUint16 = 2 ^ 16 - 1"
| "int_max KInt16 = 2 ^ 15 - 1"
| "int_max KUint32 = 2 ^ 32 - 1"
| "int_max KInt32 = 2 ^ 31 - 1"
| "int_max KUint64 = 2 ^ 64 - 1"
| "int_max KInt64 = 2 ^ 63 - 1"

definition int_in_range :: "int_kind \<Rightarrow> int \<Rightarrow> bool" where
  "int_in_range k n \<longleftrightarrow> int_min k \<le> n \<and> n \<le> int_max k"

datatype string_kind = KString | KBoundedString nat | KWString | KBoundedWString nat

datatype message = Msg "(string \<times> field_value) list"
and field_value = Simple simple | Array elements | Sequence elements | BoundedSequence nat elements
and simple =
    Float f32
  | Double f64
  | LongDouble
  | Integer int_kind int
  | Boolean bool
  | Str string_kind string
  | Message message
and elements =
    Floats "f32 list"
  | Doubles "f64 list"
  | LongDoubles nat
  | Integers int_kind "int list"
  | Booleans "bool list"
  | Strs string_kind "string list"
  | Messages message "message list"

fun msg_fields :: "message \<Rightarrow> (string \<times> field_value) list" where
  "msg_fields (Msg fs) = fs"

section \<open>What the repository does not define\<close>

text \<open>
  \<open>quote\<close> is \<open>serde_json::to_string\<close> of a string; \<open>show_f32\<close> and \<open>show_f64\<close> are the pieces
  \<open>Display\<close> hands to the formatter for a finite float; \<open>debug_str\<close> is \<open>Debug\<close> of a string;
  \<open>fits\<close> says whether \<open>try_assign\<close> accepts a string for a bounded string type.
\<close>

record runtime =
  quote :: "string \<Rightarrow> string"
  show_f32 :: "f32 \<Rightarrow> string list"
  show_f64 :: "f64 \<Rightarrow> string list"
  debug_str :: "string \<Rightarrow> string"
  fits :: "string_kind \<Rightarrow> string \<Rightarrow> bool"

section \<open>Types of messages and well-formed messages\<close>

datatype message_type = MType "(string \<times> value_type) list"
and value_type = TSimple simple_type | TArray nat simple_type | TSequence simple_type
  | TBoundedSequence nat simple_type
and simple_type =
  TFloat | TDouble | TLongDouble | TInteger int_kind | TBoolean | TStr string_kind
  | TMessage message_type

fun type_of_message :: "message \<Rightarrow> message_type"
and type_of_value :: "field_value \<Rightarrow> value_type"
and type_of_simple :: "simple \<Rightarrow> simple_type"
and type_of_elements :: "elements \<Rightarrow> simple_type"
and length_of :: "elements \<Rightarrow> nat" where
  "type_of_message (Msg fs) = MType (map (\<lambda>(n, v). (n, type_of_value v)) fs)"
| "type_of_value (Simple s) = TSimple (type_of_simple s)"
| "type_of_value (Array es) = TArray (length_of es) (type_of_elements es)"
| "type_of_value (Sequence es) = TSequence (type_of_elements es)"
| "type_of_value (BoundedSequence b es) = TBoundedSequence b (type_of_elements es)"
| "type_of_simple (Float _) = TFloat"
| "type_of_simple (Double _) = TDouble"
| "type_of_simple LongDouble = TLongDouble"
| "type_of_simple (Integer k _) = TInteger k"
| "type_of_simple (Boolean _) = TBoolean"
| "type_of_simple (Str k _) = TStr k"
| "type_of_simple (Message m) = TMessage (type_of_message m)"
| "type_of_elements (Floats _) = TFloat"
| "type_of_elements (Doubles _) = TDouble"
| "type_of_elements (LongDoubles _) = TLongDouble"
| "type_of_elements (Integers k _) = TInteger k"
| "type_of_elements (Booleans _) = TBoolean"
| "type_of_elements (Strs k _) = TStr k"
| "type_of_elements (Messages d _) = TMessage (type_of_message d)"
| "length_of (Floats xs) = length xs"
| "length_of (Doubles xs) = length xs"
| "length_of (LongDoubles n) = n"
| "length_of (Integers _ xs) = length xs"
| "length_of (Booleans xs) = length xs"
| "length_of (Strs _ xs) = length xs"
| "length_of (Messages _ xs) = length xs"

definition string_ok :: "runtime \<Rightarrow> string_kind \<Rightarrow> string \<Rightarrow> bool" where
  "string_ok rt k s \<longleftrightarrow>
     (case k of KBoundedString _ \<Rightarrow> fits rt k s | KBoundedWString _ \<Rightarrow> fits rt k s | _ \<Rightarrow> True)"

text \<open>
  A well-formed message has distinct field names, integers and bounded strings within their types,
  message elements of the element type, and bounded sequences within their bounds.
\<close>

fun wf_message :: "runtime \<Rightarrow> message \<Rightarrow> bool"
and wf_value :: "runtime \<Rightarrow> field_value \<Rightarrow> bool"
and wf_simple :: "runtime \<Rightarrow> simple \<Rightarrow> bool"
and wf_elements :: "runtime \<Rightarrow> elements \<Rightarrow> bool" where
  "wf_message rt (Msg fs) \<longleftrightarrow> distinct (map fst fs) \<and> list_all (\<lambda>(n, v). wf_value rt v) fs"
| "wf_value rt (Simple s) \<longleftrightarrow> wf_simple rt s"
| "wf_value rt (Array es) \<longleftrightarrow> wf_elements rt es"
| "wf_value rt (Sequence es) \<longleftrightarrow> wf_elements rt es"
| "wf_value rt (BoundedSequence b es) \<longleftrightarrow> wf_elements rt es \<and> length_of es \<le> b"
| "wf_simple rt (Integer k n) \<longleftrightarrow> int_in_range k n"
| "wf_simple rt (Str k s) \<longleftrightarrow> string_ok rt k s"
| "wf_simple rt (Message m) \<longleftrightarrow> wf_message rt m"
| "wf_simple rt _ \<longleftrightarrow> True"
| "wf_elements rt (Integers k xs) \<longleftrightarrow> list_all (int_in_range k) xs"
| "wf_elements rt (Strs k xs) \<longleftrightarrow> list_all (string_ok rt k) xs"
| "wf_elements rt (Messages d ms) \<longleftrightarrow>
     wf_message rt d \<and> list_all (\<lambda>m. wf_message rt m \<and> type_of_message m = type_of_message d) ms"
| "wf_elements rt _ \<longleftrightarrow> True"

section \<open>A sample for the witnesses\<close>

text \<open>A concrete runtime: strings are escaped by a backslash before quotes and backslashes.\<close>

definition sample_escape :: "char \<Rightarrow> string" where
  "sample_escape c = (if c = DQUOTE \<or> c = CHR 0x5C then [CHR 0x5C, c] else [c])"

definition sample_runtime :: runtime where
  "sample_runtime =
     \<lparr>quote = (\<lambda>s. DQUOTE # concat (map sample_escape s) @ [DQUOTE]),
      show_f32 = (\<lambda>v. [''1.5'']), show_f64 = (\<lambda>v. [''1.5'']),
      debug_str = (\<lambda>s. DQUOTE # s @ [DQUOTE]),
      fits = (\<lambda>k s. case k of KBoundedString b \<Rightarrow> length s \<le> b | KBoundedWString b \<Rightarrow> length s \<le> b
        | _ \<Rightarrow> True)\<rparr>"

definition sample_message :: message where
  "sample_message = Msg [(''data'', Simple (Str KString ''hi'')), (''n'', Sequence (Integers KInt8 [1, - 2]))]"

end
