(* ===== verification/Encoder.thy ===== *)
theory Encoder
  imports Ros_Message
begin

text \<open>
  \<open>src/subscriptions/json.rs\<close>: the bounded JSON encoder. The first section is \<open>Output\<close>, the writer
  that refuses to grow past its limit, with the buffer it leaves behind on success and on failure.
  The second is the traversal of a message and the notification payload. Then come the contract of
  a bounded sink (a locale, interpreted on \<open>push\<close> and on \<open>write_str\<close>), the text a message stands
  for, and the refinement of the bounded encoder to it.
\<close>

section \<open>Output\<close>

record Output =
  text_of :: string
  limit :: nat

type_synonym 's writer = "'s \<Rightarrow> unit res \<times> 's"

definition new_output :: "nat \<Rightarrow> Output" where
  "new_output l = \<lparr>text_of = [], limit = l\<rparr>"

definition limit_error :: "nat \<Rightarrow> string" where
  "limit_error l = ''encoded message exceeds the '' @ show_nat l @ '' byte limit''"

text \<open>\<open>fmt::Write\<close>: the formatter's error carries no text.\<close>

definition fmt_error :: fault where
  "fmt_error = Err ''fmt::Error''"

definition write_str :: "string \<Rightarrow> Output writer" where
  "write_str v o' =
     (if limit o' < length (text_of o') + length v then (Inl fmt_error, o')
      else (Inr (), o'\<lparr>text_of := text_of o' @ v\<rparr>))"

definition push :: "string \<Rightarrow> Output writer" where
  "push v o' =
     (if limit o' < length (text_of o') + length v then (Inl (Err (limit_error (limit o'))), o')
      else (Inr (), o'\<lparr>text_of := text_of o' @ v\<rparr>))"

text \<open>\<open>f()?; g()\<close> on a mutable receiver.\<close>

definition andthen :: "'s writer \<Rightarrow> 's writer \<Rightarrow> 's writer" where
  "andthen f g s = (case f s of (Inl e, s') \<Rightarrow> (Inl e, s') | (Inr u, s') \<Rightarrow> g s')"

definition done_ok :: "'s writer" where
  "done_ok s = (Inr (), s)"

definition fail :: "string \<Rightarrow> 's writer" where
  "fail e s = (Inl (Err e), s)"

text \<open>\<open>write!(w, "{v}")\<close> hands the pieces of \<open>Display\<close> to \<open>write_str\<close> one by one.\<close>

fun write_pieces :: "string list \<Rightarrow> Output writer" where
  "write_pieces [] = done_ok"
| "write_pieces (p # ps) = andthen (write_str p) (write_pieces ps)"

definition encode_number :: "string list \<Rightarrow> Output writer" where
  "encode_number pieces o' =
     (case write_pieces pieces o' of
        (Inl e, o'') \<Rightarrow> (Inl (Err (limit_error (limit o''))), o'')
      | (Inr u, o'') \<Rightarrow> (Inr u, o''))"

definition encode_string :: "runtime \<Rightarrow> string \<Rightarrow> Output writer" where
  "encode_string rt v o' =
     (case write_pieces [v] (new_output (limit o')) of
        (Inl e, raw) \<Rightarrow> (Inl (Err (limit_error (limit o'))), o')
      | (Inr u, raw) \<Rightarrow> push (quote rt (text_of raw)) o')"

section \<open>The traversal\<close>

text \<open>\<open>for (index, x) in xs.iter().enumerate() { if index > 0 { push(",")?; } encode(x)?; }\<close>\<close>

fun separated :: "('a \<Rightarrow> Output writer) \<Rightarrow> nat \<Rightarrow> 'a list \<Rightarrow> Output writer" where
  "separated encode index [] = done_ok"
| "separated encode index (x # xs) =
     andthen (if 0 < index then push '','' else done_ok)
       (andthen (encode x) (separated encode (Suc index) xs))"

lemma separated_cong [fundef_cong]:
  assumes "i = j" and "xs = ys" and "\<And>y. y \<in> set ys \<Longrightarrow> f y = g y"
  shows "separated f i xs = separated g j ys"
proof -
  have "(\<And>y. y \<in> set ys \<Longrightarrow> f y = g y) \<Longrightarrow> separated f j ys = separated g j ys"
    by (induction ys arbitrary: j) simp_all
  with assms show ?thesis by simp
qed

definition encode_array :: "('a \<Rightarrow> Output writer) \<Rightarrow> 'a list \<Rightarrow> Output writer" where
  "encode_array encode vs = andthen (push ''['') (andthen (separated encode 0 vs) (push '']''))"

lemma encode_array_cong [fundef_cong]:
  assumes "xs = ys" and "\<And>y. y \<in> set ys \<Longrightarrow> f y = g y"
  shows "encode_array f xs = encode_array g ys"
  using assms separated_cong [OF refl assms] by (simp add: encode_array_def)

definition encode_f32 :: "runtime \<Rightarrow> f32 \<Rightarrow> Output writer" where
  "encode_f32 rt v = (if f32_is_finite v then encode_number (show_f32 rt v) else push ''null'')"

definition encode_f64 :: "runtime \<Rightarrow> f64 \<Rightarrow> Output writer" where
  "encode_f64 rt v = (if f64_is_finite v then encode_number (show_f64 rt v) else push ''null'')"

definition err_long_double :: string where
  "err_long_double = ''long double fields are unsupported''"

definition err_nesting :: string where
  "err_nesting = ''message nesting exceeds 64 levels''"

fun encode_message :: "runtime \<Rightarrow> message \<Rightarrow> nat \<Rightarrow> Output writer"
and encode_value :: "runtime \<Rightarrow> field_value \<Rightarrow> nat \<Rightarrow> Output writer"
and encode_simple :: "runtime \<Rightarrow> simple \<Rightarrow> nat \<Rightarrow> Output writer"
and encode_elements :: "runtime \<Rightarrow> elements \<Rightarrow> nat \<Rightarrow> Output writer" where
  "encode_message rt (Msg fs) depth =
     (if 64 < depth then fail err_nesting
      else andthen (push ''{'')
        (andthen
          (separated (\<lambda>(name, v). andthen (encode_string rt name)
              (andthen (push '':'') (encode_value rt v (depth + 1)))) 0 fs)
          (push ''}'')))"
| "encode_value rt (Simple s) depth = encode_simple rt s depth"
| "encode_value rt (Array es) depth = encode_elements rt es depth"
| "encode_value rt (Sequence es) depth = encode_elements rt es depth"
| "encode_value rt (BoundedSequence b es) depth = encode_elements rt es depth"
| "encode_simple rt (Float v) depth = encode_f32 rt v"
| "encode_simple rt (Double v) depth = encode_f64 rt v"
| "encode_simple rt (Integer k n) depth = encode_number (show_int n)"
| "encode_simple rt (Boolean b) depth = encode_number [show_bool b]"
| "encode_simple rt (Str k s) depth = encode_string rt s"
| "encode_simple rt (Message m) depth = encode_message rt m depth"
| "encode_simple rt LongDouble depth = fail err_long_double"
| "encode_elements rt (Floats vs) depth = encode_array (encode_f32 rt) vs"
| "encode_elements rt (Doubles vs) depth = encode_array (encode_f64 rt) vs"
| "encode_elements rt (Integers k ns) depth = encode_array (\<lambda>n. encode_number (show_int n)) ns"
| "encode_elements rt (Booleans bs) depth = encode_array (\<lambda>b. encode_number [show_bool b]) bs"
| "encode_elements rt (Strs k ss) depth = encode_array (encode_string rt) ss"
| "encode_elements rt (Messages d ms) depth = encode_array (\<lambda>m. encode_message rt m depth) ms"
| "encode_elements rt (LongDoubles n) depth = fail err_long_double"

definition json_key :: "string \<Rightarrow> string" where
  "json_key k = DQUOTE # k @ [DQUOTE]"

definition payload_writer :: "runtime \<Rightarrow> string \<Rightarrow> string \<Rightarrow> u64 \<Rightarrow> message \<Rightarrow> Output writer" where
  "payload_writer rt topic message_type sequence msg =
     andthen (push (''{'' @ json_key ''topic'' @ '':''))
         (andthen (encode_string rt topic)
         (andthen (push ('','' @ json_key ''message_type'' @ '':''))
         (andthen (encode_string rt message_type)
         (andthen (push ('','' @ json_key ''sequence'' @ '':''))
         (andthen (encode_number (show_int (uint sequence)))
         (andthen (push ('','' @ json_key ''message'' @ '':''))
         (andthen (encode_message rt msg 0)
           (push ''}''))))))))"

definition payload :: "runtime \<Rightarrow> string \<Rightarrow> string \<Rightarrow> u64 \<Rightarrow> message \<Rightarrow> nat \<Rightarrow> string res" where
  "payload rt topic message_type sequence msg l =
     (case payload_writer rt topic message_type sequence msg (new_output l) of
        (Inl e, _) \<Rightarrow> Inl e
      | (Inr _, out) \<Rightarrow> Inr (text_of out))"

definition NOTIFY_LIMIT :: nat where
  "NOTIFY_LIMIT = 7999"

section \<open>The contract of a bounded sink\<close>

text \<open>
  What the encoder relies on: a sink accepts a piece exactly when it fits, appends it then, and
  otherwise stays as it was and reports its capacity. A writer \<open>writes\<close> a text when it behaves like
  one push of it; \<open>keeps\<close> is what every writer owes the sink whether it succeeds or not.
\<close>

locale bounded_sink =
  fixes accept :: "string \<Rightarrow> 's writer" and contents :: "'s \<Rightarrow> string"
    and capacity :: "'s \<Rightarrow> nat" and overflow :: "nat \<Rightarrow> fault"
  assumes accepts: "length (contents s) + length x \<le> capacity s \<Longrightarrow>
      \<exists>s'. accept x s = (Inr (), s') \<and> contents s' = contents s @ x \<and> capacity s' = capacity s"
    and refuses: "capacity s < length (contents s) + length x \<Longrightarrow>
      accept x s = (Inl (overflow (capacity s)), s)"
begin

definition writes :: "'s writer \<Rightarrow> string \<Rightarrow> bool" where
  "writes w x \<longleftrightarrow> (\<forall>s. length (contents s) \<le> capacity s \<longrightarrow>
     (if length (contents s) + length x \<le> capacity s
      then \<exists>s'. w s = (Inr (), s') \<and> contents s' = contents s @ x \<and> capacity s' = capacity s
      else fst (w s) = Inl (overflow (capacity s))))"

definition keeps :: "'s writer \<Rightarrow> bool" where
  "keeps w \<longleftrightarrow> (\<forall>s. length (contents s) \<le> capacity s \<longrightarrow>
     capacity (snd (w s)) = capacity s \<and> prefix (contents s) (contents (snd (w s))) \<and>
     length (contents (snd (w s))) \<le> capacity s)"

lemma writes_accept: "writes (accept x) x"
  using accepts refuses by (simp add: writes_def not_le)

lemma writes_done: "writes done_ok []"
  by (simp add: writes_def done_ok_def)

lemma writes_andthen:
  assumes f: "writes f x" and g: "writes g y"
  shows "writes (andthen f g) (x @ y)"
  unfolding writes_def
proof (intro allI impI)
  fix s assume s: "length (contents s) \<le> capacity s"
  let ?goal = "\<lambda>w z. if length (contents s) + length z \<le> capacity s
    then \<exists>s'. w s = (Inr (), s') \<and> contents s' = contents s @ z \<and> capacity s' = capacity s
    else fst (w s) = Inl (overflow (capacity s))"
  have fs: "?goal f x" by (rule f [unfolded writes_def, rule_format, OF s])
  show "?goal (andthen f g) (x @ y)"
  proof (cases "length (contents s) + length x \<le> capacity s")
    case True
    with fs obtain s' where s': "f s = (Inr (), s')" "contents s' = contents s @ x" "capacity s' = capacity s"
      by auto
    then have run: "andthen f g s = g s'" by (simp add: andthen_def)
    from True s' have len: "length (contents s') \<le> capacity s'" by simp
    have "if length (contents s') + length y \<le> capacity s'
      then \<exists>t. g s' = (Inr (), t) \<and> contents t = contents s' @ y \<and> capacity t = capacity s'
      else fst (g s') = Inl (overflow (capacity s'))"
      by (rule g [unfolded writes_def, rule_format, OF len])
    then show ?thesis unfolding run by (auto simp: s'(2,3) add.assoc split: if_splits)
  next
    case False
    with fs have "fst (f s) = Inl (overflow (capacity s))" by simp
    then have "fst (andthen f g s) = Inl (overflow (capacity s))"
      by (cases "f s") (simp add: andthen_def)
    with False show ?thesis by simp
  qed
qed

lemma keeps_accept: "keeps (accept x)"
  unfolding keeps_def
proof (intro allI impI)
  fix s assume s: "length (contents s) \<le> capacity s"
  show "capacity (snd (accept x s)) = capacity s \<and> prefix (contents s) (contents (snd (accept x s))) \<and>
     length (contents (snd (accept x s))) \<le> capacity s"
  proof (cases "length (contents s) + length x \<le> capacity s")
    case True
    then show ?thesis using accepts [OF True] by auto
  next
    case False
    then show ?thesis using refuses [of s x] s by simp
  qed
qed

lemma keeps_done: "keeps done_ok"
  by (simp add: keeps_def done_ok_def)

lemma keeps_fail: "keeps (fail e)"
  by (simp add: keeps_def fail_def)

lemma keeps_andthen:
  assumes f: "keeps f" and g: "keeps g"
  shows "keeps (andthen f g)"
  unfolding keeps_def
proof (intro allI impI)
  fix s assume s: "length (contents s) \<le> capacity s"
  obtain r s' where fs: "f s = (r, s')" by (cases "f s")
  with f s have s': "capacity s' = capacity s" "prefix (contents s) (contents s')"
    "length (contents s') \<le> capacity s'" by (auto simp: keeps_def)
  have gs: "capacity (snd (g s')) = capacity s' \<and> prefix (contents s') (contents (snd (g s'))) \<and>
      length (contents (snd (g s'))) \<le> capacity s'"
    using g s'(3) by (simp add: keeps_def)
  show "capacity (snd (andthen f g s)) = capacity s \<and>
     prefix (contents s) (contents (snd (andthen f g s))) \<and>
     length (contents (snd (andthen f g s))) \<le> capacity s"
  proof (cases r)
    case (Inl e)
    then show ?thesis using fs s' by (simp add: andthen_def)
  next
    case (Inr u)
    then show ?thesis using fs s' gs
      by (auto simp: andthen_def dest: prefix_order.trans)
  qed
qed

lemma writes_eq:
  assumes "writes w x" and "contents s = []"
  shows "fst (w s) = (if length x \<le> capacity s then Inr () else Inl (overflow (capacity s))) \<and>
    (length x \<le> capacity s \<longrightarrow> contents (snd (w s)) = x)"
proof -
  have "length (contents s) \<le> capacity s" using assms(2) by simp
  from assms(1) [unfolded writes_def, rule_format, OF this] show ?thesis
    by (auto simp: assms(2) split: if_splits)
qed

end

interpretation out: bounded_sink push text_of limit "\<lambda>l. Err (limit_error l)"
  by unfold_locales (simp_all add: push_def)

interpretation fmt: bounded_sink write_str text_of limit "\<lambda>l. fmt_error"
  by unfold_locales (simp_all add: write_str_def)

section \<open>Every operation keeps the buffer within its limit\<close>

lemma write_pieces_writes: "fmt.writes (write_pieces ps) (concat ps)"
  by (induction ps) (simp_all add: fmt.writes_done fmt.writes_andthen fmt.writes_accept)

lemma write_pieces_keeps: "fmt.keeps (write_pieces ps)"
  by (induction ps) (simp_all add: fmt.keeps_done fmt.keeps_andthen fmt.keeps_accept)

lemma encode_number_keeps: "out.keeps (encode_number ps)"
proof -
  have "snd (encode_number ps s) = snd (write_pieces ps s)" for s
    by (simp add: encode_number_def split: prod.splits sum.splits)
  then show ?thesis
    using write_pieces_keeps [of ps] by (simp add: out.keeps_def)
qed

lemma encode_string_keeps: "out.keeps (encode_string rt v)"
proof -
  have cases: "snd (encode_string rt v s) = s \<or> (\<exists>x. snd (encode_string rt v s) = snd (push x s))" for s :: Output
    by (auto simp: encode_string_def split: prod.splits sum.splits)
  show ?thesis
    unfolding out.keeps_def
  proof (intro allI impI)
    fix s :: Output assume s: "length (text_of s) \<le> limit s"
    let ?K = "\<lambda>t. limit t = limit s \<and> prefix (text_of s) (text_of t) \<and> length (text_of t) \<le> limit s"
    have "?K (snd (push x s))" for x
      by (rule out.keeps_accept [unfolded out.keeps_def, rule_format, OF s])
    moreover have "?K s" using s by simp
    ultimately show "?K (snd (encode_string rt v s))" using cases [of s] by auto
  qed
qed

lemma separated_keeps:
  "(\<And>x. x \<in> set xs \<Longrightarrow> out.keeps (enc x)) \<Longrightarrow> out.keeps (separated enc i xs)"
  by (induction xs arbitrary: i)
    (simp_all add: out.keeps_done out.keeps_andthen out.keeps_accept)

lemma encode_array_keeps:
  "(\<And>x. x \<in> set xs \<Longrightarrow> out.keeps (enc x)) \<Longrightarrow> out.keeps (encode_array enc xs)"
  by (simp add: encode_array_def separated_keeps out.keeps_andthen out.keeps_accept)

lemma encode_float_keeps: "out.keeps (encode_f32 rt v)" "out.keeps (encode_f64 rt w)"
  by (simp_all add: encode_f32_def encode_f64_def encode_number_keeps out.keeps_accept)

lemmas keeps_intros = out.keeps_done out.keeps_fail out.keeps_accept out.keeps_andthen
  encode_number_keeps encode_string_keeps separated_keeps encode_array_keeps encode_float_keeps

lemma encode_keeps:
  "out.keeps (encode_message rt m d)"
  "out.keeps (encode_value rt v d)"
  "out.keeps (encode_simple rt s d)"
  "out.keeps (encode_elements rt es d)"
  by (induction rt m d and rt v d and rt s d and rt es d
      rule: encode_message_encode_value_encode_simple_encode_elements.induct)
    (auto intro!: keeps_intros)

section \<open>The number of a payload\<close>

text \<open>What a writer that succeeds has written.\<close>

definition appends :: "Output writer \<Rightarrow> string \<Rightarrow> bool" where
  "appends w x \<longleftrightarrow> (\<forall>s s'. w s = (Inr (), s') \<longrightarrow> text_of s' = text_of s @ x)"

lemma appends_push: "appends (push x) x"
  by (simp add: appends_def push_def)

lemma appends_string: "appends (encode_string rt v) (quote rt v)"
  using appends_push by (auto simp: appends_def encode_string_def andthen_def write_str_def new_output_def done_ok_def)

lemma appends_number: "appends (encode_number ps) (concat ps)"
proof -
  have "write_pieces ps s = (Inr (), s') \<Longrightarrow> text_of s' = text_of s @ concat ps" for s s'
    by (induction ps arbitrary: s) (auto simp: andthen_def write_str_def done_ok_def split: prod.splits sum.splits if_splits)
  then show ?thesis by (auto simp: appends_def encode_number_def split: prod.splits sum.splits)
qed

lemma appends_andthen: "appends f x \<Longrightarrow> appends g y \<Longrightarrow> appends (andthen f g) (x @ y)"
  by (fastforce simp: appends_def andthen_def split: prod.splits sum.splits)

text \<open>A payload starts with its topic, its type and its number.\<close>

lemma payload_starts:
  assumes "payload rt topic ty n m l = Inr x"
  shows "\<exists>rest. x = (''{'' @ json_key ''topic'' @ '':'') @ quote rt topic @ ('','' @ json_key ''message_type'' @ '':'') @
    quote rt ty @ ('','' @ json_key ''sequence'' @ '':'') @ show_nat (unat n) @ CHR 0x2C # rest"
proof -
  let ?comma = "'','' @ json_key ''message'' @ '':''"
  define w where "w = andthen (push (''{'' @ json_key ''topic'' @ '':'')) (andthen (encode_string rt topic)
    (andthen (push ('','' @ json_key ''message_type'' @ '':'')) (andthen (encode_string rt ty)
    (andthen (push ('','' @ json_key ''sequence'' @ '':'')) (andthen (encode_number (show_int (uint n))) (push ?comma))))))"
  have assoc: "andthen (andthen f g) h = andthen f (andthen g h)" for f g h :: "Output writer"
    by (auto simp: andthen_def fun_eq_iff split: prod.splits sum.splits)
  have w: "payload_writer rt topic ty n m = andthen w (andthen (encode_message rt m 0) (push ''}''))"
    by (simp add: payload_writer_def w_def assoc)
  from assms obtain s where run: "payload_writer rt topic ty n m (new_output l) = (Inr (), s)" and x: "x = text_of s"
    by (auto simp: payload_def split: prod.splits sum.splits)
  then obtain s1 s2 where s: "w (new_output l) = (Inr (), s1)" "encode_message rt m 0 s1 = (Inr (), s2)" "push ''}'' s2 = (Inr (), s)"
    by (auto simp: w andthen_def split: prod.splits sum.splits)
  have "appends w ((''{'' @ json_key ''topic'' @ '':'') @ quote rt topic @ ('','' @ json_key ''message_type'' @ '':'') @
    quote rt ty @ ('','' @ json_key ''sequence'' @ '':'') @ concat (show_int (uint n)) @ ?comma)"
    unfolding w_def by (intro appends_andthen appends_push appends_string appends_number)
  with s(1) have t1: "text_of s1 = (''{'' @ json_key ''topic'' @ '':'') @ quote rt topic @ ('','' @ json_key ''message_type'' @ '':'') @
    quote rt ty @ ('','' @ json_key ''sequence'' @ '':'') @ show_nat (unat n) @ ?comma"
    by (simp add: appends_def new_output_def show_int_def nat_uint_eq del: append_Cons)
  have "length (text_of s1) \<le> limit s1"
    using s(1) by (auto simp: w_def andthen_def push_def split: prod.splits sum.splits if_splits)
  with encode_keeps(1) [of rt m 0] s(2) have "prefix (text_of s1) (text_of s2)"
    by (auto simp: out.keeps_def)
  moreover have "text_of s = text_of s2 @ ''}''" using s(3) appends_push by (simp add: appends_def)
  ultimately show ?thesis using x t1 by (auto simp: prefix_def)
qed

text \<open>Payloads with different numbers are different, whatever their messages.\<close>

lemma payload_numbered:
  assumes "payload rt topic ty n m l = Inr x" and "payload rt topic ty n' m' l' = Inr x" 
  shows "n = n'"
proof -
  from payload_starts [OF assms(1)] payload_starts [OF assms(2)] obtain a b where
    "show_nat (unat n) @ CHR 0x2C # a = show_nat (unat n') @ CHR 0x2C # b" by auto
  from show_nat_followed [OF this] show ?thesis by (simp add: word_unat_eq_iff)
qed

section \<open>How an encoding can fail\<close>

text \<open>The three messages a caller can see; nothing in the encoder panics.\<close>

definition encode_errors :: "nat \<Rightarrow> fault list" where
  "encode_errors l = [Err (limit_error l), Err err_long_double, Err err_nesting]"

definition reports :: "Output writer \<Rightarrow> bool" where
  "reports w \<longleftrightarrow> (\<forall>s e. fst (w s) = Inl e \<longrightarrow> e \<in> set (encode_errors (limit s))) \<and>
     (\<forall>s. limit (snd (w s)) = limit s)"

lemma reports_push: "reports (push x)"
  by (simp add: reports_def push_def encode_errors_def)

lemma reports_done: "reports done_ok"
  by (simp add: reports_def done_ok_def)

lemma reports_fail: "reports (fail err_long_double)" "reports (fail err_nesting)"
  by (simp_all add: reports_def fail_def encode_errors_def)

lemma reports_andthen: "reports f \<Longrightarrow> reports g \<Longrightarrow> reports (andthen f g)"
  unfolding reports_def
  by (auto simp: andthen_def split: prod.splits sum.splits) (metis fst_conv snd_conv)+

lemma limit_write_pieces: "limit (snd (write_pieces ps s)) = limit s"
  by (induction ps arbitrary: s)
    (auto simp: done_ok_def andthen_def write_str_def split: prod.splits sum.splits)

lemma reports_number: "reports (encode_number ps)"
  using limit_write_pieces [of ps]
  by (auto simp: reports_def encode_number_def encode_errors_def split: prod.splits sum.splits)
    (metis snd_conv)+

lemma reports_string: "reports (encode_string rt v)"
  using reports_push
  by (auto simp: reports_def encode_string_def encode_errors_def split: prod.splits sum.splits)

lemma reports_separated:
  "(\<And>x. x \<in> set xs \<Longrightarrow> reports (enc x)) \<Longrightarrow> reports (separated enc i xs)"
  by (induction xs arbitrary: i) (simp_all add: reports_done reports_andthen reports_push)

lemma reports_array: "(\<And>x. x \<in> set xs \<Longrightarrow> reports (enc x)) \<Longrightarrow> reports (encode_array enc xs)"
  by (simp add: encode_array_def reports_separated reports_andthen reports_push)

lemma reports_float: "reports (encode_f32 rt v)" "reports (encode_f64 rt w)"
  by (simp_all add: encode_f32_def encode_f64_def reports_number reports_push)

lemmas reports_intros = reports_done reports_fail reports_push reports_andthen reports_number
  reports_string reports_separated reports_array reports_float

lemma encode_reports:
  "reports (encode_message rt m d)"
  "reports (encode_value rt v d)"
  "reports (encode_simple rt s d)"
  "reports (encode_elements rt es d)"
  by (induction rt m d and rt v d and rt s d and rt es d
      rule: encode_message_encode_value_encode_simple_encode_elements.induct)
    (auto intro!: reports_intros)

section \<open>The text a message stands for\<close>

definition tree_f32 :: "runtime \<Rightarrow> f32 \<Rightarrow> jtext" where
  "tree_f32 rt v = Lit (if f32_is_finite v then concat (show_f32 rt v) else ''null'')"

definition tree_f64 :: "runtime \<Rightarrow> f64 \<Rightarrow> jtext" where
  "tree_f64 rt v = Lit (if f64_is_finite v then concat (show_f64 rt v) else ''null'')"

definition tree_int :: "int \<Rightarrow> jtext" where
  "tree_int n = Lit (concat (show_int n))"

fun tree_message :: "runtime \<Rightarrow> message \<Rightarrow> jtext"
and tree_value :: "runtime \<Rightarrow> field_value \<Rightarrow> jtext"
and tree_simple :: "runtime \<Rightarrow> simple \<Rightarrow> jtext"
and tree_elements :: "runtime \<Rightarrow> elements \<Rightarrow> jtext" where
  "tree_message rt (Msg fs) = Obj (map (\<lambda>(name, v). (name, tree_value rt v)) fs)"
| "tree_value rt (Simple s) = tree_simple rt s"
| "tree_value rt (Array es) = tree_elements rt es"
| "tree_value rt (Sequence es) = tree_elements rt es"
| "tree_value rt (BoundedSequence b es) = tree_elements rt es"
| "tree_simple rt (Float v) = tree_f32 rt v"
| "tree_simple rt (Double v) = tree_f64 rt v"
| "tree_simple rt (Integer k n) = tree_int n"
| "tree_simple rt (Boolean b) = Lit (show_bool b)"
| "tree_simple rt (Str k s) = Quoted s"
| "tree_simple rt (Message m) = tree_message rt m"
| "tree_simple rt LongDouble = Lit []"
| "tree_elements rt (Floats vs) = Arr (map (tree_f32 rt) vs)"
| "tree_elements rt (Doubles vs) = Arr (map (tree_f64 rt) vs)"
| "tree_elements rt (Integers k ns) = Arr (map tree_int ns)"
| "tree_elements rt (Booleans bs) = Arr (map (\<lambda>b. Lit (show_bool b)) bs)"
| "tree_elements rt (Strs k ss) = Arr (map Quoted ss)"
| "tree_elements rt (Messages d ms) = Arr (map (tree_message rt) ms)"
| "tree_elements rt (LongDoubles n) = Lit []"

text \<open>The messages that have a text: no long double, and at most 64 levels of nested messages.\<close>

fun encodable_message :: "nat \<Rightarrow> message \<Rightarrow> bool"
and encodable_value :: "nat \<Rightarrow> field_value \<Rightarrow> bool"
and encodable_simple :: "nat \<Rightarrow> simple \<Rightarrow> bool"
and encodable_elements :: "nat \<Rightarrow> elements \<Rightarrow> bool" where
  "encodable_message d (Msg fs) \<longleftrightarrow> d \<le> 64 \<and> list_all (\<lambda>(name, v). encodable_value (Suc d) v) fs"
| "encodable_value d (Simple s) \<longleftrightarrow> encodable_simple d s"
| "encodable_value d (Array es) \<longleftrightarrow> encodable_elements d es"
| "encodable_value d (Sequence es) \<longleftrightarrow> encodable_elements d es"
| "encodable_value d (BoundedSequence b es) \<longleftrightarrow> encodable_elements d es"
| "encodable_simple d LongDouble \<longleftrightarrow> False"
| "encodable_simple d (Message m) \<longleftrightarrow> encodable_message d m"
| "encodable_simple d _ \<longleftrightarrow> True"
| "encodable_elements d (LongDoubles n) \<longleftrightarrow> False"
| "encodable_elements d (Messages proto ms) \<longleftrightarrow> list_all (encodable_message d) ms"
| "encodable_elements d _ \<longleftrightarrow> True"

definition envelope :: "string \<Rightarrow> string \<Rightarrow> u64 \<Rightarrow> jtext \<Rightarrow> jtext" where
  "envelope topic message_type sequence msg =
     Obj [(''topic'', Quoted topic), (''message_type'', Quoted message_type),
       (''sequence'', tree_int (uint sequence)), (''message'', msg)]"

text \<open>
  What the refinement needs of \<open>serde_json::to_string\<close>: escaping never shortens a string, and the
  four field names of the envelope, which the code writes literally, need no escape.
\<close>

definition quote_ok :: "runtime \<Rightarrow> bool" where
  "quote_ok rt \<longleftrightarrow> (\<forall>s. length s \<le> length (quote rt s)) \<and>
     list_all (\<lambda>k. quote rt k = json_key k) [''topic'', ''message_type'', ''sequence'', ''message'']"

section \<open>The bounded encoder writes that text\<close>

lemma encode_number_writes: "out.writes (encode_number ps) (concat ps)"
  unfolding out.writes_def
proof (intro allI impI)
  fix s :: Output assume s: "length (text_of s) \<le> limit s"
  have keep: "limit (snd (write_pieces ps s)) = limit s" by (rule limit_write_pieces)
  show "if length (text_of s) + length (concat ps) \<le> limit s
    then \<exists>s'. encode_number ps s = (Inr (), s') \<and> text_of s' = text_of s @ concat ps \<and> limit s' = limit s
    else fst (encode_number ps s) = Inl (Err (limit_error (limit s)))"
    using write_pieces_writes [of ps, unfolded fmt.writes_def, rule_format, OF s] keep
    by (auto simp: encode_number_def split: if_splits prod.splits sum.splits)
qed

lemma encode_string_writes:
  assumes "length v \<le> length (quote rt v)"
  shows "out.writes (encode_string rt v) (quote rt v)"
  unfolding out.writes_def
proof (intro allI impI)
  fix s :: Output assume s: "length (text_of s) \<le> limit s"
  show "if length (text_of s) + length (quote rt v) \<le> limit s
    then \<exists>s'. encode_string rt v s = (Inr (), s') \<and> text_of s' = text_of s @ quote rt v \<and> limit s' = limit s
    else fst (encode_string rt v s) = Inl (Err (limit_error (limit s)))"
    using assms
    by (simp add: encode_string_def new_output_def andthen_def write_str_def done_ok_def push_def)
qed

lemma separated_writes_tail:
  "(\<And>x. x \<in> set xs \<Longrightarrow> out.writes (enc x) (t x)) \<Longrightarrow>
    out.writes (separated enc (Suc i) xs) (concat (map (\<lambda>x. '','' @ t x) xs))"
proof (induction xs arbitrary: i)
  case (Cons x xs)
  have "out.writes (separated enc (Suc i) (x # xs)) ('','' @ t x @ concat (map (\<lambda>x. '','' @ t x) xs))"
    by (simp del: append_Cons) (intro out.writes_andthen out.writes_accept Cons; simp add: Cons)
  then show ?case by simp
qed (simp add: out.writes_done)

lemma separated_writes:
  assumes "\<And>x. x \<in> set xs \<Longrightarrow> out.writes (enc x) (t x)"
  shows "out.writes (separated enc 0 xs) (joined '','' (map t xs))"
proof (cases xs)
  case Nil
  then show ?thesis by (simp add: out.writes_done)
next
  case (Cons x ys)
  have "out.writes (separated enc 0 xs) ([] @ t x @ concat (map (\<lambda>x. '','' @ t x) ys))"
    unfolding Cons separated.simps
    by (intro out.writes_andthen separated_writes_tail) (use assms Cons in \<open>auto intro: out.writes_done\<close>)
  then show ?thesis by (simp add: Cons joined_Cons comp_def)
qed

lemma encode_array_writes:
  assumes "\<And>x. x \<in> set xs \<Longrightarrow> out.writes (enc x) (t x)"
  shows "out.writes (encode_array enc xs) (''['' @ joined '','' (map t xs) @ '']'')"
  unfolding encode_array_def
  by (intro out.writes_andthen out.writes_accept separated_writes assms)

lemma encode_float_writes:
  "out.writes (encode_f32 rt v) (render q (tree_f32 rt v))"
  "out.writes (encode_f64 rt w) (render q (tree_f64 rt w))"
  by (simp_all add: encode_f32_def encode_f64_def tree_f32_def tree_f64_def encode_number_writes
      out.writes_accept)

lemma quote_okD: "quote_ok rt \<Longrightarrow> length s \<le> length (quote rt s)"
  by (simp add: quote_ok_def)

lemma encode_field_writes:
  assumes "quote_ok rt" and "out.writes (encode_value rt v d) x"
  shows "out.writes (andthen (encode_string rt name) (andthen (push '':'') (encode_value rt v d)))
    (quote rt name @ '':'' @ x)"
  by (intro out.writes_andthen out.writes_accept encode_string_writes quote_okD assms)

lemma leaf_writes:
  "out.writes (encode_number (show_int n)) (render q (tree_int n))"
  "out.writes (encode_number [show_bool b]) (render q (Lit (show_bool b)))"
  "quote_ok rt \<Longrightarrow> out.writes (encode_string rt v) (render (quote rt) (Quoted v))"
  "out.writes (encode_f32 rt x) (render q (tree_f32 rt x))"
  "out.writes (encode_f64 rt y) (render q (tree_f64 rt y))"
  using encode_number_writes [of "show_int n"] encode_number_writes [of "[show_bool b]"]
    encode_string_writes [of v rt] quote_okD [of rt v] encode_float_writes
  by (simp_all add: tree_int_def)

lemma encode_array_render:
  assumes "\<And>x. x \<in> set xs \<Longrightarrow> out.writes (enc x) (render q (t x))"
  shows "out.writes (encode_array enc xs) (render q (Arr (map t xs)))"
  using encode_array_writes [of xs enc "\<lambda>x. render q (t x)"] assms by (simp add: comp_def)

lemma encode_writes:
  "quote_ok rt \<Longrightarrow> encodable_message d m \<Longrightarrow>
     out.writes (encode_message rt m d) (render (quote rt) (tree_message rt m))"
  "quote_ok rt \<Longrightarrow> encodable_value d v \<Longrightarrow>
     out.writes (encode_value rt v d) (render (quote rt) (tree_value rt v))"
  "quote_ok rt \<Longrightarrow> encodable_simple d s \<Longrightarrow>
     out.writes (encode_simple rt s d) (render (quote rt) (tree_simple rt s))"
  "quote_ok rt \<Longrightarrow> encodable_elements d es \<Longrightarrow>
     out.writes (encode_elements rt es d) (render (quote rt) (tree_elements rt es))"
proof (induction rt m d and rt v d and rt s d and rt es d
    rule: encode_message_encode_value_encode_simple_encode_elements.induct)
  case (1 rt fs depth)
  let ?t = "\<lambda>(name, v). quote rt name @ '':'' @ render (quote rt) (tree_value rt v)"
  let ?enc = "\<lambda>(name, v). andthen (encode_string rt name)
    (andthen (push '':'') (encode_value rt v (depth + 1)))"
  from 1(3) have depth: "\<not> 64 < depth" by simp
  have field: "out.writes (?enc p) (?t p)" if p: "p \<in> set fs" for p
  proof -
    obtain n v where nv: "p = (n, v)" by (cases p)
    have "encodable_value (depth + 1) v"
      using 1(3) p nv by (auto simp: list_all_iff)
    then have "out.writes (encode_value rt v (depth + 1)) (render (quote rt) (tree_value rt v))"
      using "1.IH" [OF depth p [unfolded nv], of n v] 1(2) by simp
    from encode_field_writes [OF 1(2) this, of n] show ?thesis by (simp add: nv)
  qed
  have "out.writes (encode_message rt (Msg fs) depth) (''{'' @ joined '','' (map ?t fs) @ ''}'')"
    unfolding encode_message.simps using depth field
    by (simp only: if_False) (intro out.writes_andthen out.writes_accept separated_writes)
  then show ?case by (simp add: comp_def case_prod_unfold)
qed (simp_all only: encode_value.simps tree_value.simps encode_simple.simps tree_simple.simps
    encode_elements.simps tree_elements.simps encodable_value.simps encodable_simple.simps
    encodable_elements.simps list_all_iff leaf_writes encode_array_render)

lemma payload_eq:
  "payload rt topic ty q m l =
     map_res (\<lambda>_. text_of (snd (payload_writer rt topic ty q m (new_output l))))
       (fst (payload_writer rt topic ty q m (new_output l)))"
  by (simp add: payload_def split: prod.splits sum.splits)

lemma payload_writes:
  assumes q: "quote_ok rt" and m: "encodable_message 0 m"
  shows "out.writes (payload_writer rt topic ty n m)
    (render (quote rt) (envelope topic ty n (tree_message rt m)))"
proof -
  have keys: "quote rt k = json_key k" if "k \<in> {''topic'', ''message_type'', ''sequence'', ''message''}" for k
    using q that by (auto simp: quote_ok_def)
  have "out.writes (payload_writer rt topic ty n m)
    ((''{'' @ json_key ''topic'' @ '':'') @ quote rt topic @ ('','' @ json_key ''message_type'' @ '':'') @
     quote rt ty @ ('','' @ json_key ''sequence'' @ '':'') @ concat (show_int (uint n)) @
     ('','' @ json_key ''message'' @ '':'') @ render (quote rt) (tree_message rt m) @ ''}'')"
    unfolding payload_writer_def
    by (intro out.writes_andthen out.writes_accept encode_string_writes quote_okD
        encode_number_writes encode_writes q m)
  then show ?thesis by (simp add: envelope_def keys tree_int_def)
qed

text \<open>Conversely, a message without a text is refused whatever the buffer holds.\<close>

definition failing :: "'s writer \<Rightarrow> bool" where
  "failing w \<longleftrightarrow> (\<forall>s. isl (fst (w s)))"

lemma failing_fail: "failing (fail e)"
  by (simp add: failing_def fail_def)

lemma failing_first: "failing f \<Longrightarrow> failing (andthen f g)"
  unfolding failing_def
proof
  fix s assume "\<forall>s. isl (fst (f s))"
  then have "isl (fst (f s))" ..
  then show "isl (fst (andthen f g s))"
    by (auto simp: andthen_def split: prod.splits sum.splits)
qed

lemma failing_second: "failing g \<Longrightarrow> failing (andthen f g)"
  by (auto simp: failing_def andthen_def split: prod.splits sum.splits)

lemma failing_separated: "x \<in> set xs \<Longrightarrow> failing (enc x) \<Longrightarrow> failing (separated enc i xs)"
  by (induction xs arbitrary: i) (auto intro: failing_second failing_first)

lemma failing_array: "x \<in> set xs \<Longrightarrow> failing (enc x) \<Longrightarrow> failing (encode_array enc xs)"
  unfolding encode_array_def by (intro failing_second failing_first failing_separated)

lemma encode_fails:
  "\<not> encodable_message d m \<Longrightarrow> failing (encode_message rt m d)"
  "\<not> encodable_value d v \<Longrightarrow> failing (encode_value rt v d)"
  "\<not> encodable_simple d s \<Longrightarrow> failing (encode_simple rt s d)"
  "\<not> encodable_elements d es \<Longrightarrow> failing (encode_elements rt es d)"
proof (induction rt m d and rt v d and rt s d and rt es d
    rule: encode_message_encode_value_encode_simple_encode_elements.induct)
  case (1 rt fs depth)
  show ?case
  proof (cases "64 < depth")
    case True
    then show ?thesis by (simp add: failing_fail)
  next
    case False
    with "1.prems" obtain n v where nv: "(n, v) \<in> set fs" "\<not> encodable_value (Suc depth) v"
      by (auto simp: list_all_iff)
    let ?enc = "\<lambda>(name, v). andthen (encode_string rt name)
      (andthen (push '':'') (encode_value rt v (depth + 1)))"
    have "failing (encode_value rt v (depth + 1))"
      using "1.IH" [OF False nv(1) refl] nv(2) by simp
    then have "failing (?enc (n, v))"
      by (simp add: failing_second)
    from failing_separated [of _ _ ?enc, OF nv(1) this]
    have "failing (andthen (push ''{'') (andthen (separated ?enc 0 fs) (push ''}'')))"
      by (intro failing_second failing_first)
    then show ?thesis using False by simp
  qed
next
  case (18 rt proto ms depth)
  then obtain m where m: "m \<in> set ms" "\<not> encodable_message depth m" by (auto simp: list_all_iff)
  from failing_array [of _ _ "\<lambda>m. encode_message rt m depth", OF m(1) "18.IH" [OF m]]
  show ?case by simp
qed (simp_all add: failing_fail)

lemma payload_writer_fails:
  assumes "\<not> encodable_message 0 m"
  shows "failing (payload_writer rt topic ty n m)"
proof -
  have "failing (andthen (encode_message rt m 0) (push ''}''))"
    using assms by (intro failing_first encode_fails)
  then show ?thesis unfolding payload_writer_def by (simp add: failing_second)
qed

lemma payload_limit:
  assumes "payload rt topic ty n m l = Inr x"
  shows "length x \<le> l"
proof -
  have keeps: "out.keeps (payload_writer rt topic ty n m)"
    unfolding payload_writer_def by (intro keeps_intros encode_keeps)
  have "length (text_of (snd (payload_writer rt topic ty n m (new_output l)))) \<le> l"
    using keeps [unfolded out.keeps_def, rule_format, of "new_output l"] by (simp add: new_output_def)
  with assms show ?thesis by (auto simp: payload_eq)
qed

text \<open>
  A payload is never longer than the caller's limit, and the only failures are the three
  documented messages: no input makes the encoder panic.
\<close>

lemma payload_within_limit:
  "case payload rt topic ty n m l of
     Inl e \<Rightarrow> e \<in> set (encode_errors l)
   | Inr x \<Rightarrow> length x \<le> l"
proof (cases "payload rt topic ty n m l")
  case (Inl e)
  have "reports (payload_writer rt topic ty n m)"
    unfolding payload_writer_def by (intro reports_intros encode_reports)
  moreover have "fst (payload_writer rt topic ty n m (new_output l)) = Inl e"
    using Inl by (cases "fst (payload_writer rt topic ty n m (new_output l))") (simp_all add: payload_eq)
  ultimately have "e \<in> set (encode_errors l)"
    unfolding reports_def by (metis Output.select_convs(2) new_output_def)
  then show ?thesis by (simp add: Inl)
next
  case (Inr x)
  then show ?thesis using payload_limit by simp
qed

lemma payload_Inr_iff:
  assumes "quote_ok rt"
  shows "payload rt topic ty n m l = Inr y \<longleftrightarrow>
    encodable_message 0 m \<and> length (render (quote rt) (envelope topic ty n (tree_message rt m))) \<le> l \<and>
    y = render (quote rt) (envelope topic ty n (tree_message rt m))"
proof (cases "encodable_message 0 m")
  case True
  from out.writes_eq [OF payload_writes [OF assms True, of topic ty n], of "new_output l"]
  show ?thesis using True by (auto simp: payload_eq new_output_def)
next
  case False
  have "isl (fst (payload_writer rt topic ty n m (new_output l)))"
    using payload_writer_fails [OF False] by (simp add: failing_def)
  with False show ?thesis by (auto simp: payload_eq isl_def)
qed

text \<open>
  C7. The bounded encoder refines the unbounded text. It succeeds exactly for a message without long
  doubles and with at most 64 levels of nesting whose JSON text fits the limit, and returns that
  text; when only the length is at fault, the error names the limit.
\<close>

theorem payload_refines_text:
  fixes rt :: runtime and topic ty :: string and n :: u64 and m :: message
  assumes "quote_ok rt"
  defines "x \<equiv> render (quote rt) (envelope topic ty n (tree_message rt m))"
  shows "(payload rt topic ty n m l = Inr y \<longleftrightarrow> encodable_message 0 m \<and> length x \<le> l \<and> y = x) \<and>
    (encodable_message 0 m \<and> l < length x \<longrightarrow> payload rt topic ty n m l = Inl (Err (limit_error l)))"
proof
  show "payload rt topic ty n m l = Inr y \<longleftrightarrow> encodable_message 0 m \<and> length x \<le> l \<and> y = x"
    unfolding x_def by (rule payload_Inr_iff [OF assms(1)])
  show "encodable_message 0 m \<and> l < length x \<longrightarrow> payload rt topic ty n m l = Inl (Err (limit_error l))"
  proof
    assume "encodable_message 0 m \<and> l < length x"
    with out.writes_eq [OF payload_writes [OF assms(1), of m topic ty n], of "new_output l"]
    show "payload rt topic ty n m l = Inl (Err (limit_error l))"
      by (auto simp: payload_eq x_def new_output_def)
  qed
qed

lemma sample_quote_ok: "quote_ok sample_runtime"
proof -
  have "length s \<le> length (concat (map sample_escape s))" for s
    by (induction s) (auto simp: sample_escape_def)
  then have "length s \<le> length (quote sample_runtime s)" for s
    by (simp add: sample_runtime_def le_SucI)
  then show ?thesis
    by (simp add: quote_ok_def sample_runtime_def json_key_def sample_escape_def DQUOTE_def)
qed

theorem payload_refines_text_witness:
  "payload sample_runtime ''/t'' ''T'' 7 sample_message 20 = Inl (Err (limit_error 20)) \<and>
   payload sample_runtime ''/t'' ''T'' 7 sample_message 100 =
     Inr (render (quote sample_runtime) (envelope ''/t'' ''T'' 7 (tree_message sample_runtime sample_message)))"
proof -
  have enc: "encodable_message 0 sample_message"
    by (simp add: sample_message_def)
  have "length (render (quote sample_runtime)
      (envelope ''/t'' ''T'' 7 (tree_message sample_runtime sample_message))) = 81"
    by (simp add: sample_message_def envelope_def sample_runtime_def sample_escape_def DQUOTE_def
        tree_int_def show_int_def show_nat.simps digit_def)
  then show ?thesis
    using payload_refines_text [OF sample_quote_ok, of "''/t''" "''T''" 7 sample_message 20]
      payload_refines_text [OF sample_quote_ok, of "''/t''" "''T''" 7 sample_message 100] enc
    by simp
qed

text \<open>
  Whether it succeeds or fails, encoding a message only appends to the buffer, leaves the limit
  alone and never grows the buffer past it.
\<close>

lemma encode_message_keeps_buffer:
  assumes "length (text_of o') \<le> limit o'"
  shows "limit (snd (encode_message rt m d o')) = limit o' \<and>
    prefix (text_of o') (text_of (snd (encode_message rt m d o'))) \<and>
    length (text_of (snd (encode_message rt m d o'))) \<le> limit o'"
  by (rule encode_keeps(1) [unfolded out.keeps_def, rule_format, OF assms])

end
