(* ===== verification/Decoder.thy ===== *)
theory Decoder
  imports Ros_Message
begin

text \<open>
  \<open>src/publish/json.rs\<close>: filling a runtime message from a JSON object. A function that mutates a
  slot takes the slot and returns the new one; a failed decode drops the message, so an error
  carries none. The array, sequence and bounded-sequence arms follow the three functions of the
  code, with the element type as the constructor of the slot.
\<close>

section \<open>Scalars\<close>

definition err :: "string \<Rightarrow> string \<Rightarrow> string" where
  "err name what = name @ '': '' @ what"

definition integer :: "int_kind \<Rightarrow> json \<Rightarrow> string \<Rightarrow> int res" where
  "integer k v name =
     and_then (ok_or (case as_i64 v of Some n \<Rightarrow> Some n | None \<Rightarrow> as_u64 v)
         (err name ''expected a JSON integer''))
       (\<lambda>n. if int_in_range k n then Inr n
            else Inl (Err (err name (''integer '' @ concat (show_int n) @ '' is out of range''))))"

definition float64 :: "json \<Rightarrow> string \<Rightarrow> f64 res" where
  "float64 v name =
     (if is_null v then Inr f64_NAN
      else ok_or (as_f64 v) (err name ''expected a JSON number or null''))"

definition float32 :: "json \<Rightarrow> string \<Rightarrow> f32 res" where
  "float32 v name = map_res f64_to_f32 (float64 v name)"

definition boolean :: "json \<Rightarrow> string \<Rightarrow> bool res" where
  "boolean v name = ok_or (as_bool v) (err name ''expected a JSON boolean'')"

definition string_item :: "json \<Rightarrow> string \<Rightarrow> string res" where
  "string_item v name = ok_or (as_str v) (err name ''expected a JSON string'')"

text \<open>
  \<open>try_assign\<close> for the two bounded kinds, plain assignment for the others.
\<close>

definition assign_string :: "runtime \<Rightarrow> string_kind \<Rightarrow> json \<Rightarrow> string \<Rightarrow> string res" where
  "assign_string rt k v name =
     and_then (string_item v name)
       (\<lambda>s. if string_ok rt k s then Inr s else Inl (Err (err name ''string exceeds its ROS bound'')))"

definition json_array :: "json \<Rightarrow> string \<Rightarrow> json list res" where
  "json_array v name = ok_or (as_array v) (err name ''expected a JSON array'')"

definition unsupported :: "string \<Rightarrow> string" where
  "unsupported name = err name ''long double fields are unsupported''"

definition check_length :: "nat \<Rightarrow> nat \<Rightarrow> string \<Rightarrow> unit res" where
  "check_length expected actual name =
     (if expected = actual then Inr ()
      else Inl (Err (err name (''expected '' @ show_nat expected @ '' array elements, got '' @
        show_nat actual))))"

text \<open>
  \<open>resize\<close> checks the bound and then asks rclrs to reset the sequence, which refuses what the
  bound refuses; the second message is never seen.
\<close>

definition try_reset :: "nat \<Rightarrow> nat \<Rightarrow> unit option" where
  "try_reset bound n = (if n \<le> bound then Some () else None)"

definition resize :: "nat \<Rightarrow> json list \<Rightarrow> string \<Rightarrow> unit res" where
  "resize bound items name =
     (if bound < length items
      then Inl (Err (err name (show_nat (length items) @ '' sequence elements exceed the ROS bound of '' @
        show_nat bound)))
      else ok_or (try_reset bound (length items))
        (err name (''sequence exceeds the ROS bound of '' @ show_nat bound)))"

text \<open>\<open>fill_*\<close>: the array keeps its length, which the JSON array must have.\<close>

definition fill :: "('e \<Rightarrow> json \<Rightarrow> 'e res) \<Rightarrow> 'e list \<Rightarrow> json list \<Rightarrow> string \<Rightarrow> 'e list res" where
  "fill f slot items name =
     and_then (check_length (length slot) (length items) name) (\<lambda>_. zip_assign f slot items)"

lemma fill_cong [fundef_cong]:
  assumes "s = s'" and "is = is'" and "n = n'" and "\<And>e i. e \<in> set s' \<Longrightarrow> i \<in> set is' \<Longrightarrow> f e i = g e i"
  shows "fill f s is n = fill g s' is' n'"
  unfolding fill_def using assms by (auto intro!: and_then_cong zip_assign_cong)

text \<open>\<open>reset(n)\<close> followed by an assignment of every element.\<close>

definition refill :: "('e \<Rightarrow> json \<Rightarrow> 'e res) \<Rightarrow> 'e \<Rightarrow> json list \<Rightarrow> 'e list res" where
  "refill f d items = zip_assign f (replicate (length items) d) items"

lemma refill_cong [fundef_cong]:
  assumes "d = d'" and "is = is'" and "\<And>i. i \<in> set is' \<Longrightarrow> f d' i = g d' i"
  shows "refill f d is = refill g d' is'"
  unfolding refill_def using assms by (auto intro!: zip_assign_cong)

section \<open>The traversal\<close>

definition get_field :: "message \<Rightarrow> string \<Rightarrow> field_value option" where
  "get_field m name = map_of (msg_fields m) name"

definition set_field :: "string \<Rightarrow> field_value \<Rightarrow> message \<Rightarrow> message" where
  "set_field name v m = Msg (AList.update name v (msg_fields m))"

definition unknown_field :: "message \<Rightarrow> (string \<times> json) list \<Rightarrow> string option" where
  "unknown_field m obj = find (\<lambda>name. get_field m name = None) (map fst obj)"

function message_view :: "runtime \<Rightarrow> message \<Rightarrow> json \<Rightarrow> string \<Rightarrow> message res"
and value_mut :: "runtime \<Rightarrow> field_value \<Rightarrow> json \<Rightarrow> string \<Rightarrow> field_value res"
and simple_mut :: "runtime \<Rightarrow> simple \<Rightarrow> json \<Rightarrow> string \<Rightarrow> simple res"
and array_mut :: "runtime \<Rightarrow> elements \<Rightarrow> json \<Rightarrow> string \<Rightarrow> elements res"
and sequence_mut :: "runtime \<Rightarrow> elements \<Rightarrow> json \<Rightarrow> string \<Rightarrow> elements res"
and bounded_sequence_mut :: "runtime \<Rightarrow> nat \<Rightarrow> elements \<Rightarrow> json \<Rightarrow> string \<Rightarrow> elements res" where
  "message_view rt view v name =
     (case v of
        JObject obj \<Rightarrow>
          (case unknown_field view obj of
             Some field \<Rightarrow> Inl (Err (err name (''unknown message field '' @ debug_str rt field)))
           | None \<Rightarrow> fold_res (\<lambda>(field, item) m.
               (case get_field m field of
                  None \<Rightarrow> Inl (Panic ''field checked above'')
                | Some slot \<Rightarrow> and_then (value_mut rt slot item (name @ ''.'' @ field))
                    (\<lambda>slot'. Inr (set_field field slot' m)))) obj view)
      | _ \<Rightarrow> Inl (Err (err name ''expected a JSON object'')))"
| "value_mut rt slot v name =
     (case slot of
        Simple s \<Rightarrow> map_res Simple (simple_mut rt s v name)
      | Array es \<Rightarrow> map_res Array (array_mut rt es v name)
      | Sequence es \<Rightarrow> map_res Sequence (sequence_mut rt es v name)
      | BoundedSequence b es \<Rightarrow> map_res (BoundedSequence b) (bounded_sequence_mut rt b es v name))"
| "simple_mut rt slot v name =
     (case slot of
        Float _ \<Rightarrow> map_res Float (float32 v name)
      | Double _ \<Rightarrow> map_res Double (float64 v name)
      | LongDouble \<Rightarrow> Inl (Err (unsupported name))
      | Integer k _ \<Rightarrow> map_res (Integer k) (integer k v name)
      | Boolean _ \<Rightarrow> map_res Boolean (boolean v name)
      | Str k _ \<Rightarrow> map_res (Str k) (assign_string rt k v name)
      | Message m \<Rightarrow> map_res Message (message_view rt m v name))"
| "array_mut rt slot v name =
     (case v of
        JArray items \<Rightarrow>
          (case slot of
             Floats xs \<Rightarrow> map_res Floats (fill (\<lambda>_ i. float32 i name) xs items name)
           | Doubles xs \<Rightarrow> map_res Doubles (fill (\<lambda>_ i. float64 i name) xs items name)
           | LongDoubles _ \<Rightarrow> Inl (Err (unsupported name))
           | Integers k xs \<Rightarrow> map_res (Integers k) (fill (\<lambda>_ i. integer k i name) xs items name)
           | Booleans xs \<Rightarrow> map_res Booleans (fill (\<lambda>_ i. boolean i name) xs items name)
           | Strs k xs \<Rightarrow> map_res (Strs k) (fill (\<lambda>_ i. assign_string rt k i name) xs items name)
           | Messages d ms \<Rightarrow> map_res (Messages d) (fill (\<lambda>m i. message_view rt m i name) ms items name))
      | _ \<Rightarrow> map_res (\<lambda>_. slot) (json_array v name))"
| "sequence_mut rt slot v name =
     (case v of
        JArray items \<Rightarrow>
          (case slot of
             Floats xs \<Rightarrow> map_res Floats (traverse (\<lambda>i. float32 i name) items)
           | Doubles xs \<Rightarrow> map_res Doubles (traverse (\<lambda>i. float64 i name) items)
           | LongDoubles _ \<Rightarrow> Inl (Err (unsupported name))
           | Integers k xs \<Rightarrow> map_res (Integers k) (traverse (\<lambda>i. integer k i name) items)
           | Booleans xs \<Rightarrow> map_res Booleans (traverse (\<lambda>i. boolean i name) items)
           | Strs k xs \<Rightarrow> map_res (Strs k)
               (case k of
                  KString \<Rightarrow> traverse (\<lambda>i. string_item i name) items
                | KWString \<Rightarrow> traverse (\<lambda>i. string_item i name) items
                | _ \<Rightarrow> refill (\<lambda>_ i. assign_string rt k i name) [] items)
           | Messages d ms \<Rightarrow> map_res (Messages d) (refill (\<lambda>m i. message_view rt m i name) d items))
      | _ \<Rightarrow> map_res (\<lambda>_. slot) (json_array v name))"
| "bounded_sequence_mut rt b slot v name =
     (case v of
        JArray items \<Rightarrow>
          (case slot of
             LongDoubles _ \<Rightarrow> Inl (Err (unsupported name))
           | Floats xs \<Rightarrow> and_then (resize b items name)
               (\<lambda>_. map_res Floats (refill (\<lambda>_ i. float32 i name) 0 items))
           | Doubles xs \<Rightarrow> and_then (resize b items name)
               (\<lambda>_. map_res Doubles (refill (\<lambda>_ i. float64 i name) 0 items))
           | Integers k xs \<Rightarrow> and_then (resize b items name)
               (\<lambda>_. map_res (Integers k) (refill (\<lambda>_ i. integer k i name) 0 items))
           | Booleans xs \<Rightarrow> and_then (resize b items name)
               (\<lambda>_. map_res Booleans (refill (\<lambda>_ i. boolean i name) False items))
           | Strs k xs \<Rightarrow> and_then (resize b items name)
               (\<lambda>_. map_res (Strs k) (refill (\<lambda>_ i. assign_string rt k i name) [] items))
           | Messages d ms \<Rightarrow> and_then (resize b items name)
               (\<lambda>_. map_res (Messages d) (refill (\<lambda>m i. message_view rt m i name) d items)))
      | _ \<Rightarrow> map_res (\<lambda>_. slot) (json_array v name))"
  by pat_completeness auto
termination
proof (relation "measure (case_sum
    (case_sum (\<lambda>(rt, m, v, name). 4 * size v)
      (case_sum (\<lambda>(rt, s, v, name). 4 * size v + 2) (\<lambda>(rt, s, v, name). 4 * size v + 1)))
    (case_sum (\<lambda>(rt, s, v, name). 4 * size v + 1)
      (case_sum (\<lambda>(rt, s, v, name). 4 * size v + 1) (\<lambda>(rt, b, s, v, name). 4 * size v + 1))))",
    goal_cases)
qed (auto dest: size_array_item size_object_item)

declare message_view.simps [simp del] value_mut.simps [simp del] simple_mut.simps [simp del]
  array_mut.simps [simp del] sequence_mut.simps [simp del] bounded_sequence_mut.simps [simp del]

definition decode :: "runtime \<Rightarrow> message \<Rightarrow> json \<Rightarrow> message res" where
  "decode rt m v =
     and_then (ok_or (as_object v) ''message must be a JSON object'')
       (\<lambda>obj. case unknown_field m obj of
          Some field \<Rightarrow> Inl (Err (''unknown message field '' @ debug_str rt field))
        | None \<Rightarrow> fold_res (\<lambda>(field, item) m.
            (case get_field m field of
               None \<Rightarrow> Inl (Panic ''field checked above'')
             | Some slot \<Rightarrow> and_then (value_mut rt slot item field)
                 (\<lambda>slot'. Inr (set_field field slot' m)))) obj m)"

section \<open>No panic\<close>

lemma scalars_no_panic [simp]:
  "\<not> panics (integer k v name)" "\<not> panics (float64 v name)" "\<not> panics (float32 v name)"
  "\<not> panics (boolean v name)" "\<not> panics (string_item v name)" "\<not> panics (assign_string rt sk v name)"
  "\<not> panics (json_array v name)" "\<not> panics (check_length n n' name)" "\<not> panics (resize b items name)"
  by (simp_all add: integer_def float64_def float32_def boolean_def string_item_def assign_string_def
      json_array_def check_length_def resize_def panics_and_then)

lemma fill_no_panic:
  "(\<And>e i. i \<in> set is \<Longrightarrow> \<not> panics (f e i)) \<Longrightarrow> \<not> panics (fill f es is name)"
  by (simp add: fill_def panics_and_then zip_assign_panics)

lemma refill_no_panic: "(\<And>i. i \<in> set is \<Longrightarrow> \<not> panics (f d i)) \<Longrightarrow> \<not> panics (refill f d is)"
  unfolding refill_def by (intro zip_assign_panics) auto

lemma get_set_field: "get_field (set_field f v m) g = (if g = f then Some v else get_field m g)"
  by (simp add: get_field_def set_field_def update_conv')

lemma unknown_field_None: "unknown_field m obj = None \<longleftrightarrow> (\<forall>f \<in> fst ` set obj. get_field m f \<noteq> None)"
  by (auto simp: unknown_field_def find_None_iff)

text \<open>
  The loop over the entries, shared by the top level and the nested messages; \<open>path\<close> names a field
  in the errors.
\<close>

definition assign_entry ::
  "(field_value \<Rightarrow> json \<Rightarrow> string \<Rightarrow> field_value res) \<Rightarrow> (string \<Rightarrow> string) \<Rightarrow> string \<times> json \<Rightarrow> message \<Rightarrow> message res"
where
  "assign_entry f path = (\<lambda>(field, item) m.
     (case get_field m field of
        None \<Rightarrow> Inl (Panic ''field checked above'')
      | Some slot \<Rightarrow> and_then (f slot item (path field)) (\<lambda>slot'. Inr (set_field field slot' m))))"

lemma assign_entry_simp:
  "assign_entry f path (field, item) m =
     (case get_field m field of
        None \<Rightarrow> Inl (Panic ''field checked above'')
      | Some slot \<Rightarrow> and_then (f slot item (path field)) (\<lambda>slot'. Inr (set_field field slot' m)))"
  by (simp add: assign_entry_def)

lemma message_view_object:
  "message_view rt view (JObject obj) name =
     (case unknown_field view obj of
        Some field \<Rightarrow> Inl (Err (err name (''unknown message field '' @ debug_str rt field)))
      | None \<Rightarrow> fold_res (assign_entry (value_mut rt) (\<lambda>field. name @ ''.'' @ field)) obj view)"
  unfolding assign_entry_def by (subst message_view.simps) simp

lemma decode_object:
  "decode rt m (JObject obj) =
     (case unknown_field m obj of
        Some field \<Rightarrow> Inl (Err (''unknown message field '' @ debug_str rt field))
      | None \<Rightarrow> fold_res (assign_entry (value_mut rt) (\<lambda>field. field)) obj m)"
  unfolding assign_entry_def decode_def by simp

lemma entries_no_panic:
  assumes "unknown_field m obj = None"
    and "\<And>field item slot. (field, item) \<in> set obj \<Longrightarrow> \<not> panics (f slot item (path field))"
  shows "\<not> panics (fold_res (assign_entry f path) obj m)"
proof (rule fold_res_panics [where P = "\<lambda>m. \<forall>f \<in> fst ` set obj. get_field m f \<noteq> None"])
  show "\<forall>f \<in> fst ` set obj. get_field m f \<noteq> None"
    using assms(1) by (simp only: unknown_field_None)
next
  fix x s assume x: "x \<in> set obj" and "\<forall>f \<in> fst ` set obj. get_field s f \<noteq> None"
  then obtain slot where "get_field s (fst x) = Some slot" by auto
  then show "\<not> panics (assign_entry f path x s)"
    using assms(2) [of "fst x" "snd x"] x by (cases x) (simp add: assign_entry_simp panics_and_then)
next
  fix x s s' assume "\<forall>f \<in> fst ` set obj. get_field s f \<noteq> None" and "assign_entry f path x s = Inr s'"
  then show "\<forall>f \<in> fst ` set obj. get_field s' f \<noteq> None"
    by (cases x) (auto simp: assign_entry_simp get_set_field split: option.splits)
qed

lemma mutators_no_panic:
  "\<not> panics (message_view rt m v name)"
  "\<not> panics (value_mut rt slot v name)"
  "\<not> panics (simple_mut rt s v name)"
  "\<not> panics (array_mut rt es v name)"
  "\<not> panics (sequence_mut rt es v name)"
  "\<not> panics (bounded_sequence_mut rt b es v name)"
proof (induction rt m v name and rt slot v name and rt s v name and rt es v name
    and rt es v name and rt b es v name
    rule: message_view_value_mut_simple_mut_array_mut_sequence_mut_bounded_sequence_mut.induct)
  case (1 rt view v name)
  show ?case
  proof (cases v)
    case (JObject obj)
    show ?thesis
    proof (cases "unknown_field view obj")
      case None
      have "\<not> panics (value_mut rt slot item (name @ ''.'' @ field))"
        if "(field, item) \<in> set obj" for field item slot
        by (rule "1.IH" [OF JObject None that refl, of "Msg [(field, slot)]"]) (simp add: get_field_def)
      with None show ?thesis
        by (simp add: JObject message_view_object entries_no_panic)
    qed (simp add: JObject message_view_object)
  qed (simp_all add: message_view.simps)
next
  case (2 rt slot v name)
  then show ?case by (cases slot) (simp_all add: value_mut.simps)
next
  case (3 rt slot v name)
  then show ?case by (cases slot) (simp_all add: simple_mut.simps)
next
  case (4 rt slot v name)
  then show ?case
    by (cases v; cases slot) (simp_all add: array_mut.simps fill_def panics_and_then zip_assign_panics)
next
  case (5 rt slot v name)
  then show ?case
    by (cases v; cases slot)
      (simp_all add: sequence_mut.simps traverse_panics refill_no_panic split: string_kind.splits)
next
  case (6 rt b slot v name)
  then show ?case
    by (cases v; cases slot)
      (auto simp: bounded_sequence_mut.simps panics_and_then intro!: refill_no_panic)
qed

text \<open>
  Decoding never panics: the \<open>expect\<close> on a field that was checked before the loop cannot fail,
  since the loop assigns fields and removes none.
\<close>

lemma decode_never_panics: "\<not> panics (decode rt m v)"
proof (cases v)
  case (JObject obj)
  show ?thesis
    by (simp add: JObject decode_object entries_no_panic mutators_no_panic split: option.splits)
qed (simp_all add: decode_def)

section \<open>Types and well-formedness are kept\<close>

text \<open>
  \<open>keeps_value\<close> and its companions are what an operation owes the slot it fills: a well-formed slot
  becomes a well-formed slot of the same type.
\<close>

definition keeps_message :: "runtime \<Rightarrow> message \<Rightarrow> message \<Rightarrow> bool" where
  "keeps_message rt m m' \<longleftrightarrow>
     (wf_message rt m \<longrightarrow> wf_message rt m' \<and> type_of_message m' = type_of_message m)"

definition keeps_value :: "runtime \<Rightarrow> field_value \<Rightarrow> field_value \<Rightarrow> bool" where
  "keeps_value rt v v' \<longleftrightarrow> (wf_value rt v \<longrightarrow> wf_value rt v' \<and> type_of_value v' = type_of_value v)"

definition keeps_simple :: "runtime \<Rightarrow> simple \<Rightarrow> simple \<Rightarrow> bool" where
  "keeps_simple rt s s' \<longleftrightarrow> (wf_simple rt s \<longrightarrow> wf_simple rt s' \<and> type_of_simple s' = type_of_simple s)"

definition keeps_elements :: "runtime \<Rightarrow> elements \<Rightarrow> elements \<Rightarrow> bool" where
  "keeps_elements rt es es' \<longleftrightarrow>
     (wf_elements rt es \<longrightarrow> wf_elements rt es' \<and> type_of_elements es' = type_of_elements es)"

lemmas keeps_defs = keeps_message_def keeps_value_def keeps_simple_def keeps_elements_def

lemma update_types:
  "map_of fs f = Some v \<Longrightarrow> type_of_value v' = type_of_value v \<Longrightarrow>
    map (\<lambda>(n, v). (n, type_of_value v)) (AList.update f v' fs) = map (\<lambda>(n, v). (n, type_of_value v)) fs"
  by (induction fs) auto

lemma update_all:
  "list_all (\<lambda>(n, v). P v) fs \<Longrightarrow> P v' \<Longrightarrow> list_all (\<lambda>(n, v). P v) (AList.update f v' fs)"
  by (induction fs) auto

lemma set_field_keeps:
  assumes "get_field m f = Some v" and "keeps_value rt v v'"
  shows "keeps_message rt m (set_field f v' m)"
  unfolding keeps_message_def
proof
  assume wf: "wf_message rt m"
  obtain fs where m: "m = Msg fs" by (cases m)
  from assms(1) have v: "map_of fs f = Some v" by (simp add: get_field_def m)
  then have "(f, v) \<in> set fs" by (rule map_of_SomeD)
  with wf have "wf_value rt v" by (auto simp: m list_all_iff)
  with assms(2) have v': "wf_value rt v'" "type_of_value v' = type_of_value v"
    by (simp_all add: keeps_value_def)
  show "wf_message rt (set_field f v' m) \<and> type_of_message (set_field f v' m) = type_of_message m"
    using wf v' by (simp add: m set_field_def update_types [OF v] distinct_update update_all)
qed

lemma keeps_message_trans:
  "keeps_message rt m m' \<Longrightarrow> keeps_message rt m' m'' \<Longrightarrow> keeps_message rt m m''"
  by (simp add: keeps_message_def)

lemma entries_keep:
  assumes "fold_res (assign_entry f path) obj m = Inr m'"
    and "\<And>field item slot slot'. (field, item) \<in> set obj \<Longrightarrow> f slot item (path field) = Inr slot' \<Longrightarrow>
      keeps_value rt slot slot'"
  shows "keeps_message rt m m'"
proof (rule fold_res_invariant [where P = "keeps_message rt m", OF assms(1)])
  show "keeps_message rt m m" by (simp add: keeps_message_def)
next
  fix x s s' assume x: "x \<in> set obj" "keeps_message rt m s" "assign_entry f path x s = Inr s'"
  obtain field item where fi: "x = (field, item)" by (cases x)
  with x(3) obtain slot slot' where "get_field s field = Some slot"
    "f slot item (path field) = Inr slot'" "s' = set_field field slot' s"
    by (auto simp: assign_entry_simp split: option.splits)
  with set_field_keeps [of s field slot rt slot'] assms(2) [of field item slot slot'] x(1) fi
  show "keeps_message rt m s'"
    by (auto intro: keeps_message_trans [OF x(2)])
qed

lemma scalars_keep:
  "integer k v name = Inr n \<Longrightarrow> int_in_range k n"
  "assign_string rt sk v name = Inr s \<Longrightarrow> string_ok rt sk s"
  by (auto simp: integer_def assign_string_def split: if_splits)

lemma resize_Inr [simp]: "resize b items name = Inr u \<longleftrightarrow> length items \<le> b"
  by (auto simp: resize_def try_reset_def)

lemma fill_length: "fill f es is name = Inr es' \<Longrightarrow> length es' = length es"
  by (auto simp: fill_def dest: zip_assign_length)

lemma fill_set:
  assumes "fill f es is name = Inr es'" and "\<And>e. e \<in> set es \<Longrightarrow> P e"
    and "\<And>e i e'. e \<in> set es \<Longrightarrow> i \<in> set is \<Longrightarrow> f e i = Inr e' \<Longrightarrow> P e'"
  shows "list_all P es'"
  using assms(1) by (auto simp: fill_def intro: zip_assign_set [of f es "is"] assms(2,3))

lemma refill_length: "refill f d is = Inr es \<Longrightarrow> length es = length is"
  by (auto simp: refill_def dest: zip_assign_length)

lemma refill_set:
  assumes "refill f d is = Inr es" and "\<And>i e. i \<in> set is \<Longrightarrow> f d i = Inr e \<Longrightarrow> P e"
  shows "list_all P es"
proof -
  have z: "zip_assign f (replicate (length is) d) is = Inr es"
    using assms(1) by (simp add: refill_def)
  then have len: "length es = length is" by (auto dest: zip_assign_length)
  have "\<forall>k < length is. f d (is ! k) = Inr (es ! k)"
    using z by (simp add: zip_assign_Inr_iff)
  with assms(2) len show ?thesis by (metis list_all_length nth_mem)
qed

lemma traverse_set:
  assumes "traverse f is = Inr es" and "\<And>i e. i \<in> set is \<Longrightarrow> f i = Inr e \<Longrightarrow> P e"
  shows "list_all P es"
proof -
  have "length is = length es" and "\<forall>k < length is. f (is ! k) = Inr (es ! k)"
    using assms(1) by (auto simp: traverse_Inr_iff list_all2_conv_all_nth)
  with assms(2) show ?thesis by (metis list_all_length nth_mem)
qed

lemma fill_scalars:
  "fill (\<lambda>_ i. integer k i name) ns is name = Inr ns' \<Longrightarrow> list_all (int_in_range k) ns \<Longrightarrow>
    list_all (int_in_range k) ns'"
  "fill (\<lambda>_ i. assign_string rt sk i name) ss is name = Inr ss' \<Longrightarrow> list_all (string_ok rt sk) ss \<Longrightarrow>
    list_all (string_ok rt sk) ss'"
  by (erule fill_set; auto simp: list_all_iff scalars_keep)+

lemma mutators_keep:
  "message_view rt m v name = Inr m' \<Longrightarrow> keeps_message rt m m'"
  "value_mut rt slot v name = Inr slot' \<Longrightarrow> keeps_value rt slot slot'"
  "simple_mut rt s v name = Inr s' \<Longrightarrow> keeps_simple rt s s'"
  "array_mut rt es v name = Inr es' \<Longrightarrow> keeps_elements rt es es' \<and> length_of es' = length_of es"
  "sequence_mut rt es v name = Inr es' \<Longrightarrow> keeps_elements rt es es'"
  "bounded_sequence_mut rt b es v name = Inr es' \<Longrightarrow> keeps_elements rt es es' \<and> length_of es' \<le> b"
proof (induction rt m v name and rt slot v name and rt s v name and rt es v name
    and rt es v name and rt b es v name
    arbitrary: m' and slot' and s' and es' and es' and es'
    rule: message_view_value_mut_simple_mut_array_mut_sequence_mut_bounded_sequence_mut.induct)
  case (1 rt view v name)
  show ?case
  proof (cases v)
    case (JObject obj)
    with "1.prems" have none: "unknown_field view obj = None"
      and run: "fold_res (assign_entry (value_mut rt) (\<lambda>field. name @ ''.'' @ field)) obj view = Inr m'"
      by (auto simp: message_view_object split: option.splits)
    show ?thesis
    proof (rule entries_keep [OF run])
      fix field item slot slot'
      assume e: "(field, item) \<in> set obj" "value_mut rt slot item (name @ ''.'' @ field) = Inr slot'"
      show "keeps_value rt slot slot'"
        by (rule "1.IH" [OF JObject none e(1) refl, of "Msg [(field, slot)]", OF _ e(2)])
          (simp add: get_field_def)
    qed
  qed (use "1.prems" in \<open>simp_all add: message_view.simps\<close>)
next
  case (2 rt slot v name)
  then show ?case by (cases slot) (auto simp: value_mut.simps keeps_defs)
next
  case (3 rt slot v name)
  then show ?case by (cases slot) (auto simp: simple_mut.simps keeps_defs scalars_keep)
next
  case (4 rt slot v name)
  show ?case
  proof (cases v)
    case (JArray items)
    show ?thesis
    proof (cases slot)
      case (Messages d ms)
      with JArray "4.prems" obtain ms' where ms': "fill (\<lambda>m i. message_view rt m i name) ms items name = Inr ms'"
        and es': "es' = Messages d ms'" by (auto simp: array_mut.simps)
      have "list_all (\<lambda>m. wf_message rt m \<and> type_of_message m = type_of_message d) ms'"
        if "wf_elements rt slot"
        using that "4.IH" [OF JArray Messages]
        by (intro fill_set [OF ms']) (auto simp: Messages keeps_message_def list_all_iff)
      then show ?thesis
        using fill_length [OF ms'] by (auto simp: es' Messages keeps_elements_def)
    qed (use "4.prems" JArray in \<open>auto simp: array_mut.simps keeps_elements_def fill_length
        fill_scalars\<close>)
  qed (use "4.prems" in \<open>simp_all add: array_mut.simps json_array_def\<close>)
next
  case (5 rt slot v name)
  show ?case
  proof (cases v)
    case (JArray items)
    show ?thesis
    proof (cases slot)
      case (Messages d ms)
      with JArray "5.prems" obtain ms' where ms': "refill (\<lambda>m i. message_view rt m i name) d items = Inr ms'"
        and es': "es' = Messages d ms'" by (auto simp: sequence_mut.simps)
      have "list_all (\<lambda>m. wf_message rt m \<and> type_of_message m = type_of_message d) ms'"
        if "wf_elements rt slot"
        using that "5.IH" [OF JArray Messages]
        by (intro refill_set [OF ms']) (auto simp: Messages keeps_message_def)
      then show ?thesis by (auto simp: es' Messages keeps_elements_def)
    next
      case (Strs k xs)
      then show ?thesis
        using "5.prems" JArray
        by (cases k) (auto simp: sequence_mut.simps keeps_elements_def string_ok_def list_all_iff
            dest!: refill_set [where P = "string_ok rt k"] scalars_keep)
    qed (use "5.prems" JArray in \<open>auto simp: sequence_mut.simps keeps_elements_def
        intro!: traverse_set scalars_keep\<close>)
  qed (use "5.prems" in \<open>simp_all add: sequence_mut.simps json_array_def\<close>)
next
  case (6 rt b slot v name)
  show ?case
  proof (cases v)
    case (JArray items)
    show ?thesis
    proof (cases slot)
      case (Messages d ms)
      with JArray "6.prems" obtain ms' where b: "length items \<le> b"
        and ms': "refill (\<lambda>m i. message_view rt m i name) d items = Inr ms'"
        and es': "es' = Messages d ms'" by (auto simp: bounded_sequence_mut.simps)
      have "list_all (\<lambda>m. wf_message rt m \<and> type_of_message m = type_of_message d) ms'"
        if "wf_elements rt slot"
        using that "6.IH" [OF JArray Messages]
        by (intro refill_set [OF ms']) (auto simp: Messages keeps_message_def b)
      then show ?thesis using b refill_length [OF ms'] by (auto simp: es' Messages keeps_elements_def)
    qed (use "6.prems" JArray in \<open>auto simp: bounded_sequence_mut.simps keeps_elements_def
        dest: refill_length intro!: refill_set scalars_keep\<close>)
  qed (use "6.prems" in \<open>simp_all add: bounded_sequence_mut.simps json_array_def\<close>)
qed

text \<open>
  C19. Decoding is type-safe. It never panics: an error is a value. A decoded message has the type of the
  message it was decoded into and is well formed again: integers are in the range of their type, bounded
  strings and bounded sequences are within their bounds, arrays keep their length.
\<close>

theorem decode_preserves_type:
  assumes "wf_message rt m"
  shows "case decode rt m v of
      Inl f \<Rightarrow> \<exists>e. f = Err e
    | Inr m' \<Rightarrow> wf_message rt m' \<and> type_of_message m' = type_of_message m"
proof (cases "decode rt m v")
  case (Inl f)
  with decode_never_panics [of rt m v] show ?thesis by (cases f) (simp_all add: panics_def)
next
  case (Inr m')
  then obtain obj where v: "v = JObject obj"
    by (auto simp: decode_def)
  with Inr have "fold_res (assign_entry (value_mut rt) (\<lambda>field. field)) obj m = Inr m'"
    by (auto simp: decode_object split: option.splits)
  then have "keeps_message rt m m'"
    by (rule entries_keep) (rule mutators_keep)
  with assms Inr show ?thesis by (simp add: keeps_message_def)
qed

section \<open>What decoding computes\<close>

lemma entries_frame:
  assumes "fold_res (assign_entry f path) obj m = Inr m'" and "k \<notin> fst ` set obj"
  shows "get_field m' k = get_field m k"
proof (rule fold_res_invariant [where P = "\<lambda>s. get_field s k = get_field m k", OF assms(1)])
  fix x s s' assume "x \<in> set obj" "get_field s k = get_field m k" "assign_entry f path x s = Inr s'"
  with assms(2) show "get_field s' k = get_field m k"
    by (cases x) (force simp: assign_entry_simp get_set_field split: option.splits if_splits)
qed simp

text \<open>An entry is decoded into the slot the message had before the loop, when no key is repeated.\<close>

lemma entries_run:
  assumes "distinct (map fst obj)"
  shows "(\<exists>m'. fold_res (assign_entry f path) obj m = Inr m') \<longleftrightarrow>
    (\<forall>(k, item) \<in> set obj. \<exists>slot slot'. get_field m k = Some slot \<and> f slot item (path k) = Inr slot')"
  using assms
proof (induction obj arbitrary: m)
  case (Cons e obj)
  obtain k item where e: "e = (k, item)" by (cases e)
  show ?case
  proof (cases "\<exists>slot slot'. get_field m k = Some slot \<and> f slot item (path k) = Inr slot'")
    case True
    then obtain slot slot' where s: "get_field m k = Some slot" "f slot item (path k) = Inr slot'"
      by auto
    have other: "get_field (set_field k slot' m) k' = get_field m k'" if "(k', i) \<in> set obj" for k' i
      using that Cons.prems by (force simp: e get_set_field)
    show ?thesis
      using Cons.IH [of "set_field k slot' m"] Cons.prems s other
      by (auto simp: e assign_entry_simp)
  next
    case False
    then have "\<not> (\<exists>m'. assign_entry f path e m = Inr m')"
      by (auto simp: e assign_entry_simp split: option.splits)
    with False show ?thesis by (auto simp: e)
  qed
qed simp

lemma entries_result:
  assumes "fold_res (assign_entry f path) obj m = Inr m'" and "distinct (map fst obj)"
    and "(k, item) \<in> set obj"
  shows "\<exists>slot slot'. get_field m k = Some slot \<and> f slot item (path k) = Inr slot' \<and>
    get_field m' k = Some slot'"
  using assms
proof (induction obj arbitrary: m)
  case (Cons e obj)
  obtain k0 i0 where e: "e = (k0, i0)" by (cases e)
  with Cons.prems obtain slot slot' where s: "get_field m k0 = Some slot" "f slot i0 (path k0) = Inr slot'"
    and rest: "fold_res (assign_entry f path) obj (set_field k0 slot' m) = Inr m'"
    by (auto simp: assign_entry_simp split: option.splits)
  show ?case
  proof (cases "(k, item) = e")
    case True
    then have "k = k0" "item = i0" by (simp_all add: e)
    moreover from Cons.prems(2) have "k0 \<notin> fst ` set obj" by (simp add: e)
    ultimately show ?thesis using entries_frame [OF rest] s by (simp add: get_set_field)
  next
    case False
    then have k: "(k, item) \<in> set obj" using Cons.prems(3) by simp
    moreover from k Cons.prems(2) have "k \<noteq> k0" by (force simp: e)
    ultimately show ?thesis
      using Cons.IH [OF rest] Cons.prems(2) by (simp add: e get_set_field)
  qed
qed simp

lemma decode_Inr_iff:
  "decode rt m v = Inr m' \<longleftrightarrow>
    (\<exists>obj. v = JObject obj \<and> unknown_field m obj = None \<and>
      fold_res (assign_entry (value_mut rt) (\<lambda>field. field)) obj m = Inr m')"
proof (cases v)
  case (JObject obj)
  then show ?thesis by (auto simp: decode_object split: option.splits)
qed (simp_all add: decode_def)

text \<open>
  C30. Decoding is field by field: each field the object names holds what its JSON value decodes to
  in the slot the message had, and every other field keeps its value.
\<close>

theorem decode_fields:
  assumes "decode rt m (JObject obj) = Inr m'" and "distinct (map fst obj)"
  shows "(map_of obj k = None \<longrightarrow> get_field m' k = get_field m k) \<and>
    (\<forall>item. map_of obj k = Some item \<longrightarrow>
      (\<exists>slot slot'. get_field m k = Some slot \<and> value_mut rt slot item k = Inr slot' \<and>
        get_field m' k = Some slot'))"
proof -
  from assms(1) have run: "fold_res (assign_entry (value_mut rt) (\<lambda>field. field)) obj m = Inr m'"
    by (simp add: decode_Inr_iff)
  from entries_frame [OF run] entries_result [OF run assms(2)] show ?thesis
    by (auto simp: map_of_eq_None_iff dest: map_of_SomeD)
qed

text \<open>
  C8. Which objects are accepted: those whose keys are all fields of the message and whose values
  all decode. An unknown key is an error that names it, whatever the values, and a value that is not
  an object is refused.
\<close>

theorem decode_accepts:
  assumes "distinct (map fst obj)"
  shows "((\<exists>m'. decode rt m (JObject obj) = Inr m') \<longleftrightarrow>
      (\<forall>(k, item) \<in> set obj. \<exists>slot slot'. get_field m k = Some slot \<and> value_mut rt slot item k = Inr slot')) \<and>
    ((\<exists>k \<in> fst ` set obj. get_field m k = None) \<longrightarrow>
      (\<exists>k \<in> fst ` set obj. get_field m k = None \<and>
        decode rt m (JObject obj) = Inl (Err (''unknown message field '' @ debug_str rt k)))) \<and>
    (as_object v = None \<longrightarrow> decode rt m v = Inl (Err ''message must be a JSON object''))"
proof (intro conjI impI)
  show "(\<exists>m'. decode rt m (JObject obj) = Inr m') \<longleftrightarrow>
      (\<forall>(k, item) \<in> set obj. \<exists>slot slot'. get_field m k = Some slot \<and> value_mut rt slot item k = Inr slot')"
    using entries_run [OF assms, of "value_mut rt" "\<lambda>field. field" m]
    by (force simp: decode_Inr_iff unknown_field_None)
next
  assume "\<exists>k \<in> fst ` set obj. get_field m k = None"
  then have "unknown_field m obj \<noteq> None" by (auto simp: unknown_field_None)
  then obtain k where k: "unknown_field m obj = Some k" by auto
  then have "k \<in> fst ` set obj" and "get_field m k = None"
    by (auto simp: unknown_field_def find_Some_iff)
  with k show "\<exists>k \<in> fst ` set obj. get_field m k = None \<and>
      decode rt m (JObject obj) = Inl (Err (''unknown message field '' @ debug_str rt k))"
    by (auto simp: decode_object)
next
  assume "as_object v = None"
  then show "decode rt m v = Inl (Err ''message must be a JSON object'')"
    by (simp add: decode_def ok_or_def)
qed

text \<open>A sample: the fields of \<open>sample_message\<close> decoded from an object that names both.\<close>

definition sample_number :: "int \<Rightarrow> json" where
  "sample_number n = JNumber \<lparr>num_i64 = Some n, num_u64 = None, num_f64 = None\<rparr>"

definition sample_object :: "(string \<times> json) list" where
  "sample_object = [(''n'', JArray [sample_number 5]), (''data'', JString ''yo'')]"

definition sample_result :: message where
  "sample_result = Msg [(''data'', Simple (Str KString ''yo'')), (''n'', Sequence (Integers KInt8 [5]))]"

lemma sample_decode: "decode sample_runtime sample_message (JObject sample_object) = Inr sample_result"
  by (simp add: decode_object sample_object_def sample_message_def sample_result_def unknown_field_def
      get_field_def assign_entry_simp value_mut.simps simple_mut.simps sequence_mut.simps
      assign_string_def string_item_def string_ok_def sample_number_def integer_def int_in_range_def
      set_field_def)

lemma sample_wf: "wf_message sample_runtime sample_message"
  by (simp add: sample_message_def string_ok_def int_in_range_def)

lemma sample_distinct: "distinct (map fst sample_object)"
  by (simp add: sample_object_def)

theorem decode_preserves_type_witness:
  "wf_message sample_runtime sample_result \<and> type_of_message sample_result = type_of_message sample_message"
  using decode_preserves_type [OF sample_wf, of "JObject sample_object"] sample_decode by simp

theorem decode_fields_witness:
  "get_field sample_result ''data'' = Some (Simple (Str KString ''yo''))"
  using decode_fields [OF sample_decode sample_distinct, of "''data''"]
  by (simp add: sample_object_def sample_message_def get_field_def value_mut.simps simple_mut.simps
      assign_string_def string_item_def string_ok_def)

theorem decode_accepts_witness:
  "(\<exists>m'. decode sample_runtime sample_message (JObject sample_object) = Inr m') \<and>
   (\<exists>k \<in> fst ` set sample_object.
     decode sample_runtime (Msg []) (JObject sample_object) =
       Inl (Err (''unknown message field '' @ debug_str sample_runtime k)))"
proof
  show "\<exists>m'. decode sample_runtime sample_message (JObject sample_object) = Inr m'"
    using decode_accepts [OF sample_distinct, of sample_runtime sample_message JNull] sample_decode
    by blast
  show "\<exists>k \<in> fst ` set sample_object.
     decode sample_runtime (Msg []) (JObject sample_object) =
       Inl (Err (''unknown message field '' @ debug_str sample_runtime k))"
  proof -
    have "\<exists>k \<in> fst ` set sample_object. get_field (Msg []) k = None"
      by (auto simp: sample_object_def get_field_def)
    with decode_accepts [OF sample_distinct, of sample_runtime "Msg []" JNull] show ?thesis
      by blast
  qed
qed

end
