(* ===== verification/Codec.thy ===== *)
theory Codec
  imports Encoder Decoder
begin

text \<open>
  The encoder of \<open>src/subscriptions/json.rs\<close> and the decoder of \<open>src/publish/json.rs\<close> as inverses:
  a received message, encoded and published again, is the message that was received. A float that
  is not finite is encoded as \<open>null\<close> and comes back as NaN, so the round trip is stated on what the
  encoder writes, as the test of the repository does.
\<close>

section \<open>Literals that read back\<close>

text \<open>
  \<open>serde_json\<close> reads the digits of an integer as that integer, and the three words as they are. That
  a finite float reads back as the same float is the documented behaviour only with the feature
  \<open>float_roundtrip\<close>, so it is asked of the floats of the message at hand and of no other.
\<close>

definition reads_words :: "(string \<Rightarrow> json) \<Rightarrow> bool" where
  "reads_words lit \<longleftrightarrow> lit ''null'' = JNull \<and> lit ''true'' = JBool True \<and> lit ''false'' = JBool False"

definition reads_int :: "(string \<Rightarrow> json) \<Rightarrow> int \<Rightarrow> bool" where
  "reads_int lit n \<longleftrightarrow>
     (case as_i64 (lit (concat (show_int n))) of Some k \<Rightarrow> k = n
      | None \<Rightarrow> as_u64 (lit (concat (show_int n))) = Some n)"

definition reads_f64 :: "runtime \<Rightarrow> (string \<Rightarrow> json) \<Rightarrow> f64 \<Rightarrow> bool" where
  "reads_f64 rt lit v \<longleftrightarrow> (f64_is_finite v \<longrightarrow> as_f64 (lit (concat (show_f64 rt v))) = Some v)"

definition reads_f32 :: "runtime \<Rightarrow> (string \<Rightarrow> json) \<Rightarrow> f32 \<Rightarrow> bool" where
  "reads_f32 rt lit v \<longleftrightarrow> (f32_is_finite v \<longrightarrow>
     map_option f64_to_f32 (as_f64 (lit (concat (show_f32 rt v)))) = Some v)"

fun reads_message :: "runtime \<Rightarrow> (string \<Rightarrow> json) \<Rightarrow> message \<Rightarrow> bool"
and reads_value :: "runtime \<Rightarrow> (string \<Rightarrow> json) \<Rightarrow> field_value \<Rightarrow> bool"
and reads_simple :: "runtime \<Rightarrow> (string \<Rightarrow> json) \<Rightarrow> simple \<Rightarrow> bool"
and reads_elements :: "runtime \<Rightarrow> (string \<Rightarrow> json) \<Rightarrow> elements \<Rightarrow> bool" where
  "reads_message rt lit (Msg fs) \<longleftrightarrow> list_all (\<lambda>(n, v). reads_value rt lit v) fs"
| "reads_value rt lit (Simple s) \<longleftrightarrow> reads_simple rt lit s"
| "reads_value rt lit (Array es) \<longleftrightarrow> reads_elements rt lit es"
| "reads_value rt lit (Sequence es) \<longleftrightarrow> reads_elements rt lit es"
| "reads_value rt lit (BoundedSequence b es) \<longleftrightarrow> reads_elements rt lit es"
| "reads_simple rt lit (Float v) \<longleftrightarrow> reads_f32 rt lit v"
| "reads_simple rt lit (Double v) \<longleftrightarrow> reads_f64 rt lit v"
| "reads_simple rt lit (Integer k n) \<longleftrightarrow> reads_int lit n"
| "reads_simple rt lit (Message m) \<longleftrightarrow> reads_message rt lit m"
| "reads_simple rt lit _ \<longleftrightarrow> True"
| "reads_elements rt lit (Floats vs) \<longleftrightarrow> list_all (reads_f32 rt lit) vs"
| "reads_elements rt lit (Doubles vs) \<longleftrightarrow> list_all (reads_f64 rt lit) vs"
| "reads_elements rt lit (Integers k ns) \<longleftrightarrow> list_all (reads_int lit) ns"
| "reads_elements rt lit (Messages d ms) \<longleftrightarrow> list_all (reads_message rt lit) ms"
| "reads_elements rt lit _ \<longleftrightarrow> True"

text \<open>The order of a parsed map is some order of its entries.\<close>

definition arranges :: "((string \<times> json) list \<Rightarrow> (string \<times> json) list) \<Rightarrow> bool" where
  "arranges arrange \<longleftrightarrow> (\<forall>es. mset (arrange es) = mset es)"

lemma arranges_set: "arranges arrange \<Longrightarrow> set (arrange es) = set es"
  by (metis arranges_def mset_eq_setD)

lemma arranges_distinct:
  assumes "arranges arrange" and "distinct (map fst es)"
  shows "distinct (map fst (arrange es))"
proof -
  have "mset (map fst (arrange es)) = mset (map fst es)"
    using assms(1) by (simp add: arranges_def)
  then show ?thesis using assms(2) by (metis mset_eq_imp_distinct_iff)
qed

section \<open>The same text\<close>

text \<open>
  Two slots are the same when the encoder writes the same for both and stays within its nesting
  limit on the one where it does on the other.
\<close>

definition same_message :: "runtime \<Rightarrow> message \<Rightarrow> message \<Rightarrow> bool" where
  "same_message rt m' m \<longleftrightarrow> tree_message rt m' = tree_message rt m \<and>
     (\<forall>d. encodable_message d m \<longrightarrow> encodable_message d m')"

definition same_value :: "runtime \<Rightarrow> field_value \<Rightarrow> field_value \<Rightarrow> bool" where
  "same_value rt v' v \<longleftrightarrow> tree_value rt v' = tree_value rt v \<and>
     (\<forall>d. encodable_value d v \<longrightarrow> encodable_value d v')"

definition same_simple :: "runtime \<Rightarrow> simple \<Rightarrow> simple \<Rightarrow> bool" where
  "same_simple rt s' s \<longleftrightarrow> tree_simple rt s' = tree_simple rt s \<and>
     (\<forall>d. encodable_simple d s \<longrightarrow> encodable_simple d s')"

definition same_elements :: "runtime \<Rightarrow> elements \<Rightarrow> elements \<Rightarrow> bool" where
  "same_elements rt es' es \<longleftrightarrow> tree_elements rt es' = tree_elements rt es \<and>
     (\<forall>d. encodable_elements d es \<longrightarrow> encodable_elements d es')"

lemma map_eq_all2: "list_all2 (\<lambda>x y. f x = g y) xs ys \<Longrightarrow> map f xs = map g ys"
  by (induction rule: list_all2_induct) simp_all

lemma same_fields:
  assumes "list_all2 (\<lambda>(n', v') (n, v). n' = n \<and> same_value rt v' v) fs' fs"
  shows "same_message rt (Msg fs') (Msg fs)"
  using assms
proof (induction rule: list_all2_induct)
  case (Cons p' fs' p fs)
  then show ?case by (cases p; cases p') (auto simp: same_message_def same_value_def)
qed (simp add: same_message_def)

lemma same_messages:
  assumes "list_all2 (same_message rt) ms' ms"
  shows "same_elements rt (Messages d' ms') (Messages d ms)"
  using assms
proof (induction rule: list_all2_induct)
  case (Cons m' ms' m ms)
  then show ?case by (auto simp: same_elements_def same_message_def)
qed (simp add: same_elements_def)

section \<open>Lists of elements\<close>

lemma fill_all2:
  assumes "length es = length ys"
    and "\<And>e y. e \<in> set es \<Longrightarrow> y \<in> set ys \<Longrightarrow> \<exists>e'. f e (g y) = Inr e' \<and> P e' y"
  shows "\<exists>es'. fill f es (map g ys) name = Inr es' \<and> list_all2 P es' ys"
proof -
  have "\<exists>es'. zip_assign f es (map g ys) = Inr es' \<and> list_all2 P es' ys"
    using assms
  proof (induction es ys rule: list_induct2)
    case (Cons e es y ys)
    then obtain e' where e': "f e (g y) = Inr e'" "P e' y" by (meson list.set_intros(1))
    from Cons obtain es' where "zip_assign f es (map g ys) = Inr es'" "list_all2 P es' ys"
      by (meson list.set_intros(2))
    with e' show ?case by simp
  qed simp
  with assms(1) show ?thesis by (simp add: fill_def check_length_def)
qed

lemma refill_all2:
  assumes "\<And>y. y \<in> set ys \<Longrightarrow> \<exists>e'. f d (g y) = Inr e' \<and> P e' y"
  shows "\<exists>es'. refill f d (map g ys) = Inr es' \<and> list_all2 P es' ys"
proof -
  have "\<exists>es'. fill f (replicate (length ys) d) (map g ys) [] = Inr es' \<and> list_all2 P es' ys"
    using assms by (intro fill_all2) auto
  then show ?thesis by (simp add: fill_def check_length_def refill_def)
qed

lemma traverse_all2:
  assumes "\<And>y. y \<in> set ys \<Longrightarrow> \<exists>e'. f (g y) = Inr e' \<and> P e' y"
  shows "\<exists>es'. traverse f (map g ys) = Inr es' \<and> list_all2 P es' ys"
  using assms
proof (induction ys)
  case (Cons y ys)
  then obtain e' where "f (g y) = Inr e'" "P e' y" by (meson list.set_intros(1))
  moreover from Cons obtain es' where "traverse f (map g ys) = Inr es'" "list_all2 P es' ys"
    by (meson list.set_intros(2))
  ultimately show ?case by simp
qed simp

section \<open>Scalars\<close>

lemma float32_reads:
  assumes "reads_words lit" and "reads_f32 rt lit v"
  shows "\<exists>w. float32 (value_of lit arrange (tree_f32 rt v)) name = Inr w \<and> tree_f32 rt w = tree_f32 rt v"
proof (cases "f32_is_finite v")
  case True
  with assms(2) obtain w where w: "as_f64 (lit (concat (show_f32 rt v))) = Some w" "f64_to_f32 w = v"
    by (auto simp: reads_f32_def)
  then have "\<not> is_null (lit (concat (show_f32 rt v)))"
    by (cases "lit (concat (show_f32 rt v))") auto
  with True w show ?thesis by (simp add: float32_def float64_def tree_f32_def)
qed (use assms(1) in \<open>simp add: float32_def float64_def tree_f32_def reads_words_def\<close>)

lemma float64_reads:
  assumes "reads_words lit" and "reads_f64 rt lit v"
  shows "\<exists>w. float64 (value_of lit arrange (tree_f64 rt v)) name = Inr w \<and> tree_f64 rt w = tree_f64 rt v"
proof (cases "f64_is_finite v")
  case True
  with assms(2) have w: "as_f64 (lit (concat (show_f64 rt v))) = Some v"
    by (auto simp: reads_f64_def)
  then have "\<not> is_null (lit (concat (show_f64 rt v)))"
    by (cases "lit (concat (show_f64 rt v))") auto
  with True w show ?thesis by (simp add: float64_def tree_f64_def)
qed (use assms(1) in \<open>simp add: float64_def tree_f64_def reads_words_def\<close>)

lemma integer_reads:
  "reads_int lit n \<Longrightarrow> int_in_range k n \<Longrightarrow> integer k (value_of lit arrange (tree_int n)) name = Inr n"
  by (auto simp: integer_def reads_int_def tree_int_def split: option.splits)

lemma boolean_reads:
  "reads_words lit \<Longrightarrow> boolean (value_of lit arrange (Lit (show_bool b))) name = Inr b"
  by (simp add: boolean_def reads_words_def show_bool_def)

lemma string_reads:
  "string_ok rt k s \<Longrightarrow> assign_string rt k (value_of lit arrange (Quoted s)) name = Inr s"
  "string_item (value_of lit arrange (Quoted s)) name = Inr s"
  by (simp_all add: assign_string_def string_item_def)

section \<open>Decoding what was encoded\<close>

lemma same_scalars:
  "tree_f32 rt w = tree_f32 rt v \<Longrightarrow> same_simple rt (Float w) (Float v)"
  "tree_f64 rt x = tree_f64 rt y \<Longrightarrow> same_simple rt (Double x) (Double y)"
  "list_all2 (\<lambda>w v. tree_f32 rt w = tree_f32 rt v) ws vs \<Longrightarrow> same_elements rt (Floats ws) (Floats vs)"
  "list_all2 (\<lambda>w v. tree_f64 rt w = tree_f64 rt v) xs ys \<Longrightarrow> same_elements rt (Doubles xs) (Doubles ys)"
  by (simp_all add: same_simple_def same_elements_def map_eq_all2)

lemma same_refl [simp]: "same_simple rt s s" "same_elements rt es es"
  by (simp_all add: same_simple_def same_elements_def)

text \<open>
  What the three ways of filling a list of elements start from: a slot and encoded elements of one
  type, both well formed, whose message elements, if any, are decoded back.
\<close>

definition elements_ready ::
  "runtime \<Rightarrow> (string \<Rightarrow> json) \<Rightarrow> ((string \<times> json) list \<Rightarrow> (string \<times> json) list) \<Rightarrow> elements \<Rightarrow> elements \<Rightarrow> bool"
where
  "elements_ready rt lit arrange slot es \<longleftrightarrow>
     reads_words lit \<and> reads_elements rt lit es \<and> wf_elements rt es \<and> wf_elements rt slot \<and>
     (\<forall>n. es \<noteq> LongDoubles n) \<and> type_of_elements slot = type_of_elements es \<and>
     (\<forall>proto ms m d name. es = Messages proto ms \<longrightarrow> m \<in> set ms \<longrightarrow> wf_message rt d \<longrightarrow>
        type_of_message d = type_of_message m \<longrightarrow>
        (\<exists>m'. message_view rt d (value_of lit arrange (tree_message rt m)) name = Inr m' \<and> same_message rt m' m))"

definition elements_back ::
  "runtime \<Rightarrow> (json \<Rightarrow> elements res) \<Rightarrow> (string \<Rightarrow> json) \<Rightarrow> ((string \<times> json) list \<Rightarrow> (string \<times> json) list) \<Rightarrow>
    elements \<Rightarrow> bool"
where
  "elements_back rt f lit arrange es \<longleftrightarrow>
     (\<exists>es'. f (value_of lit arrange (tree_elements rt es)) = Inr es' \<and> same_elements rt es' es)"

text \<open>What is known of one element, by the type of the elements.\<close>

lemma element_back:
  assumes "elements_ready rt lit arrange slot es"
  shows "es = Floats vs \<Longrightarrow> v \<in> set vs \<Longrightarrow>
      \<exists>w. float32 (value_of lit arrange (tree_f32 rt v)) name = Inr w \<and> tree_f32 rt w = tree_f32 rt v"
    and "es = Doubles xs \<Longrightarrow> x \<in> set xs \<Longrightarrow>
      \<exists>w. float64 (value_of lit arrange (tree_f64 rt x)) name = Inr w \<and> tree_f64 rt w = tree_f64 rt x"
    and "es = Integers k ns \<Longrightarrow> n \<in> set ns \<Longrightarrow>
      \<exists>j. integer k (value_of lit arrange (tree_int n)) name = Inr j \<and> j = n"
    and "es = Booleans bs \<Longrightarrow> \<exists>c. boolean (value_of lit arrange (Lit (show_bool b))) name = Inr c \<and> c = b"
    and "es = Strs sk ss \<Longrightarrow> s \<in> set ss \<Longrightarrow>
      \<exists>t. assign_string rt sk (value_of lit arrange (Quoted s)) name = Inr t \<and> t = s"
    and "es = Strs sk ss \<Longrightarrow> s \<in> set ss \<Longrightarrow>
      \<exists>t. string_item (value_of lit arrange (Quoted s)) name = Inr t \<and> t = s"
    and "es = Messages proto ms \<Longrightarrow> m \<in> set ms \<Longrightarrow> wf_message rt d \<Longrightarrow>
      type_of_message d = type_of_message m \<Longrightarrow>
      \<exists>m'. message_view rt d (value_of lit arrange (tree_message rt m)) name = Inr m' \<and> same_message rt m' m"
proof -
  note a = assms [unfolded elements_ready_def]
  show "es = Floats vs \<Longrightarrow> v \<in> set vs \<Longrightarrow>
      \<exists>w. float32 (value_of lit arrange (tree_f32 rt v)) name = Inr w \<and> tree_f32 rt w = tree_f32 rt v"
    using a by (intro float32_reads) (auto simp: list_all_iff)
  show "es = Doubles xs \<Longrightarrow> x \<in> set xs \<Longrightarrow>
      \<exists>w. float64 (value_of lit arrange (tree_f64 rt x)) name = Inr w \<and> tree_f64 rt w = tree_f64 rt x"
    using a by (intro float64_reads) (auto simp: list_all_iff)
  show "es = Integers k ns \<Longrightarrow> n \<in> set ns \<Longrightarrow>
      \<exists>j. integer k (value_of lit arrange (tree_int n)) name = Inr j \<and> j = n"
    using a by (auto simp: list_all_iff intro!: integer_reads simp del: value_of.simps)
  show "es = Booleans bs \<Longrightarrow> \<exists>c. boolean (value_of lit arrange (Lit (show_bool b))) name = Inr c \<and> c = b"
    using a boolean_reads by blast
  show "es = Strs sk ss \<Longrightarrow> s \<in> set ss \<Longrightarrow>
      \<exists>t. assign_string rt sk (value_of lit arrange (Quoted s)) name = Inr t \<and> t = s"
    using a by (auto simp: list_all_iff intro!: string_reads simp del: value_of.simps)
  show "es = Strs sk ss \<Longrightarrow> s \<in> set ss \<Longrightarrow>
      \<exists>t. string_item (value_of lit arrange (Quoted s)) name = Inr t \<and> t = s"
    using string_reads by blast
  show "es = Messages proto ms \<Longrightarrow> m \<in> set ms \<Longrightarrow> wf_message rt d \<Longrightarrow>
      type_of_message d = type_of_message m \<Longrightarrow>
      \<exists>m'. message_view rt d (value_of lit arrange (tree_message rt m)) name = Inr m' \<and> same_message rt m' m"
    using a by blast
qed

lemma ready_slot:
  assumes "elements_ready rt lit arrange slot es"
  shows "es = Floats vs \<Longrightarrow> \<exists>vs'. slot = Floats vs'" "es = Doubles xs \<Longrightarrow> \<exists>xs'. slot = Doubles xs'"
    "es = Integers k ns \<Longrightarrow> \<exists>ns'. slot = Integers k ns'" "es = Booleans bs \<Longrightarrow> \<exists>bs'. slot = Booleans bs'"
    "es = Strs sk ss \<Longrightarrow> \<exists>ss'. slot = Strs sk ss'"
    "es = Messages proto ms \<Longrightarrow> \<exists>d ms'. slot = Messages d ms' \<and> wf_message rt d \<and>
      (\<forall>m \<in> set ms. type_of_message m = type_of_message d) \<and>
      (\<forall>m' \<in> set ms'. wf_message rt m' \<and> type_of_message m' = type_of_message d)"
    "es \<noteq> LongDoubles n"
  using assms unfolding elements_ready_def
  by (cases slot; auto simp: list_all_iff)+

lemmas all2_eq = list.rel_eq

lemmas back_defs = elements_back_def array_mut.simps sequence_mut.simps bounded_sequence_mut.simps comp_def

lemma array_back:
  assumes r: "elements_ready rt lit arrange slot es" and len: "length_of slot = length_of es"
  shows "elements_back rt (\<lambda>v. array_mut rt slot v name) lit arrange es"
proof (cases es)
  case (Floats vs)
  with ready_slot [OF r] obtain vs' where slot: "slot = Floats vs'" by auto
  have "\<exists>ws. fill (\<lambda>_ i. float32 i name) vs' (map (\<lambda>v. value_of lit arrange (tree_f32 rt v)) vs) name = Inr ws \<and>
      list_all2 (\<lambda>w v. tree_f32 rt w = tree_f32 rt v) ws vs"
    using len by (intro fill_all2 element_back(1) [OF r Floats]) (auto simp: Floats slot)
  then show ?thesis by (auto simp: Floats slot back_defs intro: same_scalars)
next
  case (Doubles vs)
  with ready_slot [OF r] obtain vs' where slot: "slot = Doubles vs'" by auto
  have "\<exists>ws. fill (\<lambda>_ i. float64 i name) vs' (map (\<lambda>v. value_of lit arrange (tree_f64 rt v)) vs) name = Inr ws \<and>
      list_all2 (\<lambda>w v. tree_f64 rt w = tree_f64 rt v) ws vs"
    using len by (intro fill_all2 element_back(2) [OF r Doubles]) (auto simp: Doubles slot)
  then show ?thesis by (auto simp: Doubles slot back_defs intro: same_scalars)
next
  case (LongDoubles n)
  with ready_slot [OF r] show ?thesis by auto
next
  case (Integers k ns)
  with ready_slot [OF r] obtain ns' where slot: "slot = Integers k ns'" by auto
  have "\<exists>js. fill (\<lambda>_ i. integer k i name) ns' (map (\<lambda>n. value_of lit arrange (tree_int n)) ns) name = Inr js \<and>
      list_all2 (=) js ns"
    using len by (intro fill_all2 element_back(3) [OF r Integers]) (auto simp: Integers slot)
  then show ?thesis by (auto simp: Integers slot back_defs all2_eq)
next
  case (Booleans bs)
  with ready_slot [OF r] obtain bs' where slot: "slot = Booleans bs'" by auto
  have "\<exists>cs. fill (\<lambda>_ i. boolean i name) bs' (map (\<lambda>b. value_of lit arrange (Lit (show_bool b))) bs) name = Inr cs \<and>
      list_all2 (=) cs bs"
    using len by (intro fill_all2 element_back(4) [OF r Booleans]) (auto simp: Booleans slot)
  then show ?thesis by (auto simp: Booleans slot back_defs all2_eq)
next
  case (Strs sk ss)
  with ready_slot [OF r] obtain ss' where slot: "slot = Strs sk ss'" by auto
  have "\<exists>ts. fill (\<lambda>_ i. assign_string rt sk i name) ss' (map (\<lambda>s. value_of lit arrange (Quoted s)) ss) name = Inr ts \<and>
      list_all2 (=) ts ss"
    using len by (intro fill_all2 element_back(5) [OF r Strs]) (auto simp: Strs slot)
  then show ?thesis by (auto simp: Strs slot back_defs all2_eq)
next
  case (Messages proto ms)
  with ready_slot [OF r] obtain d ms' where slot: "slot = Messages d ms'"
    and t: "\<forall>m \<in> set ms. type_of_message m = type_of_message d"
      "\<forall>m' \<in> set ms'. wf_message rt m' \<and> type_of_message m' = type_of_message d" by blast
  have "\<exists>zs. fill (\<lambda>m i. message_view rt m i name) ms' (map (\<lambda>m. value_of lit arrange (tree_message rt m)) ms) name = Inr zs \<and>
      list_all2 (same_message rt) zs ms"
    using len t by (intro fill_all2 element_back(7) [OF r Messages]) (auto simp: Messages slot)
  then show ?thesis by (auto simp: Messages slot back_defs intro: same_messages)
qed

lemma bounded_sequence_back:
  assumes r: "elements_ready rt lit arrange slot es" and len: "length_of es \<le> b"
  shows "elements_back rt (\<lambda>v. bounded_sequence_mut rt b slot v name) lit arrange es"
proof (cases es)
  case (Floats vs)
  with ready_slot [OF r] obtain vs' where slot: "slot = Floats vs'" by auto
  have "\<exists>ws. refill (\<lambda>_ i. float32 i name) 0 (map (\<lambda>v. value_of lit arrange (tree_f32 rt v)) vs) = Inr ws \<and>
      list_all2 (\<lambda>w v. tree_f32 rt w = tree_f32 rt v) ws vs"
    by (intro refill_all2 element_back(1) [OF r Floats]) (auto simp: Floats slot)
  then show ?thesis using len by (auto simp: Floats slot back_defs intro: same_scalars)
next
  case (Doubles vs)
  with ready_slot [OF r] obtain vs' where slot: "slot = Doubles vs'" by auto
  have "\<exists>ws. refill (\<lambda>_ i. float64 i name) 0 (map (\<lambda>v. value_of lit arrange (tree_f64 rt v)) vs) = Inr ws \<and>
      list_all2 (\<lambda>w v. tree_f64 rt w = tree_f64 rt v) ws vs"
    by (intro refill_all2 element_back(2) [OF r Doubles]) (auto simp: Doubles slot)
  then show ?thesis using len by (auto simp: Doubles slot back_defs intro: same_scalars)
next
  case (LongDoubles n)
  with ready_slot [OF r] show ?thesis by auto
next
  case (Integers k ns)
  with ready_slot [OF r] obtain ns' where slot: "slot = Integers k ns'" by auto
  have "\<exists>js. refill (\<lambda>_ i. integer k i name) 0 (map (\<lambda>n. value_of lit arrange (tree_int n)) ns) = Inr js \<and>
      list_all2 (=) js ns"
    by (intro refill_all2 element_back(3) [OF r Integers]) (auto simp: Integers slot)
  then show ?thesis using len by (auto simp: Integers slot back_defs all2_eq)
next
  case (Booleans bs)
  with ready_slot [OF r] obtain bs' where slot: "slot = Booleans bs'" by auto
  have "\<exists>cs. refill (\<lambda>_ i. boolean i name) False (map (\<lambda>b. value_of lit arrange (Lit (show_bool b))) bs) = Inr cs \<and>
      list_all2 (=) cs bs"
    by (intro refill_all2 element_back(4) [OF r Booleans])
  then show ?thesis using len by (auto simp: Booleans slot back_defs all2_eq)
next
  case (Strs sk ss)
  with ready_slot [OF r] obtain ss' where slot: "slot = Strs sk ss'" by auto
  have "\<exists>ts. refill (\<lambda>_ i. assign_string rt sk i name) [] (map (\<lambda>s. value_of lit arrange (Quoted s)) ss) = Inr ts \<and>
      list_all2 (=) ts ss"
    by (intro refill_all2 element_back(5) [OF r Strs]) (auto simp: Strs slot)
  then show ?thesis using len by (auto simp: Strs slot back_defs all2_eq)
next
  case (Messages proto ms)
  with ready_slot [OF r] obtain d ms' where slot: "slot = Messages d ms'"
    and t: "\<forall>m \<in> set ms. type_of_message m = type_of_message d" and wfd: "wf_message rt d" by blast
  have "\<exists>zs. refill (\<lambda>m i. message_view rt m i name) d (map (\<lambda>m. value_of lit arrange (tree_message rt m)) ms) = Inr zs \<and>
      list_all2 (same_message rt) zs ms"
    using t wfd by (intro refill_all2 element_back(7) [OF r Messages]) (auto simp: Messages slot)
  then show ?thesis using len by (auto simp: Messages slot back_defs intro: same_messages)
qed

lemma traverse_refill: "traverse f is = refill (\<lambda>_ i. f i) d is"
  unfolding refill_def by (induction "is") simp_all

lemma sequence_as_bounded:
  "sequence_mut rt slot (JArray items) name = bounded_sequence_mut rt (length items) slot (JArray items) name"
proof (cases slot)
  case (Strs k xs)
  have "string_item i name = assign_string rt k i name" if "k = KString \<or> k = KWString" for i
    using that by (cases "string_item i name") (auto simp: assign_string_def string_ok_def)
  then show ?thesis
    by (cases k) (simp_all add: Strs sequence_mut.simps bounded_sequence_mut.simps resize_def try_reset_def
        traverse_refill [where d = "[]"])
qed (simp_all add: sequence_mut.simps bounded_sequence_mut.simps resize_def try_reset_def
    traverse_refill [where d = 0] traverse_refill [where d = False])

lemma sequence_back:
  assumes "elements_ready rt lit arrange slot es"
  shows "elements_back rt (\<lambda>v. sequence_mut rt slot v name) lit arrange es"
proof -
  have "\<exists>items. value_of lit arrange (tree_elements rt es) = JArray items \<and> length items = length_of es"
    using ready_slot(7) [OF assms] by (cases es) auto
  then show ?thesis
    using bounded_sequence_back [OF assms order_refl, of name]
    by (auto simp: elements_back_def sequence_as_bounded)
qed

text \<open>An object decoded into a message of its type, one field at a time.\<close>

lemma object_back:
  assumes wf: "wf_message rt d" "wf_message rt (Msg fs)" and ty: "type_of_message d = type_of_message (Msg fs)"
    and arr: "arranges arrange"
    and dec: "\<And>n v slot. (n, v) \<in> set fs \<Longrightarrow> wf_value rt slot \<Longrightarrow> type_of_value slot = type_of_value v \<Longrightarrow>
      \<exists>v'. value_mut rt slot (value_of lit arrange (tree_value rt v)) (path n) = Inr v' \<and> same_value rt v' v"
  defines "obj \<equiv> arrange (map (\<lambda>(n, v). (n, value_of lit arrange (tree_value rt v))) fs)"
  shows "unknown_field d obj = None \<and>
    (\<exists>m'. fold_res (assign_entry (value_mut rt) path) obj d = Inr m' \<and> same_message rt m' (Msg fs))"
proof -
  let ?V = "\<lambda>v. value_of lit arrange (tree_value rt v)"
  have set_obj: "set obj = (\<lambda>(n, v). (n, ?V v)) ` set fs"
    unfolding obj_def using arranges_set [OF arr] by simp
  have "distinct (map fst (map (\<lambda>(n, v). (n, ?V v)) fs))"
    using wf(2) by (simp add: comp_def case_prod_unfold)
  then have dist: "distinct (map fst obj)"
    unfolding obj_def by (rule arranges_distinct [OF arr])
  have same_types: "map (\<lambda>(n, v). (n, type_of_value v)) (msg_fields m) = map (\<lambda>(n, v). (n, type_of_value v)) fs"
    if "type_of_message m = type_of_message (Msg fs)" for m
    using that by (cases m) simp
  have slot: "\<exists>slot. get_field m n = Some slot \<and> type_of_value slot = type_of_value v \<and> wf_value rt slot"
    if m: "wf_message rt m" "type_of_message m = type_of_message (Msg fs)" and nv: "(n, v) \<in> set fs" for m n v
  proof -
    obtain gs where gs: "m = Msg gs" by (cases m)
    have "(n, type_of_value v) \<in> set (map (\<lambda>(n, v). (n, type_of_value v)) gs)"
      using same_types [OF m(2)] nv by (force simp: gs)
    then obtain slot where "(n, slot) \<in> set gs" "type_of_value slot = type_of_value v" by auto
    with m(1) show ?thesis by (auto simp: gs get_field_def list_all_iff)
  qed
  have runs: "\<exists>slot slot'. get_field d k = Some slot \<and> value_mut rt slot item (path k) = Inr slot'"
    if "(k, item) \<in> set obj" for k item
  proof -
    from that obtain v where v: "(k, v) \<in> set fs" "item = ?V v" by (auto simp: set_obj)
    with slot [OF wf(1) ty v(1)] dec [OF v(1)] show ?thesis by blast
  qed
  have unknown: "unknown_field d obj = None"
    using runs by (force simp: unknown_field_None)
  from runs entries_run [OF dist, of "value_mut rt" path d]
  obtain m' where m': "fold_res (assign_entry (value_mut rt) path) obj d = Inr m'" by blast
  have "keeps_message rt d m'"
    by (rule entries_keep [OF m']) (rule mutators_keep)
  with wf(1) ty have wfm': "wf_message rt m'" "type_of_message m' = type_of_message (Msg fs)"
    by (simp_all add: keeps_message_def)
  obtain fs' where fs': "m' = Msg fs'" by (cases m')
  have field: "same_value rt v' v" if "(n, v') \<in> set fs'" "(n, v) \<in> set fs" for n v v'
  proof -
    have "(n, ?V v) \<in> set obj" using that(2) by (force simp: set_obj)
    from entries_result [OF m' dist this] obtain s s' where s: "get_field d n = Some s"
      "value_mut rt s (?V v) (path n) = Inr s'" "get_field m' n = Some s'" by blast
    have "s' = v'" using s(3) that(1) wfm'(1) by (simp add: fs' get_field_def)
    moreover from slot [OF wf(1) ty that(2)] s(1) have "wf_value rt s" "type_of_value s = type_of_value v" by auto
    ultimately show ?thesis using dec [OF that(2), of s] s(2) by auto
  qed
  have names: "map fst fs' = map fst fs"
  proof -
    have "map fst (map (\<lambda>(n, v). (n, type_of_value v)) fs') = map fst (map (\<lambda>(n, v). (n, type_of_value v)) fs)"
      using same_types [OF wfm'(2)] by (simp only: fs' msg_fields.simps)
    then show ?thesis by (simp add: comp_def case_prod_unfold)
  qed
  then have len: "length fs' = length fs" by (metis length_map)
  have "list_all2 (\<lambda>(n', v') (n, v). n' = n \<and> same_value rt v' v) fs' fs"
  proof (rule list_all2_all_nthI [OF len])
    fix i assume i: "i < length fs'"
    obtain n v where nv: "fs ! i = (n, v)" by (cases "fs ! i")
    obtain n' v' where nv': "fs' ! i = (n', v')" by (cases "fs' ! i")
    have "n' = n" using names i len nv nv' by (metis fst_conv nth_map)
    moreover have "(n, v) \<in> set fs" using i len nv by (metis nth_mem)
    moreover have "(n', v') \<in> set fs'" using i nv' by (metis nth_mem)
    ultimately show "(\<lambda>(n', v') (n, v). n' = n \<and> same_value rt v' v) (fs' ! i) (fs ! i)"
      using field by (simp add: nv nv')
  qed
  with unknown m' show ?thesis by (simp add: fs' same_fields)
qed

lemma tree_object:
  "value_of lit arrange (tree_message rt (Msg fs)) =
     JObject (arrange (map (\<lambda>(n, v). (n, value_of lit arrange (tree_value rt v))) fs))"
  by (simp add: comp_def case_prod_unfold)

lemmas nested_induct [case_names Msg Simple Array Sequence BoundedSequence Float Double LongDouble
    Integer Boolean Str Message Floats Doubles LongDoubles Integers Booleans Strs Messages] =
  message_field_value_simple_elements.induct [THEN conjunct1]
  message_field_value_simple_elements.induct [THEN conjunct2, THEN conjunct1]
  message_field_value_simple_elements.induct [THEN conjunct2, THEN conjunct2, THEN conjunct1]
  message_field_value_simple_elements.induct [THEN conjunct2, THEN conjunct2, THEN conjunct2]

lemma decode_back:
  "reads_words lit \<Longrightarrow> arranges arrange \<Longrightarrow> reads_message rt lit m \<Longrightarrow> wf_message rt m \<Longrightarrow>
    encodable_message k m \<Longrightarrow> wf_message rt d \<Longrightarrow> type_of_message d = type_of_message m \<Longrightarrow>
    \<exists>m'. message_view rt d (value_of lit arrange (tree_message rt m)) name = Inr m' \<and> same_message rt m' m"
  "reads_words lit \<Longrightarrow> arranges arrange \<Longrightarrow> reads_value rt lit v \<Longrightarrow> wf_value rt v \<Longrightarrow>
    encodable_value k v \<Longrightarrow> wf_value rt dv \<Longrightarrow> type_of_value dv = type_of_value v \<Longrightarrow>
    \<exists>v'. value_mut rt dv (value_of lit arrange (tree_value rt v)) name = Inr v' \<and> same_value rt v' v"
  "reads_words lit \<Longrightarrow> arranges arrange \<Longrightarrow> reads_simple rt lit s \<Longrightarrow> wf_simple rt s \<Longrightarrow>
    encodable_simple k s \<Longrightarrow> wf_simple rt ds \<Longrightarrow> type_of_simple ds = type_of_simple s \<Longrightarrow>
    \<exists>s'. simple_mut rt ds (value_of lit arrange (tree_simple rt s)) name = Inr s' \<and> same_simple rt s' s"
  "reads_words lit \<Longrightarrow> arranges arrange \<Longrightarrow> reads_elements rt lit es \<Longrightarrow> wf_elements rt es \<Longrightarrow>
    encodable_elements k es \<Longrightarrow> wf_elements rt de \<Longrightarrow> type_of_elements de = type_of_elements es \<Longrightarrow>
    elements_ready rt lit arrange de es"
proof (induction m and v and s and es arbitrary: d k name and dv k name and ds k name and de k
    rule: nested_induct)
  case (Msg fs)
  have "\<exists>v'. value_mut rt slot (value_of lit arrange (tree_value rt v)) (name @ ''.'' @ n) = Inr v' \<and> same_value rt v' v"
    if "(n, v) \<in> set fs" "wf_value rt slot" "type_of_value slot = type_of_value v" for n v slot
    using that Msg.prems by (intro Msg.IH [of "(n, v)" v, where k = "Suc k"]) (auto simp: list_all_iff)
  then have "unknown_field d (arrange (map (\<lambda>(n, v). (n, value_of lit arrange (tree_value rt v))) fs)) = None \<and>
    (\<exists>m'. fold_res (assign_entry (value_mut rt) (\<lambda>field. name @ ''.'' @ field))
        (arrange (map (\<lambda>(n, v). (n, value_of lit arrange (tree_value rt v))) fs)) d = Inr m' \<and>
      same_message rt m' (Msg fs))"
    by (intro object_back Msg.prems(2,4,6,7))
  then show ?case unfolding tree_object message_view_object by (elim conjE) simp
next
  case (Simple s)
  from Simple.prems obtain s0 where d: "dv = Simple s0" by (cases dv) auto
  have "\<exists>s'. simple_mut rt s0 (value_of lit arrange (tree_simple rt s)) name = Inr s' \<and> same_simple rt s' s"
    using Simple.prems by (intro Simple.IH [where k = k]) (simp_all add: d)
  then show ?case by (auto simp: d value_mut.simps same_value_def same_simple_def)
next
  case (Array es)
  from Array.prems obtain e0 where d: "dv = Array e0" by (cases dv) auto
  have r: "elements_ready rt lit arrange e0 es"
    using Array.prems by (intro Array.IH [where k = k]) (simp_all add: d)
  from array_back [OF r, of name] show ?case
    using Array.prems
    by (auto simp: d value_mut.simps same_value_def same_elements_def elements_back_def)
next
  case (Sequence es)
  from Sequence.prems obtain e0 where d: "dv = Sequence e0" by (cases dv) auto
  have r: "elements_ready rt lit arrange e0 es"
    using Sequence.prems by (intro Sequence.IH [where k = k]) (simp_all add: d)
  from sequence_back [OF r, of name] show ?case
    by (auto simp: d value_mut.simps same_value_def same_elements_def elements_back_def)
next
  case (BoundedSequence b es)
  from BoundedSequence.prems obtain e0 where d: "dv = BoundedSequence b e0" by (cases dv) auto
  have r: "elements_ready rt lit arrange e0 es"
    using BoundedSequence.prems by (intro BoundedSequence.IH [where k = k]) (simp_all add: d)
  from bounded_sequence_back [OF r, of b name] show ?case
    using BoundedSequence.prems
    by (auto simp: d value_mut.simps same_value_def same_elements_def elements_back_def)
next
  case (Float v)
  then obtain v0 where "ds = Float v0" by (cases ds) auto
  with Float.prems float32_reads [of lit rt v arrange name] show ?case
    by (auto simp: simple_mut.simps intro: same_scalars)
next
  case (Double v)
  then obtain v0 where "ds = Double v0" by (cases ds) auto
  with Double.prems float64_reads [of lit rt v arrange name] show ?case
    by (auto simp: simple_mut.simps intro: same_scalars)
next
  case (Integer ik n)
  then obtain v0 where "ds = Integer ik v0" by (cases ds) auto
  with Integer.prems integer_reads [of lit n ik arrange name] show ?case by (auto simp: simple_mut.simps)
next
  case (Boolean b)
  then obtain v0 where "ds = Boolean v0" by (cases ds) auto
  with Boolean.prems boolean_reads [of lit arrange b name] show ?case by (auto simp: simple_mut.simps)
next
  case (Str sk x)
  then obtain v0 where "ds = Str sk v0" by (cases ds) auto
  with Str.prems string_reads(1) [of rt sk x lit arrange name] show ?case by (auto simp: simple_mut.simps)
next
  case (Message m)
  from Message.prems obtain m0 where d: "ds = Message m0" by (cases ds) auto
  have "\<exists>m'. message_view rt m0 (value_of lit arrange (tree_message rt m)) name = Inr m' \<and> same_message rt m' m"
    using Message.prems by (intro Message.IH [where k = k]) (simp_all add: d)
  then show ?case by (auto simp: d simple_mut.simps same_simple_def same_message_def)
next
  case (Messages proto ms)
  show ?case
    unfolding elements_ready_def
  proof (intro conjI allI impI)
    fix proto' ms' m d' name
    assume "Messages proto ms = Messages proto' ms'" and m: "m \<in> set ms'" and "wf_message rt d'"
      and "type_of_message d' = type_of_message m"
    with Messages.prems show "\<exists>m'. message_view rt d' (value_of lit arrange (tree_message rt m)) name = Inr m' \<and>
        same_message rt m' m"
      by (intro Messages.IH(2) [where k = k]) (auto simp: list_all_iff)
  qed (use Messages.prems in simp_all)
qed (simp_all add: elements_ready_def)

lemma decode_tree:
  assumes "reads_words lit" and "arranges arrange" and "reads_message rt lit m" and "wf_message rt m"
    and "encodable_message k m" and "wf_message rt d" and "type_of_message d = type_of_message m"
  shows "\<exists>m'. decode rt d (value_of lit arrange (tree_message rt m)) = Inr m' \<and> same_message rt m' m"
proof -
  obtain fs where m: "m = Msg fs" by (cases m)
  have "\<exists>v'. value_mut rt slot (value_of lit arrange (tree_value rt v)) n = Inr v' \<and> same_value rt v' v"
    if "(n, v) \<in> set fs" "wf_value rt slot" "type_of_value slot = type_of_value v" for n v slot
    using that assms by (intro decode_back(2) [where k = "Suc k"]) (auto simp: m list_all_iff)
  then have "unknown_field d (arrange (map (\<lambda>(n, v). (n, value_of lit arrange (tree_value rt v))) fs)) = None \<and>
    (\<exists>m'. fold_res (assign_entry (value_mut rt) (\<lambda>field. field))
        (arrange (map (\<lambda>(n, v). (n, value_of lit arrange (tree_value rt v))) fs)) d = Inr m' \<and>
      same_message rt m' (Msg fs))"
    using assms(4,7) by (intro object_back assms(2,6)) (simp_all only: m)
  then show ?thesis unfolding m tree_object decode_object by (elim conjE) simp
qed

lemma get_arranged:
  assumes "arranges arrange" and "distinct (map fst es)" and "(k, v) \<in> set es"
  shows "get (JObject (arrange es)) k = Some v"
  using arranges_distinct [OF assms(1,2)] arranges_set [OF assms(1)] assms(3)
  by (simp add: get_def)

text \<open>
  C1. The round trip the tests of the repository try on five message types, for every message: the
  payload of a message, parsed, decodes into any message of its type, and the decoded message has
  the same payload. \<open>from_str\<close> stands for \<open>serde_json::from_str\<close>.
\<close>

theorem payload_round_trip:
  fixes rt :: runtime and lit :: "string \<Rightarrow> json" and from_str :: "string \<Rightarrow> json option"
  assumes "quote_ok rt" and "reads_words lit" and "arranges arrange" and "reads_message rt lit m"
    and "wf_message rt m" and "wf_message rt d" and "type_of_message d = type_of_message m"
    and "payload rt topic ty n m l = Inr x"
    and "from_str x = Some (value_of lit arrange (envelope topic ty n (tree_message rt m)))"
  shows "\<exists>v m'. Option.bind (from_str x) (\<lambda>p. get p ''message'') = Some v \<and>
    decode rt d v = Inr m' \<and> payload rt topic ty n m' l = Inr x"
proof -
  from assms(8) have enc: "encodable_message 0 m"
    and x: "length (render (quote rt) (envelope topic ty n (tree_message rt m))) \<le> l"
      "x = render (quote rt) (envelope topic ty n (tree_message rt m))"
    by (simp_all only: payload_Inr_iff [OF assms(1)])
  from decode_tree [OF assms(2-5) enc assms(6,7)] obtain m'
    where m': "decode rt d (value_of lit arrange (tree_message rt m)) = Inr m'" "same_message rt m' m" by blast
  have "get (value_of lit arrange (envelope topic ty n (tree_message rt m))) ''message'' =
      Some (value_of lit arrange (tree_message rt m))"
    unfolding envelope_def value_of.simps by (rule get_arranged [OF assms(3)]) simp_all
  moreover have "payload rt topic ty n m' l = Inr x"
    using m'(2) enc x by (simp add: payload_Inr_iff [OF assms(1)] same_message_def)
  ultimately show ?thesis using m'(1) assms(9) by simp
qed

definition sample_lit :: "string \<Rightarrow> json" where
  "sample_lit s =
     (if s = ''true'' then JBool True else if s = ''false'' then JBool False
      else if s = ''1'' then sample_number 1 else if s = ''-2'' then sample_number (- 2)
      else JNull)"

theorem payload_round_trip_witness:
  "\<exists>x v m'. payload sample_runtime ''/t'' ''T'' 7 sample_message 100 = Inr x \<and>
     get (value_of sample_lit rev (envelope ''/t'' ''T'' 7 (tree_message sample_runtime sample_message))) ''message'' = Some v \<and>
     decode sample_runtime sample_result v = Inr m' \<and>
     payload sample_runtime ''/t'' ''T'' 7 m' 100 = Inr x"
proof -
  let ?t = "envelope ''/t'' ''T'' 7 (tree_message sample_runtime sample_message)"
  have "length (render (quote sample_runtime) ?t) = 81"
    by (simp add: sample_message_def envelope_def sample_runtime_def sample_escape_def DQUOTE_def
        tree_int_def show_int_def show_nat.simps digit_def)
  then have x: "payload sample_runtime ''/t'' ''T'' 7 sample_message 100 = Inr (render (quote sample_runtime) ?t)"
    unfolding payload_Inr_iff [OF sample_quote_ok] by (simp add: sample_message_def)
  have words: "reads_words sample_lit" by (simp add: reads_words_def sample_lit_def)
  have order: "arranges rev" by (simp add: arranges_def)
  have reads: "reads_message sample_runtime sample_lit sample_message"
    by (simp add: sample_message_def reads_int_def sample_lit_def show_int_def show_nat.simps digit_def
        sample_number_def)
  have wf: "wf_message sample_runtime sample_result"
    "type_of_message sample_result = type_of_message sample_message"
    by (simp_all add: sample_result_def sample_message_def string_ok_def int_in_range_def)
  from payload_round_trip [OF sample_quote_ok words order reads sample_wf wf x,
      of "\<lambda>_. Some (value_of sample_lit rev ?t)"] x
  show ?thesis by simp
qed

end
