(* ===== verification/Naming.thy ===== *)
theory Naming
  imports Prelude
begin

text \<open>
  \<open>src/naming.rs\<close>: which topic names subscriptions and publishing accept, with the grammar of
  fully qualified ROS names as the specification, and the notification-channel check of
  \<open>src/subscriptions.rs\<close>.
\<close>

section \<open>The validator\<close>

definition is_ascii_alphabetic :: "char \<Rightarrow> bool" where
  "is_ascii_alphabetic c \<longleftrightarrow>
     CHR ''A'' \<le> c \<and> c \<le> CHR ''Z'' \<or> CHR ''a'' \<le> c \<and> c \<le> CHR ''z''"

definition is_ascii_digit :: "char \<Rightarrow> bool" where
  "is_ascii_digit c \<longleftrightarrow> CHR ''0'' \<le> c \<and> c \<le> CHR ''9''"

definition is_ascii_alphanumeric :: "char \<Rightarrow> bool" where
  "is_ascii_alphanumeric c \<longleftrightarrow> is_ascii_alphabetic c \<or> is_ascii_digit c"

fun strip_prefix :: "char \<Rightarrow> string \<Rightarrow> string option" where
  "strip_prefix c [] = None"
| "strip_prefix c (x # xs) = (if x = c then Some xs else None)"

fun split_on :: "char \<Rightarrow> string \<Rightarrow> string list" where
  "split_on c [] = [[]]"
| "split_on c (x # xs) =
     (if x = c then [] # split_on c xs
      else (case split_on c xs of [] \<Rightarrow> [[x]] | part # parts \<Rightarrow> (x # part) # parts))"

definition bad_segment :: "string \<Rightarrow> bool" where
  "bad_segment part \<longleftrightarrow>
     \<not> (case part of [] \<Rightarrow> False | byte # _ \<Rightarrow> is_ascii_alphabetic byte \<or> byte = CHR ''_'')
     \<or> \<not> list_all (\<lambda>byte. is_ascii_alphanumeric byte \<or> byte = CHR ''_'') (drop 1 part)"

definition err_not_qualified :: string where
  "err_not_qualified = ''topic must be a fully qualified ROS name starting with '' @
     [CHR 0x27, CHR ''/'', CHR 0x27]"

definition err_bad_segment :: string where
  "err_bad_segment = ''topic must contain nonempty ROS name segments (letters, digits, underscores; no leading digits)''"

definition validate_topic :: "string \<Rightarrow> unit res" where
  "validate_topic name =
     (case strip_prefix (CHR ''/'') name of
        None \<Rightarrow> Inl (Err err_not_qualified)
      | Some relative \<Rightarrow>
          if list_ex bad_segment (split_on (CHR ''/'') relative)
          then Inl (Err err_bad_segment) else Inr ())"

text \<open>The subscription path first applies PostgreSQL's channel limit (\<open>NAMEDATALEN\<close> is 64).\<close>

definition NAMEDATALEN :: nat where
  "NAMEDATALEN = 64"

definition err_channel :: string where
  "err_channel = ''topic exceeds PostgreSQL'' @ [CHR 0x27] @ ''s 63-byte notification channel limit''"

definition validate_channel :: "string \<Rightarrow> unit res" where
  "validate_channel topic =
     (if NAMEDATALEN \<le> length topic then Inl (Err err_channel) else validate_topic topic)"

section \<open>The grammar of fully qualified names\<close>

inductive segment_tail :: "string \<Rightarrow> bool" where
  tail_nil: "segment_tail []"
| tail_cons: "is_ascii_alphanumeric c \<or> c = CHR ''_'' \<Longrightarrow> segment_tail s \<Longrightarrow> segment_tail (c # s)"

inductive ros_name :: "string \<Rightarrow> bool" where
  one_segment: "is_ascii_alphabetic c \<or> c = CHR ''_'' \<Longrightarrow> segment_tail s \<Longrightarrow>
     ros_name (CHR ''/'' # c # s)"
| more_segments: "is_ascii_alphabetic c \<or> c = CHR ''_'' \<Longrightarrow> segment_tail s \<Longrightarrow> ros_name rest \<Longrightarrow>
     ros_name (CHR ''/'' # c # s @ rest)"

inductive_simps segment_tail_simps [simp]: "segment_tail []" "segment_tail (c # s)"

lemma segment_tail_list_all:
  "segment_tail s \<longleftrightarrow> list_all (\<lambda>c. is_ascii_alphanumeric c \<or> c = CHR ''_'') s"
  by (induction s) auto

lemma slash_not_name [simp]: "\<not> is_ascii_alphanumeric (CHR ''/'')" "\<not> is_ascii_alphabetic (CHR ''/'')"
  by (simp_all add: is_ascii_alphanumeric_def is_ascii_alphabetic_def is_ascii_digit_def)

lemma split_on_nonempty [simp]: "split_on c s \<noteq> []"
  by (cases s) (auto split: list.splits)

lemma split_on_append:
  "c \<notin> set s \<Longrightarrow> split_on c (s @ c # rest) = s # split_on c rest"
  by (induction s) auto

lemma split_on_plain: "c \<notin> set s \<Longrightarrow> split_on c s = [s]"
  by (induction s) auto

lemma segment_tail_no_slash: "segment_tail s \<Longrightarrow> CHR ''/'' \<notin> set s"
  by (induction rule: segment_tail.induct) auto

definition join_segments :: "string list \<Rightarrow> string" where
  "join_segments parts = concat (map (\<lambda>part. CHR ''/'' # part) parts)"

text \<open>Splitting is undone by joining, so the validator sees every byte of the name.\<close>

lemma join_split: "join_segments (split_on (CHR ''/'') s) = CHR ''/'' # s"
  by (induction s) (auto simp: join_segments_def split: list.splits)

lemma good_segments_ros_name:
  "parts \<noteq> [] \<Longrightarrow> \<not> list_ex bad_segment parts \<Longrightarrow> ros_name (join_segments parts)"
proof (induction parts)
  case (Cons part parts)
  then obtain c s where part: "part = c # s" and c: "is_ascii_alphabetic c \<or> c = CHR ''_''"
    and s: "segment_tail s"
    by (auto simp: bad_segment_def segment_tail_list_all split: list.splits)
  show ?case
  proof (cases "parts = []")
    case True
    then show ?thesis using part c s by (simp add: join_segments_def one_segment)
  next
    case False
    then have "ros_name (join_segments parts)" using Cons by simp
    from more_segments [OF c s this] show ?thesis using part by (simp add: join_segments_def)
  qed
qed simp

lemma good_segment: "is_ascii_alphabetic c \<or> c = CHR ''_'' \<Longrightarrow> segment_tail s \<Longrightarrow> \<not> bad_segment (c # s)"
  by (auto simp: bad_segment_def segment_tail_list_all)

lemma ros_name_good_segments:
  "ros_name n \<Longrightarrow> \<exists>r. n = CHR ''/'' # r \<and> \<not> list_ex bad_segment (split_on (CHR ''/'') r)"
proof (induction rule: ros_name.induct)
  case (one_segment c s)
  then have "CHR ''/'' \<notin> set (c # s)"
    using segment_tail_no_slash by auto
  then have "split_on (CHR ''/'') (c # s) = [c # s]"
    by (rule split_on_plain)
  moreover have "\<not> bad_segment (c # s)"
    using one_segment by (rule good_segment)
  ultimately show ?case by simp
next
  case (more_segments c s rest)
  then obtain r where rest: "rest = CHR ''/'' # r"
    and r: "\<not> list_ex bad_segment (split_on (CHR ''/'') r)" by blast
  have "CHR ''/'' \<notin> set (c # s)"
    using more_segments.hyps segment_tail_no_slash by auto
  then have "split_on (CHR ''/'') ((c # s) @ CHR ''/'' # r) = (c # s) # split_on (CHR ''/'') r"
    by (rule split_on_append)
  moreover have "\<not> bad_segment (c # s)"
    using more_segments.hyps(1,2) by (rule good_segment)
  ultimately show ?case using rest r by simp
qed

lemma validate_topic_Inr_iff [simp]: "validate_topic n = Inr () \<longleftrightarrow> ros_name n"
proof
  assume "validate_topic n = Inr ()"
  then obtain r where n: "n = CHR ''/'' # r" and r: "\<not> list_ex bad_segment (split_on (CHR ''/'') r)"
    by (cases n) (auto simp: validate_topic_def split: if_splits)
  then show "ros_name n"
    using good_segments_ros_name [of "split_on (CHR ''/'') r"] by (simp add: join_split)
next
  assume "ros_name n"
  then show "validate_topic n = Inr ()"
    by (auto simp: validate_topic_def dest!: ros_name_good_segments)
qed

text \<open>
  C21. \<open>validate_topic\<close> decides the grammar of fully qualified ROS names: a name of the grammar is
  accepted; a name without the leading slash gets the first message, any other name the second.
\<close>

theorem validate_topic_decides:
  "validate_topic n =
     (if ros_name n then Inr ()
      else if strip_prefix (CHR ''/'') n = None then Inl (Err err_not_qualified)
      else Inl (Err err_bad_segment))"
proof (cases "ros_name n")
  case True
  then show ?thesis by simp
next
  case False
  then have "validate_topic n \<noteq> Inr ()" by simp
  with False show ?thesis
    by (auto simp: validate_topic_def split: option.splits if_splits)
qed

section \<open>Topics as notification channels\<close>

lemma name_byte_ascii: "is_ascii_alphanumeric c \<Longrightarrow> of_char c < (128 :: nat)"
  by (auto simp: is_ascii_alphanumeric_def is_ascii_alphabetic_def is_ascii_digit_def less_eq_char_def)

lemma segment_tail_ascii: "segment_tail s \<Longrightarrow> list_all (\<lambda>c. of_char c < (128 :: nat)) s"
  by (induction rule: segment_tail.induct) (auto dest: name_byte_ascii)

lemma name_head_ascii: "is_ascii_alphabetic c \<or> c = CHR ''_'' \<Longrightarrow> of_char c < (128 :: nat)"
  using name_byte_ascii [of c] by (auto simp: is_ascii_alphanumeric_def)

lemma ros_name_ascii: "ros_name n \<Longrightarrow> list_all (\<lambda>c. of_char c < (128 :: nat)) n"
  by (induction rule: ros_name.induct) (auto simp: name_head_ascii segment_tail_ascii)

text \<open>
  PostgreSQL keeps at most \<open>NAMEDATALEN - 1\<close> bytes of an identifier, such as the channel of
  \<open>LISTEN\<close>, and silently drops the rest.
\<close>

definition truncate_identifier :: "string \<Rightarrow> string" where
  "truncate_identifier s = take (NAMEDATALEN - 1) s"

text \<open>
  The subscription path accepts exactly the fully qualified names of at most 63 bytes, so an
  accepted topic is its own PostgreSQL channel name: nothing is truncated, and every byte is ASCII.
\<close>

lemma validate_channel_safe:
  assumes "validate_channel t = Inr ()"
  shows "ros_name t \<and> truncate_identifier t = t \<and> list_all (\<lambda>c. of_char c < (128 :: nat)) t"
proof -
  from assms have len: "length t < NAMEDATALEN" and name: "ros_name t"
    by (auto simp: validate_channel_def split: if_splits)
  from len have "truncate_identifier t = t"
    by (simp add: truncate_identifier_def NAMEDATALEN_def)
  with name show ?thesis by (simp add: ros_name_ascii)
qed

end
