(* ===== verification/Database.thy ===== *)
theory Database
  imports Json
begin

text \<open>
  The tables the extension creates (\<open>extension_sql!\<close> in \<open>src/lib.rs\<close>) and the statements the worker
  runs on them. A table is the list of its rows, in the order a scan returns them; a table with a
  primary key on the topic is an association list. A transaction is a function of the database, and
  a panic in it aborts it. The functions of \<open>src/lib.rs\<close> that look the extension up come with them.
\<close>

type_synonym oid = nat

text \<open>A \<open>timestamptz\<close> is its number of microseconds.\<close>

type_synonym timestamp = int

text \<open>
  What a transaction meets: \<open>statement_timestamp()\<close> and \<open>pg_backend_pid()\<close>, the error PostgreSQL raises in
  it, if any (a lock or statement timeout, a full disk), and the error with which \<open>jsonb_in\<close> refuses a
  value, as it does when a string holds the character U+0000. An accepted value is stored as the JSON value
  it is; that \<open>jsonb\<close> sorts the keys of an object and writes numbers as \<open>numeric\<close> is left out.
\<close>

record stmt_env =
  statement_timestamp :: timestamp
  backend_pid :: int
  sql_error :: "string option"
  jsonb_error :: "json \<Rightarrow> string option"

text \<open>
  \<open>BackgroundWorker::transaction\<close>: an error raised anywhere in the transaction is a panic, and the
  transaction leaves nothing behind. \<open>pgrx::JsonB\<close> raises the error of \<open>jsonb_in\<close>.
\<close>

definition transaction :: "stmt_env \<Rightarrow> 'a res \<Rightarrow> 'a res" where
  "transaction env r = (case sql_error env of Some e \<Rightarrow> Inl (Panic e) | None \<Rightarrow> r)"

definition jsonb :: "stmt_env \<Rightarrow> json \<Rightarrow> json res" where
  "jsonb env v = (case jsonb_error env v of Some e \<Rightarrow> Inl (Panic e) | None \<Rightarrow> Inr v)"

text \<open>A panic that PostgreSQL raised.\<close>

definition raised :: "stmt_env \<Rightarrow> fault \<Rightarrow> bool" where
  "raised env f \<longleftrightarrow> (\<exists>e. f = Panic e \<and> (sql_error env = Some e \<or> (\<exists>v. jsonb_error env v = Some e)))"

text \<open>The documented refusal: no string and no key of a \<open>jsonb\<close> value holds U+0000.\<close>

fun holds_nul :: "json \<Rightarrow> bool" where
  "holds_nul (JString s) \<longleftrightarrow> CHR 0x00 \<in> set s"
| "holds_nul (JArray vs) \<longleftrightarrow> list_ex holds_nul vs"
| "holds_nul (JObject es) \<longleftrightarrow> list_ex (\<lambda>(k, v). CHR 0x00 \<in> set k \<or> holds_nul v) es"
| "holds_nul v \<longleftrightarrow> False"

definition refuses_nul :: "stmt_env \<Rightarrow> bool" where
  "refuses_nul env \<longleftrightarrow> (\<forall>v. holds_nul v \<longrightarrow> jsonb_error env v \<noteq> None)"

lemma transaction_Inr_iff [simp]: "transaction env r = Inr a \<longleftrightarrow> sql_error env = None \<and> r = Inr a"
  by (auto simp: transaction_def split: option.split)

lemma transaction_Inl_iff:
  "transaction env r = Inl f \<longleftrightarrow> (\<exists>e. sql_error env = Some e \<and> f = Panic e) \<or> sql_error env = None \<and> r = Inl f"
  by (auto simp: transaction_def split: option.split)

lemma transaction_commits: "sql_error env = None \<Longrightarrow> transaction env r = r"
  by (simp add: transaction_def)

lemma jsonb_Inr_iff [simp]: "jsonb env v = Inr x \<longleftrightarrow> jsonb_error env v = None \<and> x = v"
  by (auto simp: jsonb_def split: option.split)

lemma jsonb_Inl_iff [simp]: "jsonb env v = Inl f \<longleftrightarrow> (\<exists>e. jsonb_error env v = Some e \<and> f = Panic e)"
  by (auto simp: jsonb_def split: option.split)

section \<open>Rows\<close>

record status =
  st_worker_pid :: int
  st_last_checked :: timestamp
  st_last_refreshed :: "timestamp option"
  st_last_error :: "string option"

record parameter_row =
  row_node :: string
  row_namespace :: string
  row_parameter :: string
  row_kind :: string
  row_value :: json
  row_refreshed_at :: timestamp

record subscription =
  requested_type :: "string option"
  subscribed_type :: "string option"
  registered_at :: timestamp
  keepalive_at :: timestamp
  last_message_at :: "timestamp option"
  subscription_error :: "string option"

record cached_message =
  cached_sequence :: "64 word"
  received_at :: timestamp
  cached_body :: json

record database =
  extension :: "(oid \<times> string) option"
  nodes_table :: "(string \<times> string \<times> timestamp) list"
  topics_table :: "(string \<times> string \<times> timestamp) list"
  worker_status :: "status option"
  parameters_table :: "parameter_row list"
  parameter_status :: "status option"
  subscriptions_table :: "(string \<times> subscription) list"
  messages_table :: "(string \<times> cached_message) list"

text \<open>Installing the extension creates empty tables; dropping it removes them.\<close>

definition create_extension :: "oid \<Rightarrow> string \<Rightarrow> database" where
  "create_extension i schema =
     \<lparr>extension = Some (i, schema), nodes_table = [], topics_table = [], worker_status = None,
      parameters_table = [], parameter_status = None, subscriptions_table = [], messages_table = []\<rparr>"

definition no_extension :: database where
  "no_extension =
     \<lparr>extension = None, nodes_table = [], topics_table = [], worker_status = None,
      parameters_table = [], parameter_status = None, subscriptions_table = [], messages_table = []\<rparr>"

section \<open>The extension lookup\<close>

text \<open>
  \<open>EXTENSION_LOOKUP\<close> always yields one row; both columns are null when the extension is absent.
\<close>

definition lookup_row :: "database \<Rightarrow> oid option \<times> string option" where
  "lookup_row db =
     (case extension db of None \<Rightarrow> (None, None) | Some (i, schema) \<Rightarrow> (Some i, Some schema))"

definition installed_extension :: "database \<Rightarrow> (oid \<times> string) option" where
  "installed_extension db =
     (case lookup_row db of (Some i, Some schema) \<Rightarrow> Some (i, schema) | _ \<Rightarrow> None)"

lemma installed_extension_eq [simp]: "installed_extension db = extension db"
  by (auto simp: installed_extension_def lookup_row_def split: option.splits)

section \<open>Statements\<close>

text \<open>
  The upsert of \<open>worker_status\<close> and \<open>parameter_status\<close>: \<open>CASE WHEN $1\<close> keeps the old refresh time
  of an existing row when the snapshot did not change.
\<close>

definition upsert_status :: "stmt_env \<Rightarrow> bool \<Rightarrow> string option \<Rightarrow> status option \<Rightarrow> status option" where
  "upsert_status env changed error s =
     (let excluded = \<lparr>st_worker_pid = backend_pid env, st_last_checked = statement_timestamp env,
            st_last_refreshed = (if changed then Some (statement_timestamp env) else None),
            st_last_error = error\<rparr>
      in Some (case s of
           None \<Rightarrow> excluded
         | Some old \<Rightarrow> excluded\<lparr>st_last_refreshed :=
             (if changed then st_last_refreshed excluded else st_last_refreshed old)\<rparr>))"

text \<open>\<open>UPDATE t SET .. WHERE topic_name = $1\<close> and \<open>DELETE FROM t WHERE topic_name = $1\<close>.\<close>

definition update_where :: "string \<Rightarrow> ('r \<Rightarrow> 'r) \<Rightarrow> (string \<times> 'r) list \<Rightarrow> (string \<times> 'r) list" where
  "update_where topic f t = map (\<lambda>(k, r). (k, if k = topic then f r else r)) t"

definition delete_where :: "string \<Rightarrow> (string \<times> 'r) list \<Rightarrow> (string \<times> 'r) list" where
  "delete_where topic t = filter (\<lambda>(k, r). k \<noteq> topic) t"

text \<open>\<open>INSERT .. ON CONFLICT (topic_name) DO UPDATE\<close> of a whole row.\<close>

definition upsert :: "string \<Rightarrow> 'r \<Rightarrow> (string \<times> 'r) list \<Rightarrow> (string \<times> 'r) list" where
  "upsert topic r t = AList.update topic r t"

text \<open>\<open>INSERT\<close> into a table with a primary key raises an error on a duplicate.\<close>

definition insert_key :: "('r \<Rightarrow> 'k) \<Rightarrow> 'r \<Rightarrow> 'r list \<Rightarrow> 'r list res" where
  "insert_key key r t =
     (if key r \<in> key ` set t then Inl (Panic ''duplicate key value violates unique constraint'')
      else Inr (t @ [r]))"

section \<open>The contract of a keyed table\<close>

text \<open>
  What the worker relies on in the two tables keyed by topic: the primary key holds, a topic reads
  back what was written for it, and a statement about one topic leaves the others alone. \<open>find_row\<close>
  reads a row.
\<close>

locale keyed_table =
  fixes find_row :: "'t \<Rightarrow> 'k \<Rightarrow> 'r option" and put :: "'k \<Rightarrow> 'r \<Rightarrow> 't \<Rightarrow> 't"
    and change :: "'k \<Rightarrow> ('r \<Rightarrow> 'r) \<Rightarrow> 't \<Rightarrow> 't" and remove :: "'k \<Rightarrow> 't \<Rightarrow> 't" and keyed :: "'t \<Rightarrow> bool"
  assumes find_put: "find_row (put k r t) j = (if j = k then Some r else find_row t j)"
    and find_change: "find_row (change k f t) j = (if j = k then map_option f (find_row t j) else find_row t j)"
    and find_remove: "find_row (remove k t) j = (if j = k then None else find_row t j)"
    and keyed_put: "keyed t \<Longrightarrow> keyed (put k r t)"
    and keyed_change: "keyed t \<Longrightarrow> keyed (change k f t)"
    and keyed_remove: "keyed t \<Longrightarrow> keyed (remove k t)"
begin

definition remove_all :: "'k list \<Rightarrow> 't \<Rightarrow> 't" where
  "remove_all ks t = fold remove ks t"

lemma find_remove_all: "find_row (remove_all ks t) j = (if j \<in> set ks then None else find_row t j)"
  by (induction ks arbitrary: t) (auto simp: remove_all_def find_remove)

lemma keyed_remove_all: "keyed t \<Longrightarrow> keyed (remove_all ks t)"
  by (induction ks arbitrary: t) (simp_all add: remove_all_def keyed_remove)

lemma change_put: "find_row (change k f (put k r t)) k = Some (f r)"
  by (simp add: find_change find_put)

definition put_all :: "('k \<times> 'r) list \<Rightarrow> 't \<Rightarrow> 't" where
  "put_all rs t = fold (\<lambda>(k, r). put k r) rs t"

lemma find_put_all_other: "j \<notin> fst ` set rs \<Longrightarrow> find_row (put_all rs t) j = find_row t j"
  by (induction rs arbitrary: t) (auto simp: put_all_def find_put)

lemma find_put_all: "distinct (map fst rs) \<Longrightarrow> (j, r) \<in> set rs \<Longrightarrow> find_row (put_all rs t) j = Some r"
proof (induction rs arbitrary: t)
  case (Cons p rs)
  obtain k r' where p: "p = (k, r')" by (cases p)
  show ?case
  proof (cases "(j, r) = p")
    case True
    then have "j \<notin> fst ` set rs" using Cons.prems(1) p by auto
    then show ?thesis using True find_put_all_other [of j rs] by (simp add: put_all_def p find_put)
  next
    case False
    then show ?thesis using Cons by (auto simp: put_all_def p)
  qed
qed simp

end

lemma map_of_update_where:
  "map_of (update_where k f t) j = (if j = k then map_option f (map_of t j) else map_of t j)"
  by (induction t) (auto simp: update_where_def)

lemma map_of_delete_where: "map_of (delete_where k t) j = (if j = k then None else map_of t j)"
  by (induction t) (auto simp: delete_where_def)

lemma update_where_keys [simp]: "map fst (update_where k f t) = map fst t"
  by (induction t) (auto simp: update_where_def)

lemma delete_where_keys: "map fst (delete_where k t) = filter (\<lambda>j. j \<noteq> k) (map fst t)"
  by (induction t) (auto simp: delete_where_def)

interpretation topic_table: keyed_table map_of upsert update_where delete_where "\<lambda>t. distinct (map fst t)"
  by unfold_locales
    (simp_all add: upsert_def update_conv' map_of_update_where map_of_delete_where distinct_update
      delete_where_keys)

end
