(* ===== verification/Diagnostics.thy ===== *)
theory Diagnostics
  imports Prelude
begin

text \<open>
  \<open>describe\<close> of \<open>src/lib.rs\<close>: an error rendered together with the chain of its causes. An error is
  what \<open>std::error::Error\<close> shows of it: its \<open>Display\<close> text and its \<open>source\<close>.
\<close>

datatype error = Error (to_string: string) (source: "error option")

text \<open>The loop \<open>while let Some(cause) = source\<close>.\<close>

fun push_causes :: "string \<Rightarrow> error option \<Rightarrow> string" where
  "push_causes message None = message"
| "push_causes message (Some (Error text next)) = push_causes (message @ '': '' @ text) next"

definition describe :: "error \<Rightarrow> string" where
  "describe e = push_causes (to_string e) (source e)"

text \<open>The specification: the texts of the error and of all its causes, outermost first.\<close>

fun cause_chain :: "error \<Rightarrow> string list" where
  "cause_chain (Error text next) = text # (case next of None \<Rightarrow> [] | Some e \<Rightarrow> cause_chain e)"

lemma push_causes_eq:
  "push_causes message next =
     message @ concat (map (\<lambda>y. '': '' @ y) (case next of None \<Rightarrow> [] | Some e \<Rightarrow> cause_chain e))"
  by (induction message "next" rule: push_causes.induct) (auto split: option.splits)

text \<open>
  \<open>describe\<close> loses no cause: the message is the texts of the whole chain, in order, joined by a
  colon and a space.
\<close>

lemma describe_joins_chain: "describe e = joined '': '' (cause_chain e)"
  by (cases e) (simp add: describe_def push_causes_eq joined_Cons split: option.splits)

end
