(* ===== verification/Graph.thy ===== *)
theory Graph
  imports Database Diagnostics
begin

text \<open>
  The ROS graph in the database: \<open>GraphSnapshot::read\<close> and \<open>persist_snapshot\<close> of \<open>src/lib.rs\<close>. The
  answers of the two graph queries are arguments. The contract of a snapshot store, a locale, is what
  the worker relies on to skip the writing of an unchanged snapshot; it is interpreted here for the
  graph and in the theory of the parameters for theirs.
\<close>

section \<open>Reading the graph\<close>

record node_info =
  info_name :: string
  info_namespace :: string

record snapshot =
  snapshot_nodes :: "(string \<times> string) list"
  snapshot_topics :: "(string \<times> string) list"

text \<open>
  The first failing query ends the read. A map of topics comes in the order of its iteration.
\<close>

definition read_graph ::
  "string \<Rightarrow> string \<Rightarrow> error + node_info list \<Rightarrow> error + (string \<times> string list) list \<Rightarrow> error + snapshot"
where
  "read_graph observer_name observer_namespace node_names topic_types =
     (case node_names of Inl e \<Rightarrow> Inl e
      | Inr infos \<Rightarrow>
          (let nodes = map (\<lambda>info. (info_name info, info_namespace info))
                 (filter (\<lambda>info. info_name info \<noteq> observer_name \<or> info_namespace info \<noteq> observer_namespace) infos)
           in case topic_types of Inl e \<Rightarrow> Inl e
              | Inr ts \<Rightarrow>
                  (let topics = concat (map (\<lambda>(name, types). map (\<lambda>kind. (name, kind)) types) ts)
                   in Inr \<lparr>snapshot_nodes = sort nodes, snapshot_topics = sort topics\<rparr>)))"

lemma read_graph_Inr:
  "read_graph on ons (Inr infos) (Inr ts) = Inr
     \<lparr>snapshot_nodes = sort (map (\<lambda>info. (info_name info, info_namespace info))
        (filter (\<lambda>info. info_name info \<noteq> on \<or> info_namespace info \<noteq> ons) infos)),
      snapshot_topics = sort (concat (map (\<lambda>(name, types). map (\<lambda>kind. (name, kind)) types) ts))\<rparr>"
  by (simp add: read_graph_def Let_def)

lemma mset_concat_perm: "mset ts = mset ts' \<Longrightarrow> mset (concat (map f ts)) = mset (concat (map f ts'))"
proof -
  have "mset (concat (map f ts)) = \<Sum>\<^sub># (image_mset (\<lambda>t. mset (f t)) (mset ts))" for ts
    by (induction ts) simp_all
  then show "mset ts = mset ts' \<Longrightarrow> ?thesis" by simp
qed

text \<open>
  A snapshot does not depend on the order in which the middleware lists nodes and topics, so an
  unchanged graph compares equal to the last one and is not written again.
\<close>

lemma snapshot_canonical:
  assumes "mset infos = mset infos'" and "mset ts = mset ts'"
  shows "read_graph on ons (Inr infos) (Inr ts) = read_graph on ons (Inr infos') (Inr ts')"
proof -
  have "mset (map (\<lambda>i. (info_name i, info_namespace i)) (filter P infos)) =
      mset (map (\<lambda>i. (info_name i, info_namespace i)) (filter P infos'))" for P
    using assms(1) by simp
  from sort_determined [OF this]
  show ?thesis unfolding read_graph_Inr
    by (simp only: sort_determined [OF mset_concat_perm [OF assms(2)],
        of "\<lambda>(name, types). map (\<lambda>kind. (name, kind)) types"])
qed

text \<open>
  What a snapshot holds: every node but the observer itself, duplicates included, and one row for
  each pair of a topic and one of its types, both sorted.
\<close>

lemma snapshot_contents:
  "\<exists>s. read_graph on ons (Inr infos) (Inr ts) = Inr s \<and>
    mset (snapshot_nodes s) = mset (filter (\<lambda>p. p \<noteq> (on, ons)) (map (\<lambda>i. (info_name i, info_namespace i)) infos)) \<and>
    set (snapshot_topics s) = {(t, k). \<exists>types \<in> set (map snd (filter (\<lambda>p. fst p = t) ts)). k \<in> set types} \<and>
    sorted (snapshot_nodes s) \<and> sorted (snapshot_topics s)"
proof -
  have nodes: "filter (\<lambda>p. p \<noteq> (on, ons)) (map (\<lambda>i. (info_name i, info_namespace i)) infos) =
      map (\<lambda>i. (info_name i, info_namespace i))
        (filter (\<lambda>i. info_name i \<noteq> on \<or> info_namespace i \<noteq> ons) infos)"
    by (simp add: filter_map comp_def)
  have topics: "set (concat (map (\<lambda>(name, types). map (\<lambda>kind. (name, kind)) types) ts)) =
      {(t, k). \<exists>types \<in> set (map snd (filter (\<lambda>p. fst p = t) ts)). k \<in> set types}"
    by force
  show ?thesis unfolding read_graph_Inr nodes
    by (intro exI conjI, rule refl) (simp_all only: snapshot.simps mset_sort set_sort sorted_sort topics)
qed

section \<open>Writing a snapshot\<close>

definition persist_snapshot ::
  "stmt_env \<Rightarrow> string + snapshot \<Rightarrow> snapshot option \<Rightarrow> oid option \<Rightarrow> database \<Rightarrow> oid option \<times> database"
where
  "persist_snapshot env snapshot previous previous_extension db =
     (case installed_extension db of
        None \<Rightarrow> (None, db)
      | Some (i, schema) \<Rightarrow>
          (let changed = (case snapshot of Inl e \<Rightarrow> False
                 | Inr v \<Rightarrow> previous \<noteq> Some v \<or> previous_extension \<noteq> Some i);
               db1 = (case snapshot of Inl e \<Rightarrow> db
                 | Inr v \<Rightarrow>
                     if changed
                     then db\<lparr>nodes_table := map (\<lambda>(n, ns). (n, ns, statement_timestamp env)) (snapshot_nodes v),
                             topics_table := map (\<lambda>(n, ty). (n, ty, statement_timestamp env)) (snapshot_topics v)\<rparr>
                     else db)
           in (Some i, db1\<lparr>worker_status := upsert_status env changed
                 (case snapshot of Inl e \<Rightarrow> Some e | Inr v \<Rightarrow> None) (worker_status db1)\<rparr>)))"

section \<open>The contract of a snapshot store\<close>

text \<open>
  \<open>persist\<close> gets the result of a poll, the snapshot and the extension of the previous one, and the
  database; it returns the installed extension. \<open>rows\<close> are the stored rows without their time of
  refresh, \<open>image\<close> the rows of a snapshot, \<open>valid\<close> the snapshots a poll can produce, \<open>jsons\<close> the JSON
  values in a snapshot, which PostgreSQL can refuse.
\<close>

locale snapshot_store =
  fixes persist :: "stmt_env \<Rightarrow> string + 's \<Rightarrow> 's option \<Rightarrow> oid option \<Rightarrow> database \<Rightarrow> (oid option \<times> database) res"
    and rows :: "database \<Rightarrow> 'r list" and image :: "'s \<Rightarrow> 'r list" and valid :: "'s \<Rightarrow> bool"
    and jsons :: "'s \<Rightarrow> json set" and status_of :: "database \<Rightarrow> status option"
  assumes absent: "extension db = None \<Longrightarrow> persist env r p o' db = Inr (None, db)"
    and saved: "extension db = Some (i, schema) \<Longrightarrow> persist env r p o' db = Inr (x, db') \<Longrightarrow>
      x = Some i \<and> extension db' = extension db \<and>
        rows db' = (case r of Inl e \<Rightarrow> rows db
          | Inr s \<Rightarrow> if p \<noteq> Some s \<or> o' \<noteq> Some i then image s else rows db) \<and>
        status_of db' = upsert_status env
          (case r of Inl e \<Rightarrow> False | Inr s \<Rightarrow> p \<noteq> Some s \<or> o' \<noteq> Some i)
          (case r of Inl e \<Rightarrow> Some e | Inr s \<Rightarrow> None) (status_of db)"
    and refused: "persist env r p o' db = Inl f \<Longrightarrow> (\<And>s. r = Inr s \<Longrightarrow> valid s) \<Longrightarrow>
      \<exists>s v e. r = Inr s \<and> (p \<noteq> Some s \<or> o' \<noteq> map_option fst (extension db)) \<and> v \<in> jsons s \<and>
        jsonb_error env v = Some e \<and> f = Panic e"
    and fresh: "rows (create_extension i schema) = []"
begin

text \<open>
  The table tracks what the caller remembers: when it remembers a snapshot and the extension is
  installed, then it remembers that extension and the table holds the snapshot, or else, where a
  reinstallation is allowed for (\<open>lax\<close>), the table is still empty as it was created.
\<close>

definition tracks :: "bool \<Rightarrow> 's option \<Rightarrow> oid option \<Rightarrow> database \<Rightarrow> bool" where
  "tracks lax previous ext db \<longleftrightarrow>
     (\<forall>s i schema. previous = Some s \<longrightarrow> extension db = Some (i, schema) \<longrightarrow>
        lax \<and> rows db = [] \<or> ext = Some i \<and> rows db = image s)"

lemma tracks_forgotten: "tracks lax None ext db"
  by (simp add: tracks_def)

lemma tracks_absent: "extension db = None \<Longrightarrow> tracks lax previous ext db"
  by (simp add: tracks_def)

lemma tracks_installed: "tracks True previous ext (create_extension i schema)"
  by (simp add: tracks_def fresh)

lemma tracks_cong: "rows db' = rows db \<Longrightarrow> extension db' = extension db \<Longrightarrow>
    tracks lax previous ext db' \<longleftrightarrow> tracks lax previous ext db"
  by (simp add: tracks_def)

text \<open>Saving the result of a poll keeps track, and a success is what the caller then remembers.\<close>

lemma persist_extension:
  assumes "persist env r previous ext db = Inr (ext', db')"
  shows "extension db' = extension db \<and> ext' = map_option fst (extension db)"
proof (cases "extension db")
  case None
  then show ?thesis using assms by (simp add: absent)
next
  case (Some x)
  obtain i schema where "x = (i, schema)" by (cases x)
  with Some saved [of db i schema, OF _ assms] show ?thesis by simp
qed

lemma tracks_persist:
  assumes "tracks lax previous ext db" and "persist env r previous ext db = Inr (ext', db')"
  shows "tracks lax (case r of Inl e \<Rightarrow> previous | Inr s \<Rightarrow> Some s) ext' db'"
proof (cases "extension db")
  case None
  then show ?thesis using assms(2) by (simp add: absent tracks_def)
next
  case (Some x)
  obtain i schema where "x = (i, schema)" by (cases x)
  with Some have db: "extension db = Some (i, schema)" by simp
  from saved [OF db assms(2)] assms(1) db show ?thesis by (auto simp: tracks_def split: sum.splits)
qed

lemma accepted:
  assumes "\<And>s. r = Inr s \<Longrightarrow> valid s" and "\<And>s v. r = Inr s \<Longrightarrow> v \<in> jsons s \<Longrightarrow> jsonb_error env v = None"
  shows "\<not> panics (persist env r previous ext db)"
proof (cases "persist env r previous ext db")
  case (Inl f)
  from refused [OF this assms(1)] assms(2) show ?thesis by force
qed simp

end

definition graph_rows :: "database \<Rightarrow> (string \<times> string + string \<times> string) list" where
  "graph_rows db =
     map (\<lambda>(n, ns, t). Inl (n, ns)) (nodes_table db) @ map (\<lambda>(n, ty, t). Inr (n, ty)) (topics_table db)"

definition graph_image :: "snapshot \<Rightarrow> (string \<times> string + string \<times> string) list" where
  "graph_image s = map Inl (snapshot_nodes s) @ map Inr (snapshot_topics s)"

lemma graph_rows_update [simp]:
  "graph_rows ((db :: database)\<lparr>nodes_table := map (\<lambda>(n, ns). (n, ns, t)) (snapshot_nodes v),
     topics_table := map (\<lambda>(n, ty). (n, ty, t)) (snapshot_topics v)\<rparr>) = graph_image v"
  by (simp add: graph_rows_def graph_image_def comp_def case_prod_unfold)

lemma graph_rows_status [simp]: "graph_rows (worker_status_update f (db :: database)) = graph_rows db"
  by (simp add: graph_rows_def)

interpretation graph_store: snapshot_store
  "\<lambda>env r p o' db. Inr (persist_snapshot env r p o' db)" graph_rows graph_image "\<lambda>s. True" "\<lambda>s. {}" worker_status
  by unfold_locales
    (auto simp: persist_snapshot_def Let_def graph_rows_def create_extension_def graph_image_def comp_def case_prod_unfold
      split: sum.splits if_splits)

end
