(* ===== verification/Settings.thy ===== *)
theory Settings
  imports Floats
begin

text \<open>
  The configuration of \<open>src/lib.rs\<close>: the settings \<open>_PG_init\<close> registers, the accessors that clamp
  and cast them, and the growth of the interval between rebuilds of the ROS context. A duration is
  its number of nanoseconds; \<open>Duration\<close> multiplication panics past \<open>u64::MAX\<close> seconds.
\<close>

type_synonym duration = nat

definition from_secs :: "u64 \<Rightarrow> duration" where
  "from_secs s = unat s * 10 ^ 9"

definition from_millis :: "u64 \<Rightarrow> duration" where
  "from_millis ms = unat ms * 10 ^ 6"

definition duration_mul :: "duration \<Rightarrow> nat \<Rightarrow> duration res" where
  "duration_mul d k =
     (if d * k < 2 ^ 64 * 10 ^ 9 then Inr (d * k)
      else Inl (Panic ''overflow when multiplying duration by scalar''))"

section \<open>Registration\<close>

datatype guc_context = Postmaster | Sighup

datatype registration =
    StringGuc string string guc_context
  | IntGuc string int int int guc_context
  | Worker string string nat

text \<open>
  \<open>_PG_init\<close>: nothing is registered unless the postmaster is preloading libraries. An \<open>IntGuc\<close>
  holds the name, the boot value, the least and the greatest value; a \<open>Worker\<close> its name, its
  entry point and the seconds before a restart. Descriptions, flags and the access to SPI are left out.
\<close>

definition PG_init :: "bool \<Rightarrow> registration list" where
  "PG_init preloading =
     (if \<not> preloading then []
      else [StringGuc ''pg_ros2.database'' ''postgres'' Postmaster,
            IntGuc ''pg_ros2.ros_reinit_after'' 30 0 86400 Sighup,
            IntGuc ''pg_ros2.message_poll_ms'' 10 1 1000 Sighup,
            IntGuc ''pg_ros2.subscription_poll_ms'' 250 50 60000 Sighup,
            IntGuc ''pg_ros2.message_max_bytes'' 1048576 1024 134217728 Sighup,
            IntGuc ''pg_ros2.subscription_ttl'' 0 0 86400 Sighup,
            Worker ''pg_ros2 graph worker'' ''graph_worker_main'' 5])"

fun guc_range :: "string \<Rightarrow> registration list \<Rightarrow> (int \<times> int) option" where
  "guc_range name [] = None"
| "guc_range name (IntGuc n v lo hi c # rs) = (if n = name then Some (lo, hi) else guc_range name rs)"
| "guc_range name (r # rs) = guc_range name rs"

section \<open>Settings and their accessors\<close>

record settings =
  DATABASE :: "string option"
  ROS_REINIT_AFTER :: i32
  MESSAGE_POLL_MS :: i32
  SUBSCRIPTION_POLL_MS :: i32
  MESSAGE_MAX_BYTES :: i32
  SUBSCRIPTION_TTL :: i32

definition default_settings :: settings where
  "default_settings =
     \<lparr>DATABASE = Some ''postgres'', ROS_REINIT_AFTER = 30, MESSAGE_POLL_MS = 10, SUBSCRIPTION_POLL_MS = 250,
      MESSAGE_MAX_BYTES = 1048576, SUBSCRIPTION_TTL = 0\<rparr>"

text \<open>
  \<open>CStr::to_str\<close> checks that the bytes are UTF-8: no truncated and no overlong sequence, no surrogate,
  nothing past \<open>U+10FFFF\<close>.
\<close>

definition continues :: "nat \<Rightarrow> bool" where
  "continues b \<longleftrightarrow> 0x80 \<le> b \<and> b \<le> 0xBF"

definition second_of_three :: "nat \<Rightarrow> nat \<Rightarrow> bool" where
  "second_of_three a b \<longleftrightarrow> continues b \<and> (a = 0xE0 \<longrightarrow> 0xA0 \<le> b) \<and> (a = 0xED \<longrightarrow> b \<le> 0x9F)"

definition second_of_four :: "nat \<Rightarrow> nat \<Rightarrow> bool" where
  "second_of_four a b \<longleftrightarrow> continues b \<and> (a = 0xF0 \<longrightarrow> 0x90 \<le> b) \<and> (a = 0xF4 \<longrightarrow> b \<le> 0x8F)"

fun utf8_rest :: "nat \<Rightarrow> nat list \<Rightarrow> nat list option" where
  "utf8_rest a bs =
     (if a < 0x80 then Some bs
      else if 0xC2 \<le> a \<and> a \<le> 0xDF
      then (case bs of b # rest \<Rightarrow> if continues b then Some rest else None | _ \<Rightarrow> None)
      else if 0xE0 \<le> a \<and> a \<le> 0xEF
      then (case bs of b # c # rest \<Rightarrow> if second_of_three a b \<and> continues c then Some rest else None | _ \<Rightarrow> None)
      else if 0xF0 \<le> a \<and> a \<le> 0xF4
      then (case bs of b # c # d # rest \<Rightarrow>
          if second_of_four a b \<and> continues c \<and> continues d then Some rest else None | _ \<Rightarrow> None)
      else None)"

lemma utf8_rest_length: "utf8_rest a bs = Some rest \<Longrightarrow> length rest \<le> length bs"
  by (auto split: if_splits list.splits)

declare utf8_rest.simps [simp del]

function utf8 :: "nat list \<Rightarrow> bool" where
  "utf8 [] = True"
| "utf8 (a # bs) = (case utf8_rest a bs of None \<Rightarrow> False | Some rest \<Rightarrow> utf8 rest)"
  by pat_completeness auto
termination
  by (relation "measure length") (auto dest!: utf8_rest_length)

text \<open>The database of the workers; the text of the second panic leaves out the position of the error.\<close>

definition worker_database :: "settings \<Rightarrow> string res" where
  "worker_database s =
     (case DATABASE s of
        None \<Rightarrow> Inl (Panic ''pg_ros2.database must be set'')
      | Some name \<Rightarrow>
          if utf8 (map of_char name) then Inr name else Inl (Panic ''pg_ros2.database must be UTF-8''))"

definition i32_max :: "i32 \<Rightarrow> i32 \<Rightarrow> i32" where
  "i32_max a b = (if sint a \<le> sint b then b else a)"

text \<open>The cast \<open>as u64\<close> (and \<open>as usize\<close>) sign-extends.\<close>

definition i32_as_u64 :: "i32 \<Rightarrow> u64" where
  "i32_as_u64 x = word_of_int (sint x)"

definition message_poll_ms :: "settings \<Rightarrow> i32" where
  "message_poll_ms s = i32_max (MESSAGE_POLL_MS s) 1"

definition subscription_poll_ms :: "settings \<Rightarrow> i32" where
  "subscription_poll_ms s = i32_max (SUBSCRIPTION_POLL_MS s) 1"

definition message_max_bytes :: "settings \<Rightarrow> nat" where
  "message_max_bytes s = unat (i32_as_u64 (i32_max (MESSAGE_MAX_BYTES s) 1))"

definition subscription_ttl_seconds :: "settings \<Rightarrow> i32" where
  "subscription_ttl_seconds s = i32_max (SUBSCRIPTION_TTL s) 0"

definition configured_reinit_after :: "settings \<Rightarrow> duration option" where
  "configured_reinit_after s =
     (let seconds = ROS_REINIT_AFTER s
      in if 0 < sint seconds then Some (from_secs (i32_as_u64 seconds)) else None)"

definition MAX_REINIT_AFTER :: duration where
  "MAX_REINIT_AFTER = from_secs 600"

definition GRAPH_SPIN :: duration where
  "GRAPH_SPIN = from_millis 100"

definition next_reinit_after :: "settings \<Rightarrow> duration option \<Rightarrow> bool \<Rightarrow> duration option res" where
  "next_reinit_after s current saw_graph =
     (case configured_reinit_after s of
        None \<Rightarrow> Inr None
      | Some configured \<Rightarrow>
          if saw_graph then Inr (Some configured)
          else (case current of
                  Some value \<Rightarrow> map_res (\<lambda>d. Some (min d MAX_REINIT_AFTER)) (duration_mul value 2)
                | None \<Rightarrow> Inr (Some configured)))"

text \<open>The interval over a run of rebuilds: the settings in force and the outcome of each session.\<close>

fun reinit_run :: "duration option \<Rightarrow> (settings \<times> bool) list \<Rightarrow> duration option res" where
  "reinit_run current [] = Inr current"
| "reinit_run current ((s, saw_graph) # rest) =
     and_then (next_reinit_after s current saw_graph) (\<lambda>current'. reinit_run current' rest)"

section \<open>Casts and bounds\<close>

definition in_range :: "registration list \<Rightarrow> string \<Rightarrow> i32 \<Rightarrow> bool" where
  "in_range rs name x \<longleftrightarrow>
     (case guc_range name rs of None \<Rightarrow> False | Some (lo, hi) \<Rightarrow> lo \<le> sint x \<and> sint x \<le> hi)"

lemma default_database: "worker_database default_settings = Inr ''postgres''"
  by (simp add: worker_database_def default_settings_def utf8_rest.simps)

text \<open>PostgreSQL keeps every registered setting inside its range.\<close>

definition settings_in_range :: "settings \<Rightarrow> bool" where
  "settings_in_range s \<longleftrightarrow>
     in_range (PG_init True) ''pg_ros2.ros_reinit_after'' (ROS_REINIT_AFTER s) \<and>
     in_range (PG_init True) ''pg_ros2.message_poll_ms'' (MESSAGE_POLL_MS s) \<and>
     in_range (PG_init True) ''pg_ros2.subscription_poll_ms'' (SUBSCRIPTION_POLL_MS s) \<and>
     in_range (PG_init True) ''pg_ros2.message_max_bytes'' (MESSAGE_MAX_BYTES s) \<and>
     in_range (PG_init True) ''pg_ros2.subscription_ttl'' (SUBSCRIPTION_TTL s)"

lemma guc_ranges:
  "guc_range ''pg_ros2.ros_reinit_after'' (PG_init True) = Some (0, 86400)"
  "guc_range ''pg_ros2.message_poll_ms'' (PG_init True) = Some (1, 1000)"
  "guc_range ''pg_ros2.subscription_poll_ms'' (PG_init True) = Some (50, 60000)"
  "guc_range ''pg_ros2.message_max_bytes'' (PG_init True) = Some (1024, 134217728)"
  "guc_range ''pg_ros2.subscription_ttl'' (PG_init True) = Some (0, 86400)"
  by (simp_all add: PG_init_def)

lemmas settings_in_range_iff = settings_in_range_def [unfolded in_range_def guc_ranges option.case prod.case]

lemma default_settings_in_range: "settings_in_range default_settings"
  by (simp add: settings_in_range_iff default_settings_def)

lemma settings_in_rangeD:
  assumes "settings_in_range s"
  shows "0 \<le> sint (ROS_REINIT_AFTER s)" "sint (ROS_REINIT_AFTER s) \<le> 86400"
    and "1 \<le> sint (MESSAGE_POLL_MS s)" "sint (MESSAGE_POLL_MS s) \<le> 1000"
    and "50 \<le> sint (SUBSCRIPTION_POLL_MS s)" "sint (SUBSCRIPTION_POLL_MS s) \<le> 60000"
    and "1024 \<le> sint (MESSAGE_MAX_BYTES s)" "sint (MESSAGE_MAX_BYTES s) \<le> 134217728"
    and "0 \<le> sint (SUBSCRIPTION_TTL s)" "sint (SUBSCRIPTION_TTL s) \<le> 86400"
  using assms unfolding settings_in_range_iff by - (elim conjE, assumption)+

lemma sint_i32_max: "sint (i32_max a b) = max (sint a) (sint b)"
  by (auto simp: i32_max_def)

lemma sint_i32_bounds: "- (2 ^ 31) \<le> sint (x :: i32)" "sint (x :: i32) < 2 ^ 31"
  using sint_ge [of x] sint_lt [of x] by simp_all

lemma i32_as_u64_nonneg:
  assumes "0 \<le> sint x"
  shows "unat (i32_as_u64 x) = nat (sint x)"
proof -
  have "uint (i32_as_u64 x) = sint x mod 2 ^ 64"
    unfolding i32_as_u64_def by (subst uint_word_of_int) simp
  also have "\<dots> = sint x"
    using assms sint_i32_bounds(2) [of x] by (intro mod_pos_pos_trivial) simp_all
  finally show ?thesis by (simp only: unat_eq_nat_uint)
qed

lemma configured_reinit_after_eq:
  "configured_reinit_after s =
     (if 0 < sint (ROS_REINIT_AFTER s) then Some (nat (sint (ROS_REINIT_AFTER s)) * 10 ^ 9) else None)"
  by (simp add: configured_reinit_after_def Let_def from_secs_def i32_as_u64_nonneg)

lemma MAX_REINIT_AFTER_eq: "MAX_REINIT_AFTER = 600 * 10 ^ 9"
  by (simp add: MAX_REINIT_AFTER_def from_secs_def)

text \<open>
  For every value of the 32-bit settings, even one outside its registered range, the accessors
  give intervals of at least one millisecond, a positive byte limit and a nonnegative expiry, and
  the casts to unsigned types keep the value.
\<close>

lemma accessors_never_wrap:
  "10 ^ 6 \<le> from_millis (i32_as_u64 (message_poll_ms s)) \<and>
   10 ^ 6 \<le> from_millis (i32_as_u64 (subscription_poll_ms s)) \<and>
   int (message_max_bytes s) = max (sint (MESSAGE_MAX_BYTES s)) 1 \<and>
   sint (subscription_ttl_seconds s) = max (sint (SUBSCRIPTION_TTL s)) 0 \<and>
   int (unat (i32_as_u64 (message_poll_ms s))) = max (sint (MESSAGE_POLL_MS s)) 1 \<and>
   int (unat (i32_as_u64 (subscription_poll_ms s))) = max (sint (SUBSCRIPTION_POLL_MS s)) 1"
proof -
  have cast: "int (unat (i32_as_u64 (i32_max x 1))) = max (sint x) 1" for x
  proof -
    have "0 \<le> sint (i32_max x 1)" by (simp add: sint_i32_max max_def)
    then show ?thesis by (simp add: i32_as_u64_nonneg sint_i32_max max_def)
  qed
  have least: "10 ^ 6 \<le> from_millis (i32_as_u64 (i32_max x 1))" for x
  proof -
    have "1 \<le> unat (i32_as_u64 (i32_max x 1))" using cast [of x] by linarith
    then show ?thesis by (simp add: from_millis_def)
  qed
  show ?thesis
    unfolding message_poll_ms_def subscription_poll_ms_def message_max_bytes_def
      subscription_ttl_seconds_def cast
    using least by (simp add: sint_i32_max)
qed

section \<open>The rebuild interval\<close>

definition REINIT_CEILING :: duration where
  "REINIT_CEILING = 86400 * 10 ^ 9"

lemma configured_bounded:
  assumes "settings_in_range s" and "configured_reinit_after s = Some c"
  shows "c \<le> REINIT_CEILING"
  using settings_in_rangeD(2) [OF assms(1)] assms(2)
  by (auto simp: configured_reinit_after_eq REINIT_CEILING_def split: if_splits)

lemma next_reinit_after_bounded:
  assumes s: "settings_in_range s" and d: "\<And>d. current = Some d \<Longrightarrow> d \<le> REINIT_CEILING"
  shows "\<exists>r. next_reinit_after s current saw = Inr r \<and> (\<forall>d. r = Some d \<longrightarrow> d \<le> REINIT_CEILING)"
proof (cases "configured_reinit_after s")
  case None
  then show ?thesis by (simp add: next_reinit_after_def)
next
  case (Some c)
  note c = configured_bounded [OF s Some]
  show ?thesis
  proof (cases "saw \<or> current = None")
    case True
    then show ?thesis using Some c by (auto simp: next_reinit_after_def)
  next
    case False
    then obtain v where v: "current = Some v" by blast
    then have "v * 2 < 2 ^ 64 * 10 ^ 9" using d [OF v] by (simp add: REINIT_CEILING_def)
    moreover have "min (v * 2) MAX_REINIT_AFTER \<le> REINIT_CEILING"
      by (simp add: MAX_REINIT_AFTER_eq REINIT_CEILING_def min_le_iff_disj)
    ultimately show ?thesis using Some v False by (simp add: next_reinit_after_def duration_mul_def)
  qed
qed

text \<open>
  C29. Over any run of rebuilds, with the settings changed by reloads along the way, doubling never
  overflows a \<open>Duration\<close> (no panic) and the interval never exceeds a day.
\<close>

theorem reinit_run_total:
  assumes "list_all (\<lambda>(s, saw). settings_in_range s) run" and "settings_in_range s0"
  shows "\<exists>r. reinit_run (configured_reinit_after s0) run = Inr r \<and>
    (case r of None \<Rightarrow> True | Some d \<Rightarrow> d \<le> REINIT_CEILING)"
proof -
  have "list_all (\<lambda>(s, saw). settings_in_range s) run \<Longrightarrow> (\<forall>d. c = Some d \<longrightarrow> d \<le> REINIT_CEILING) \<Longrightarrow>
      \<exists>r. reinit_run c run = Inr r \<and> (case r of None \<Rightarrow> True | Some d \<Rightarrow> d \<le> REINIT_CEILING)" for c
  proof (induction run arbitrary: c)
    case Nil
    then show ?case by (simp split: option.splits)
  next
    case (Cons step run)
    obtain s saw where step: "step = (s, saw)" by (cases step)
    with Cons.prems(1) have s: "settings_in_range s" by simp
    have "c = Some d \<Longrightarrow> d \<le> REINIT_CEILING" for d
      using Cons.prems(2) by blast
    from next_reinit_after_bounded [OF s this] obtain c'
      where c': "next_reinit_after s c saw = Inr c'" and b: "\<forall>d. c' = Some d \<longrightarrow> d \<le> REINIT_CEILING"
      by blast
    from Cons.prems(1) step have "list_all (\<lambda>(s, saw). settings_in_range s) run" by simp
    from Cons.IH [OF this b] show ?case
      by (simp add: step c')
  qed
  with assms configured_bounded show ?thesis by blast
qed

theorem reinit_run_total_witness:
  "\<exists>r. reinit_run (configured_reinit_after default_settings)
         [(default_settings, False), (default_settings, True)] = Inr r \<and>
       (case r of None \<Rightarrow> True | Some d \<Rightarrow> d \<le> REINIT_CEILING)"
  by (rule reinit_run_total) (simp_all add: default_settings_in_range)

text \<open>
  C39. The documented backoff: with a fixed setting of at most ten minutes, after \<open>n\<close> rebuilds that
  discovered nothing the interval is \<open>2^n\<close> times the setting, cut off at ten minutes; a session
  that discovered a peer starts over at the setting.
\<close>

theorem blind_backoff_doubles:
  assumes "0 < sint (ROS_REINIT_AFTER s)" and "sint (ROS_REINIT_AFTER s) \<le> 600"
  shows "reinit_run (configured_reinit_after s) (replicate n (s, False)) =
      Inr (Some (min (2 ^ n * nat (sint (ROS_REINIT_AFTER s))) 600 * 10 ^ 9)) \<and>
    next_reinit_after s current True = Inr (Some (nat (sint (ROS_REINIT_AFTER s)) * 10 ^ 9))"
proof -
  define c where "c = nat (sint (ROS_REINIT_AFTER s))"
  have conf: "configured_reinit_after s = Some (c * 10 ^ 9)" and c: "0 < c" "c \<le> 600"
    using assms by (simp_all add: configured_reinit_after_eq c_def)
  have step: "next_reinit_after s (Some (k * 10 ^ 9)) False = Inr (Some (min (2 * k) 600 * 10 ^ 9))"
    if "k \<le> 600" for k
    using that by (simp add: next_reinit_after_def conf duration_mul_def MAX_REINIT_AFTER_eq min_mult_distrib_right)
  have "k \<le> 600 \<Longrightarrow> reinit_run (Some (k * 10 ^ 9)) (replicate n (s, False)) =
      Inr (Some (min (2 ^ n * k) 600 * 10 ^ 9))" for k
  proof (induction n arbitrary: k)
    case (Suc n)
    have "min (2 ^ n * min (2 * k) 600) 600 = min (2 ^ n * (2 * k)) (600 :: nat)"
    proof (cases "2 * k \<le> 600")
      case False
      have "1 * 600 \<le> 2 ^ n * (600 :: nat)" "1 * (2 * k) \<le> 2 ^ n * (2 * k)"
        by (intro mult_right_mono; simp)+
      with False have "600 \<le> 2 ^ n * (2 * k)" "600 \<le> 2 ^ n * (600 :: nat)" by linarith+
      with False show ?thesis by (simp add: min_absorb2)
    qed (simp add: min_def)
    then show ?case
      using Suc.IH [of "min (2 * k) 600"] step [OF Suc.prems] by (simp add: mult.assoc mult.left_commute)
  qed (simp add: min_def)
  from this [OF c(2)] show ?thesis
    by (simp add: conf c_def [symmetric] next_reinit_after_def)
qed

theorem blind_backoff_doubles_witness:
  "reinit_run (configured_reinit_after default_settings) (replicate 5 (default_settings, False)) =
     Inr (Some (600 * 10 ^ 9))"
proof -
  have "0 < sint (ROS_REINIT_AFTER default_settings)" "sint (ROS_REINIT_AFTER default_settings) \<le> 600"
    by (simp_all add: default_settings_def)
  from blind_backoff_doubles [OF this, of 5] show ?thesis by (simp add: default_settings_def)
qed

text \<open>
  C40. A setting above ten minutes is not a lower bound of the backoff: the first rebuild after a
  session that discovered nothing shortens the interval to ten minutes, where the comment on
  \<open>next_reinit_after\<close> says that it grows.
\<close>

theorem blind_backoff_shrinks:
  assumes "600 < sint (ROS_REINIT_AFTER s)"
  shows "\<exists>d d'. configured_reinit_after s = Some d \<and>
    next_reinit_after s (Some d) False = Inr (Some d') \<and> d' = 600 * 10 ^ 9 \<and> d' < d"
proof -
  define c where "c = nat (sint (ROS_REINIT_AFTER s))"
  have conf: "configured_reinit_after s = Some (c * 10 ^ 9)" and c: "600 < c" "c < 2 ^ 31"
    using assms sint_i32_bounds(2) [of "ROS_REINIT_AFTER s"]
    by (simp_all add: configured_reinit_after_eq c_def)
  then show ?thesis
    by (simp add: next_reinit_after_def duration_mul_def MAX_REINIT_AFTER_eq)
qed

theorem blind_backoff_shrinks_witness:
  "next_reinit_after (default_settings\<lparr>ROS_REINIT_AFTER := 3600\<rparr>) (Some (3600 * 10 ^ 9)) False =
     Inr (Some (600 * 10 ^ 9))"
proof -
  have "600 < sint (ROS_REINIT_AFTER (default_settings\<lparr>ROS_REINIT_AFTER := 3600\<rparr>))" by simp
  from blind_backoff_shrinks [OF this] show ?thesis
    by (auto simp: configured_reinit_after_eq)
qed

end
