(* ===== verification/Parameters.thy ===== *)
theory Parameters
  imports Graph Settings
begin

text \<open>
  \<open>src/parameters.rs\<close>: polling the parameter services of all nodes and saving what they answer. A
  poll is a state machine with the stages ready, listing and getting; each call of \<open>tick\<close> sees the
  clock and the ROS middleware, which are arguments. The middleware names a pending call by a number.
\<close>

section \<open>Parameters and their values\<close>

record parameter =
  param_node :: string
  param_namespace :: string
  param_name :: string
  param_kind :: string
  param_value :: json

record parameter_value =
  type_of_parameter :: nat
  bool_value :: bool
  integer_value :: int
  double_value :: f64
  string_value :: string
  byte_array_value :: "int list"
  bool_array_value :: "bool list"
  integer_array_value :: "int list"
  double_array_value :: "f64 list"
  string_array_value :: "string list"

text \<open>\<open>serde_json\<close> makes the numbers: \<open>from_int\<close> for integers and bytes, \<open>from_f64\<close> for doubles.\<close>

record serde =
  from_int :: "int \<Rightarrow> json"
  from_f64 :: "f64 \<Rightarrow> json"

definition kind_and_value :: "serde \<Rightarrow> parameter_value \<Rightarrow> (string \<times> json) res" where
  "kind_and_value sj p =
     (let t = type_of_parameter p
      in if t = 0 then Inr (''not_set'', JNull)
         else if t = 1 then Inr (''bool'', JBool (bool_value p))
         else if t = 2 then Inr (''integer'', from_int sj (integer_value p))
         else if t = 3 then Inr (''double'', from_f64 sj (double_value p))
         else if t = 4 then Inr (''string'', JString (string_value p))
         else if t = 5 then Inr (''byte_array'', JArray (map (from_int sj) (byte_array_value p)))
         else if t = 6 then Inr (''bool_array'', JArray (map JBool (bool_array_value p)))
         else if t = 7 then Inr (''integer_array'', JArray (map (from_int sj) (integer_array_value p)))
         else if t = 8 then Inr (''double_array'', JArray (map (from_f64 sj) (double_array_value p)))
         else if t = 9 then Inr (''string_array'', JArray (map JString (string_array_value p)))
         else Inl (Err (''unknown ROS parameter type '' @ show_nat t)))"

section \<open>Starting a poll\<close>

text \<open>A client is the name of its service.\<close>

record peer =
  peer_name :: string
  peer_namespace :: string
  list_client :: string
  get_client :: string

type_synonym promise = nat
type_synonym instant = nat

datatype stage =
    Ready
  | Listing "promise list" "string list option list"
  | Getting "promise list" "parameter_value list option list" "string list list"

record poll =
  clients :: "peer list"
  stage :: stage
  deadline :: instant

text \<open>What \<open>start\<close> asks of the middleware: the services of a node, and a client of a service.\<close>

record discovery =
  services_by_node :: "string \<Rightarrow> string \<Rightarrow> error + (string \<times> string list) list"
  create_client :: "string \<Rightarrow> error + unit"

definition trim_end_slashes :: "string \<Rightarrow> string" where
  "trim_end_slashes s = rev (dropWhile (\<lambda>c. c = CHR ''/'') (rev s))"

definition as_text :: "error + 'a \<Rightarrow> 'a res" where
  "as_text r = (case r of Inl e \<Rightarrow> Inl (Err (to_string e)) | Inr a \<Rightarrow> Inr a)"

definition start_peer :: "discovery \<Rightarrow> string \<times> string \<Rightarrow> peer option res" where
  "start_peer ros = (\<lambda>(name, namespace).
     (let prefix = trim_end_slashes namespace @ ''/'' @ name;
          list_name = prefix @ ''/list_parameters'';
          get_name = prefix @ ''/get_parameters''
      in and_then (as_text (services_by_node ros name namespace)) (\<lambda>services.
           if \<not> (case map_of services list_name of None \<Rightarrow> False
                  | Some types \<Rightarrow> list_ex (\<lambda>kind. kind = ''rcl_interfaces/srv/ListParameters'') types)
           then Inr None
           else and_then (as_text (create_client ros list_name)) (\<lambda>_.
                and_then (as_text (create_client ros get_name)) (\<lambda>_.
                  Inr (Some \<lparr>peer_name = name, peer_namespace = namespace, list_client = list_name,
                    get_client = get_name\<rparr>))))))"

definition TIMEOUT :: duration where
  "TIMEOUT = from_secs 3"

definition start :: "discovery \<Rightarrow> instant \<Rightarrow> (string \<times> string) list \<Rightarrow> poll res" where
  "start ros now nodes =
     (let peers = remdups_adj (sort nodes)
      in and_then (traverse (start_peer ros) peers) (\<lambda>found.
           Inr \<lparr>clients = List.map_filter id found, stage = Ready, deadline = now + TIMEOUT\<rparr>))"

section \<open>Advancing a poll\<close>

text \<open>
  What one tick sees: the clock at the deadline check and when a new deadline is set, whether a
  service is ready, the promise a call returns, and what a promise holds so far.
\<close>

record tick_env =
  now_at_check :: instant
  now_at_reset :: instant
  service_is_ready :: "string \<Rightarrow> error + bool"
  call_list :: "string \<Rightarrow> error + promise"
  call_get :: "string \<Rightarrow> string list \<Rightarrow> error + promise"
  recv_list :: "promise \<Rightarrow> error + string list option"
  recv_get :: "promise \<Rightarrow> error + parameter_value list option"

fun collect :: "(promise \<Rightarrow> error + 'a option) \<Rightarrow> promise list \<Rightarrow> 'a option list \<Rightarrow> 'a option list res" where
  "collect recv (p # ps) (r # rs) =
     and_then (if r = None then as_text (recv p) else Inr r) (\<lambda>r'.
       and_then (collect recv ps rs) (\<lambda>rs'. Inr (r' # rs')))"
| "collect recv _ rs = Inr rs"

definition stage_name :: "stage \<Rightarrow> string" where
  "stage_name s = (case s of Ready \<Rightarrow> ''service discovery'' | Listing _ _ \<Rightarrow> ''list'' | Getting _ _ _ \<Rightarrow> ''get'')"

text \<open>The loop over the clients of the ready stage: the first one not ready ends it.\<close>

fun all_ready :: "(string \<Rightarrow> error + bool) \<Rightarrow> peer list \<Rightarrow> bool res" where
  "all_ready ready [] = Inr True"
| "all_ready ready (c # cs) =
     and_then (as_text (ready (list_client c))) (\<lambda>l.
       if \<not> l then Inr False
       else and_then (as_text (ready (get_client c))) (\<lambda>g.
         if \<not> g then Inr False else all_ready ready cs))"

definition unwrap :: "'a option \<Rightarrow> 'a res" where
  "unwrap r = (case r of None \<Rightarrow> Inl (Panic ''called Option::unwrap on a None value'') | Some a \<Rightarrow> Inr a)"

definition node_parameters ::
  "serde \<Rightarrow> peer \<Rightarrow> string list \<Rightarrow> parameter_value list option \<Rightarrow> parameter list res"
where
  "node_parameters sj c names response =
     and_then (unwrap response) (\<lambda>values.
       if length names \<noteq> length values
       then Inl (Err (peer_namespace c @ ''/'' @ peer_name c @ '': parameter response length mismatch''))
       else traverse (\<lambda>(name, v). and_then (kind_and_value sj v) (\<lambda>(kind, j).
         Inr \<lparr>param_node = peer_name c, param_namespace = peer_namespace c, param_name = name,
           param_kind = kind, param_value = j\<rparr>)) (zip names values))"

definition tick :: "serde \<Rightarrow> tick_env \<Rightarrow> poll \<Rightarrow> (parameter list option \<times> poll) res" where
  "tick sj env p =
     (if deadline p \<le> now_at_check env
      then Inl (Err (''parameter '' @ stage_name (stage p) @ '' timed out after 3 seconds''))
      else case stage p of
        Ready \<Rightarrow>
          and_then (all_ready (service_is_ready env) (clients p)) (\<lambda>ready.
            if \<not> ready then Inr (None, p)
            else and_then (traverse (\<lambda>c. as_text (call_list env (list_client c))) (clients p)) (\<lambda>pending.
              Inr (None, p\<lparr>stage := Listing pending (replicate (length (clients p)) None),
                deadline := now_at_reset env + TIMEOUT\<rparr>)))
      | Listing pending results \<Rightarrow>
          and_then (collect (recv_list env) pending results) (\<lambda>results.
            if \<not> list_all (\<lambda>r. r \<noteq> None) results then Inr (None, p\<lparr>stage := Listing pending results\<rparr>)
            else and_then (traverse (\<lambda>r. and_then (unwrap r) (\<lambda>names. Inr (remdups_adj (sort names)))) results) (\<lambda>names.
              and_then (traverse (\<lambda>(c, ns). as_text (call_get env (get_client c) ns)) (zip (clients p) names)) (\<lambda>pending.
                Inr (None, p\<lparr>stage := Getting pending (replicate (length (clients p)) None) names,
                  deadline := now_at_reset env + TIMEOUT\<rparr>))))
      | Getting pending results names \<Rightarrow>
          and_then (collect (recv_get env) pending results) (\<lambda>results.
            if \<not> list_all (\<lambda>r. r \<noteq> None) results then Inr (None, p\<lparr>stage := Getting pending results names\<rparr>)
            else and_then (traverse (\<lambda>((c, ns), r). node_parameters sj c ns r) (zip (zip (clients p) names) results)) (\<lambda>snapshot.
              Inr (Some (concat snapshot), p\<lparr>stage := Getting pending (map (\<lambda>_. None) results) names\<rparr>))))"

section \<open>Saving a snapshot\<close>

definition parameter_row :: "stmt_env \<Rightarrow> parameter \<Rightarrow> parameter_row" where
  "parameter_row env p =
     \<lparr>row_node = param_node p, row_namespace = param_namespace p, row_parameter = param_name p,
      row_kind = param_kind p, row_value = param_value p, row_refreshed_at = statement_timestamp env\<rparr>"

definition row_key :: "parameter_row \<Rightarrow> string \<times> string \<times> string" where
  "row_key r = (row_node r, row_namespace r, row_parameter r)"

text \<open>The arguments of the \<open>INSERT\<close> are converted before it runs.\<close>

definition insert_parameter :: "stmt_env \<Rightarrow> parameter \<Rightarrow> parameter_row list \<Rightarrow> parameter_row list res" where
  "insert_parameter env p t =
     and_then (jsonb env (param_value p)) (\<lambda>v. insert_key row_key (parameter_row env p) t)"

definition persist ::
  "stmt_env \<Rightarrow> string + parameter list \<Rightarrow> parameter list option \<Rightarrow> oid option \<Rightarrow> database \<Rightarrow>
    (oid option \<times> database) res"
where
  "persist env snapshot previous previous_extension db =
     (case installed_extension db of
        None \<Rightarrow> Inr (None, db)
      | Some (i, schema) \<Rightarrow>
          (let changed = (case snapshot of Inl e \<Rightarrow> False
                 | Inr v \<Rightarrow> previous \<noteq> Some v \<or> previous_extension \<noteq> Some i)
           in and_then
                (case snapshot of Inl e \<Rightarrow> Inr db
                 | Inr parameters \<Rightarrow>
                     if changed
                     then map_res (\<lambda>t. db\<lparr>parameters_table := t\<rparr>)
                       (fold_res (insert_parameter env) parameters [])
                     else Inr db)
                (\<lambda>db1. Inr (Some i, db1\<lparr>parameter_status := upsert_status env changed
                   (case snapshot of Inl e \<Rightarrow> Some e | Inr v \<Rightarrow> None) (parameter_status db1)\<rparr>))))"

section \<open>What a poll preserves\<close>

definition peer_key :: "peer \<Rightarrow> string \<times> string" where
  "peer_key c = (peer_name c, peer_namespace c)"

definition param_key :: "parameter \<Rightarrow> string \<times> string \<times> string" where
  "param_key p = (param_node p, param_namespace p, param_name p)"

abbreviation strictly_sorted :: "'a :: linorder list \<Rightarrow> bool" where
  "strictly_sorted \<equiv> sorted_wrt (<)"

text \<open>
  The peers are in order without repetition, a stage has one promise and one slot for each of them,
  and the names asked for are in order without repetition.
\<close>

definition poll_ok :: "poll \<Rightarrow> bool" where
  "poll_ok p \<longleftrightarrow> strictly_sorted (map peer_key (clients p)) \<and>
     (case stage p of
        Ready \<Rightarrow> True
      | Listing pending results \<Rightarrow>
          length pending = length (clients p) \<and> length results = length (clients p)
      | Getting pending results names \<Rightarrow>
          length pending = length (clients p) \<and> length results = length (clients p) \<and>
          length names = length (clients p) \<and> list_all strictly_sorted names)"

definition snapshot_ok :: "parameter list \<Rightarrow> bool" where
  "snapshot_ok s \<longleftrightarrow> strictly_sorted (map param_key s)"

lemma strictly_sorted_canonical: "strictly_sorted (remdups_adj (sort xs))"
  using sort_dedup_distinct [of xs] by (simp add: strict_sorted_iff sorted_remdups_adj)

lemma as_text_simps [simp]: "as_text (Inr a) = Inr a" "as_text (Inl e) = Inl (Err (to_string e))"
  by (simp_all add: as_text_def)

lemma as_text_no_panic [simp]: "\<not> panics (as_text r)"
  by (cases r) simp_all

lemma collect_length: "collect recv ps rs = Inr rs' \<Longrightarrow> length rs' = length rs"
  by (induction recv ps rs arbitrary: rs' rule: collect.induct) auto

lemma collect_no_panic: "\<not> panics (collect recv ps rs)"
  by (induction recv ps rs rule: collect.induct) (auto simp: panics_and_then)

lemma all_ready_no_panic: "\<not> panics (all_ready ready cs)"
  by (induction ready cs rule: all_ready.induct) (auto simp: panics_and_then)

lemma kind_and_value_no_panic [simp]: "\<not> panics (kind_and_value sj v)"
  by (simp add: kind_and_value_def Let_def)

lemma unwrap_panics [simp]: "panics (unwrap r) \<longleftrightarrow> r = None"
  by (cases r) (simp_all add: unwrap_def)

lemma node_parameters_panics: "panics (node_parameters sj c names r) \<Longrightarrow> r = None"
proof (rule ccontr)
  assume "panics (node_parameters sj c names r)" and "r \<noteq> None"
  moreover have "\<not> panics (node_parameters sj c names r)" if "r \<noteq> None"
    using that by (auto simp: node_parameters_def panics_and_then intro!: traverse_panics split: prod.splits)
  ultimately show False by simp
qed

lemma traverse_keys:
  assumes "length names = length values"
    and "traverse (\<lambda>(name, v). and_then (kind_and_value sj v) (\<lambda>(kind, j).
         Inr \<lparr>param_node = n, param_namespace = ns, param_name = name, param_kind = kind, param_value = j\<rparr>))
       (zip names values) = Inr ps"
  shows "map param_key ps = map (\<lambda>name. (n, ns, name)) names"
  using assms
proof (induction names "values" arbitrary: ps rule: list_induct2)
  case (Cons name names v vs)
  then show ?case by (auto simp: param_key_def)
qed simp

lemma node_parameters_keys:
  "node_parameters sj c names r = Inr ps \<Longrightarrow>
    map param_key ps = map (\<lambda>name. (peer_name c, peer_namespace c, name)) names"
  by (auto simp: node_parameters_def unwrap_def split: option.splits if_splits intro: traverse_keys)

lemma strictly_sorted_rows:
  assumes "length names = length cs" and "strictly_sorted (map peer_key cs)" and "list_all strictly_sorted names"
  shows "strictly_sorted (concat (map2 (\<lambda>c ns. map (\<lambda>n. (peer_name c, peer_namespace c, n)) ns) cs names))"
  using assms
proof (induction names cs rule: list_induct2)
  case (Cons ns names c cs)
  have "(peer_name c, peer_namespace c, n) < k"
    if "k \<in> set (concat (map2 (\<lambda>c ns. map (\<lambda>n. (peer_name c, peer_namespace c, n)) ns) cs names))" for n k
  proof -
    from that obtain d ms m where d: "(d, ms) \<in> set (zip cs names)" "k = (peer_name d, peer_namespace d, m)" by auto
    then have "peer_key c < peer_key d" using Cons.prems(1) by (auto dest: set_zip_leftD)
    then show ?thesis by (auto simp: d(2) peer_key_def)
  qed
  moreover have "strictly_sorted (map (\<lambda>n. (peer_name c, peer_namespace c, n)) ns)"
    using Cons.prems(2) by (simp add: sorted_wrt_map)
  moreover have "strictly_sorted (concat (map2 (\<lambda>c ns. map (\<lambda>n. (peer_name c, peer_namespace c, n)) ns) cs names))"
    using Cons.IH Cons.prems by simp
  ultimately show ?case
    by (simp only: zip_Cons_Cons list.map concat.simps prod.case sorted_wrt_append set_map) blast
qed simp

lemma snapshot_rows:
  assumes "length names = length cs" and "length results = length cs"
    and "traverse (\<lambda>((c, ns), r). node_parameters sj c ns r) (zip (zip cs names) results) = Inr snapshot"
  shows "map param_key (concat snapshot) =
    concat (map2 (\<lambda>c ns. map (\<lambda>n. (peer_name c, peer_namespace c, n)) ns) cs names)"
  using assms(1) assms(2) [symmetric] assms(3)
proof (induction names cs results arbitrary: snapshot rule: list_induct3)
  case (Cons ns names c cs r rs)
  then obtain ps rest where "node_parameters sj c ns r = Inr ps"
    "traverse (\<lambda>((c, ns), r). node_parameters sj c ns r) (zip (zip cs names) rs) = Inr rest"
    "snapshot = ps # rest" by auto
  with Cons.IH node_parameters_keys show ?case by simp
qed simp

text \<open>A started poll is in order, whatever the order and the repetitions of the given nodes.\<close>

lemma start_peer_key: "start_peer ros n = Inr (Some c) \<Longrightarrow> peer_key c = n"
  by (cases n) (auto simp: start_peer_def Let_def peer_key_def split: if_splits)

lemma started_keys:
  assumes "traverse (start_peer ros) ns = Inr found"
  shows "subseq (map peer_key (List.map_filter id found)) ns"
  using assms
proof (induction ns arbitrary: found)
  case (Cons n ns)
  then obtain c rest where c: "start_peer ros n = Inr c" "traverse (start_peer ros) ns = Inr rest"
    "found = c # rest" by auto
  with Cons.IH [OF c(2)] show ?case
    by (cases c) (auto simp: List.map_filter_def start_peer_key)
qed (simp add: List.map_filter_def)

lemma subseq_set: "subseq xs ys \<Longrightarrow> set xs \<subseteq> set ys"
  by (induction rule: list_emb.induct) auto

lemma sorted_wrt_subseq: "subseq xs ys \<Longrightarrow> sorted_wrt R ys \<Longrightarrow> sorted_wrt R xs"
proof (induction rule: list_emb.induct)
  case (list_emb_Cons2 x y xs ys)
  then show ?case by (auto dest: list_emb_set)
qed auto

lemma start_ok:
  assumes "start ros now nodes = Inr p"
  shows "poll_ok p \<and> stage p = Ready \<and> deadline p = now + TIMEOUT \<and> peer_key ` set (clients p) \<subseteq> set nodes"
proof -
  from assms obtain found where f: "traverse (start_peer ros) (remdups_adj (sort nodes)) = Inr found"
    and p: "p = \<lparr>clients = List.map_filter id found, stage = Ready, deadline = now + TIMEOUT\<rparr>"
    by (auto simp: start_def)
  have "set (map peer_key (clients p)) \<subseteq> set nodes"
    using subseq_set [OF started_keys [OF f]] by (simp add: p)
  with sorted_wrt_subseq [OF started_keys [OF f] strictly_sorted_canonical] show ?thesis
    by (simp add: poll_ok_def p)
qed

lemma names_sorted:
  assumes "traverse (\<lambda>r. and_then (unwrap r) (\<lambda>names. Inr (remdups_adj (sort names)))) results = Inr names"
  shows "length names = length results \<and> list_all strictly_sorted names"
proof
  show "length names = length results" using traverse_length [OF assms] .
  have "list_all2 (\<lambda>r ns. strictly_sorted ns) results names"
    using assms unfolding traverse_Inr_iff
    by (rule list_all2_mono) (auto simp: strictly_sorted_canonical)
  then show "list_all strictly_sorted names"
    by (auto simp: list_all2_conv_all_nth list_all_length)
qed

lemma tick_no_panic: "poll_ok p \<Longrightarrow> \<not> panics (tick sj env p)"
proof (cases "stage p")
  case Ready
  then show ?thesis
    by (auto simp: tick_def panics_and_then all_ready_no_panic intro!: traverse_panics)
next
  case (Listing pending results)
  then show ?thesis
    by (auto simp: tick_def panics_and_then collect_no_panic list_all_iff
        intro!: traverse_panics)
next
  case (Getting pending results names)
  then show ?thesis
    by (auto simp: tick_def panics_and_then collect_no_panic list_all_iff
        intro!: traverse_panics dest!: set_zip_rightD node_parameters_panics)
qed

lemma tick_ok:
  assumes "poll_ok p" and "tick sj env p = Inr (r, p')"
  shows "poll_ok p' \<and> clients p' = clients p \<and> (case r of None \<Rightarrow> True | Some s \<Rightarrow> snapshot_ok s)"
proof (cases "stage p")
  case Ready
  with assms show ?thesis
    by (auto simp: tick_def poll_ok_def dest: traverse_length split: if_splits)
next
  case (Listing pending results)
  with assms(2) obtain results' where r': "collect (recv_list env) pending results = Inr results'"
    by (auto simp: tick_def split: if_splits)
  note len = assms(1) [unfolded poll_ok_def Listing stage.case] collect_length [OF r']
  show ?thesis
  proof (cases "list_all (\<lambda>r. r \<noteq> None) results'")
    case False
    with assms(2) Listing r' len show ?thesis by (auto simp: tick_def poll_ok_def split: if_splits)
  next
    case True
    with assms(2) Listing r' obtain names calls where
      names: "traverse (\<lambda>r. and_then (unwrap r) (\<lambda>names. Inr (remdups_adj (sort names)))) results' = Inr names"
      and calls: "traverse (\<lambda>(c, ns). as_text (call_get env (get_client c) ns)) (zip (clients p) names) = Inr calls"
      and p': "r = None" "p' = p\<lparr>stage := Getting calls (replicate (length (clients p)) None) names,
        deadline := now_at_reset env + TIMEOUT\<rparr>"
      by (auto simp: tick_def split: if_splits)
    from len names_sorted [OF names] traverse_length [OF calls] show ?thesis
      by (simp add: p' poll_ok_def)
  qed
next
  case (Getting pending results names)
  with assms(2) obtain results' where r': "collect (recv_get env) pending results = Inr results'"
    by (auto simp: tick_def split: if_splits)
  note len = assms(1) [unfolded poll_ok_def Getting stage.case] collect_length [OF r']
  show ?thesis
  proof (cases "list_all (\<lambda>r. r \<noteq> None) results'")
    case False
    with assms Getting r' len show ?thesis by (auto simp: tick_def poll_ok_def split: if_splits)
  next
    case True
    with assms(2) Getting r' obtain snapshot where
      s: "traverse (\<lambda>((c, ns), r). node_parameters sj c ns r) (zip (zip (clients p) names) results') = Inr snapshot"
      and r: "r = Some (concat snapshot)"
      and p': "p' = p\<lparr>stage := Getting pending (map (\<lambda>_. None) results') names\<rparr>"
      by (auto simp: tick_def split: if_splits)
    have "snapshot_ok (concat snapshot)"
      unfolding snapshot_ok_def using len
      by (subst snapshot_rows [OF _ _ s]) (simp_all add: strictly_sorted_rows)
    with len show ?thesis by (simp add: r p' poll_ok_def)
  qed
qed

section \<open>Saving never violates the primary key\<close>

definition parameter_columns :: "parameter_row \<Rightarrow> string \<times> string \<times> string \<times> string \<times> json" where
  "parameter_columns r = (row_node r, row_namespace r, row_parameter r, row_kind r, row_value r)"

definition parameter_rows :: "database \<Rightarrow> (string \<times> string \<times> string \<times> string \<times> json) list" where
  "parameter_rows db = map parameter_columns (parameters_table db)"

definition parameter_image :: "parameter list \<Rightarrow> (string \<times> string \<times> string \<times> string \<times> json) list" where
  "parameter_image s = map (\<lambda>p. (param_node p, param_namespace p, param_name p, param_kind p, param_value p)) s"

lemma parameter_row_key [simp]: "row_key (parameter_row env p) = param_key p"
  by (simp add: row_key_def parameter_row_def param_key_def)

lemma insert_parameter_eq:
  "insert_parameter env p t =
     (case jsonb_error env (param_value p) of Some e \<Rightarrow> Inl (Panic e)
      | None \<Rightarrow> if param_key p \<in> row_key ` set t then Inl (Panic ''duplicate key value violates unique constraint'')
          else Inr (t @ [parameter_row env p]))"
  by (simp add: insert_parameter_def jsonb_def insert_key_def split: option.split)

lemma inserted_rows: "fold_res (insert_parameter env) ps t = Inr t' \<Longrightarrow> t' = t @ map (parameter_row env) ps"
proof (induction ps arbitrary: t)
  case (Cons p ps)
  then have "fold_res (insert_parameter env) ps (t @ [parameter_row env p]) = Inr t'"
    by (auto simp: insert_parameter_eq [of env p t] split: option.splits if_splits)
  from Cons.IH [OF this] show ?case by simp
qed simp

lemma refused_rows:
  assumes "distinct (map param_key ps)" and "param_key ` set ps \<inter> row_key ` set t = {}"
    and "fold_res (insert_parameter env) ps t = Inl f"
  shows "\<exists>p \<in> set ps. \<exists>e. jsonb_error env (param_value p) = Some e \<and> f = Panic e"
  using assms
proof (induction ps arbitrary: t)
  case (Cons p ps)
  show ?case
  proof (cases "jsonb_error env (param_value p)")
    case None
    with Cons.prems have "fold_res (insert_parameter env) ps (t @ [parameter_row env p]) = Inl f"
      by (simp add: insert_parameter_eq [of env p t])
    from Cons.IH [OF _ _ this] Cons.prems(1,2) show ?thesis by fastforce
  next
    case (Some e)
    with Cons.prems(3) show ?thesis by (simp add: insert_parameter_eq [of env p t])
  qed
qed simp

lemma inserted_values:
  "fold_res (insert_parameter env) ps t = Inr t' \<Longrightarrow> p \<in> set ps \<Longrightarrow> jsonb_error env (param_value p) = None"
proof (induction ps arbitrary: t)
  case (Cons q ps)
  from Cons.prems(1) obtain t1 where "insert_parameter env q t = Inr t1" "fold_res (insert_parameter env) ps t1 = Inr t'" by auto
  with Cons show ?case by (auto simp: insert_parameter_eq split: option.splits)
qed simp

lemma columns_of_rows: "map (parameter_columns \<circ> parameter_row env) ps = parameter_image ps"
  by (simp add: parameter_columns_def parameter_row_def parameter_image_def comp_def)

lemma parameter_rows_updates [simp]:
  "parameter_rows (parameter_status_update f (db :: database)) = parameter_rows db"
  by (simp add: parameter_rows_def)

interpretation parameter_store: snapshot_store persist parameter_rows parameter_image snapshot_ok
  "\<lambda>s. param_value ` set s" parameter_status
proof unfold_locales
  show "persist env r p o' db = Inr (None, db)" if "extension db = None" for env r p o' db
    using that by (simp add: persist_def)
next
  fix db db' :: database and i schema and r :: "string + parameter list" and env :: stmt_env and p o' x
  assume "extension db = Some (i, schema)" and "persist env r p o' db = Inr (x, db')"
  then show "x = Some i \<and> extension db' = extension db \<and>
        parameter_rows db' = (case r of Inl e \<Rightarrow> parameter_rows db
          | Inr s \<Rightarrow> if p \<noteq> Some s \<or> o' \<noteq> Some i then parameter_image s else parameter_rows db) \<and>
        parameter_status db' = upsert_status env
          (case r of Inl e \<Rightarrow> False | Inr s \<Rightarrow> p \<noteq> Some s \<or> o' \<noteq> Some i)
          (case r of Inl e \<Rightarrow> Some e | Inr s \<Rightarrow> None) (parameter_status db)"
    by (cases r) (auto simp: persist_def Let_def parameter_rows_def columns_of_rows dest!: inserted_rows split: if_splits)
next
  fix db :: database and r :: "string + parameter list" and env :: stmt_env and p o' f
  assume run: "persist env r p o' db = Inl f" and ok: "\<And>s. r = Inr s \<Longrightarrow> snapshot_ok s"
  then obtain s i where s: "r = Inr s" "p \<noteq> Some s \<or> o' \<noteq> map_option fst (extension db)"
    and ins: "fold_res (insert_parameter env) s [] = Inl f"
    by (auto simp: persist_def Let_def and_then_Inl_iff split: option.splits sum.splits if_splits)
  from ok [OF s(1)] have "distinct (map param_key s)" by (simp add: snapshot_ok_def strict_sorted_iff)
  from refused_rows [OF this _ ins] s show "\<exists>s v e. r = Inr s \<and> (p \<noteq> Some s \<or> o' \<noteq> map_option fst (extension db)) \<and>
      v \<in> param_value ` set s \<and> jsonb_error env v = Some e \<and> f = Panic e" by auto
qed (simp add: parameter_rows_def create_extension_def)

lemma persist_refuses:
  assumes "extension db \<noteq> None" and "previous \<noteq> Some s" and "x \<in> set s" and "jsonb_error env (param_value x) \<noteq> None"
  shows "\<exists>f. persist env (Inr s) previous ext db = Inl f"
proof (cases "fold_res (insert_parameter env) s []")
  case (Inl f)
  with assms(1,2) show ?thesis by (auto simp: persist_def Let_def)
next
  case (Inr t)
  from inserted_values [OF Inr assms(3)] assms(4) show ?thesis by simp
qed

section \<open>Runs of a poll\<close>

text \<open>The observer loop ticks a poll until it fails or has a snapshot.\<close>

fun ticks :: "serde \<Rightarrow> tick_env list \<Rightarrow> poll \<Rightarrow> (parameter list option \<times> poll) res" where
  "ticks sj [] p = Inr (None, p)"
| "ticks sj (e # es) p =
     and_then (tick sj e p) (\<lambda>(r, p'). if r = None then ticks sj es p' else Inr (r, p'))"

lemma ticks_ok:
  assumes "poll_ok p"
  shows "\<not> panics (ticks sj es p) \<and>
    (\<forall>r p'. ticks sj es p = Inr (r, p') \<longrightarrow> poll_ok p' \<and>
      (case r of None \<Rightarrow> True | Some s \<Rightarrow> snapshot_ok s))"
  using assms
proof (induction es arbitrary: p)
  case (Cons e es)
  show ?case
  proof (cases "tick sj e p")
    case (Inl f)
    then show ?thesis using tick_no_panic [OF Cons.prems, of sj e] by simp
  next
    case (Inr rp)
    obtain r p1 where rp: "rp = (r, p1)" by (cases rp)
    note ok = tick_ok [OF Cons.prems Inr [unfolded rp]]
    show ?thesis
    proof (cases r)
      case None
      with ok Cons.IH [of p1] show ?thesis by (simp add: Inr rp)
    next
      case (Some s)
      with ok show ?thesis by (simp add: Inr rp)
    qed
  qed
qed simp

text \<open>
  C17. A poll never panics, whatever the middleware answers, and a snapshot it delivers lists its
  parameters strictly ordered by node, namespace and name. So no two rows have the same key, and
  saving the snapshot cannot violate the primary key of the table, in any database: it fails only
  for a value that \<open>jsonb\<close> refuses.
\<close>

theorem poll_delivers_keys:
  assumes "start ros now nodes = Inr p"
  shows "\<not> panics (ticks sj es p) \<and>
    (\<forall>s p'. ticks sj es p = Inr (Some s, p') \<longrightarrow>
      strictly_sorted (map param_key s) \<and>
      (panics (persist env (Inr s) previous ext db) \<longrightarrow>
        (\<exists>q \<in> set s. jsonb_error env (param_value q) \<noteq> None)))"
proof -
  have ok: "poll_ok p" using start_ok [OF assms] by blast
  have "\<exists>q \<in> set s. jsonb_error env (param_value q) \<noteq> None"
    if "snapshot_ok s" and "panics (persist env (Inr s) previous ext db)" for s
    using parameter_store.accepted [where r = "Inr s" and env = env] that by fastforce
  moreover have "snapshot_ok s" if "ticks sj es p = Inr (Some s, p')" for s p'
    using ticks_ok [OF ok, of sj es] that by auto
  ultimately show ?thesis
    using ticks_ok [OF ok, of sj es] by (simp add: snapshot_ok_def)
qed

definition rank :: "stage \<Rightarrow> nat" where
  "rank s = (case s of Ready \<Rightarrow> 0 | Listing _ _ \<Rightarrow> 1 | Getting _ _ _ \<Rightarrow> 2)"

lemma tick_progress:
  assumes "tick sj e p = Inr (None, p')"
  shows "now_at_check e < deadline p \<and>
    (rank (stage p') = rank (stage p) \<and> deadline p' = deadline p \<or>
     rank (stage p') = Suc (rank (stage p)) \<and> deadline p' = now_at_reset e + TIMEOUT)"
  using assms by (cases "stage p") (auto simp: tick_def rank_def split: if_splits)

lemma rank_le: "rank s \<le> 2"
  by (simp add: rank_def split: stage.splits)

lemma ticks_deadline:
  assumes "\<And>e. e \<in> set es \<Longrightarrow> now_at_reset e \<le> now_at_check e + delta"
    and "deadline p \<le> t + Suc (rank (stage p)) * TIMEOUT + rank (stage p) * delta"
    and "ticks sj es p = Inr (None, p')"
  shows "deadline p' \<le> t + Suc (rank (stage p')) * TIMEOUT + rank (stage p') * delta \<and>
    (\<forall>e \<in> set es. now_at_check e < t + 3 * TIMEOUT + 2 * delta)"
  using assms
proof (induction es arbitrary: p)
  case (Cons e es)
  from Cons.prems(3) obtain p1 where p1: "tick sj e p = Inr (None, p1)" and rest: "ticks sj es p1 = Inr (None, p')"
    by (auto split: if_splits)
  have e: "now_at_reset e \<le> now_at_check e + delta" using Cons.prems(1) by simp
  note pr = tick_progress [OF p1]
  have bound: "Suc (rank (stage p)) * TIMEOUT \<le> 3 * TIMEOUT" "rank (stage p) * delta \<le> 2 * delta"
    using rank_le [of "stage p"] by (auto intro: mult_right_mono)
  have "deadline p1 \<le> t + Suc (rank (stage p1)) * TIMEOUT + rank (stage p1) * delta"
    using pr e Cons.prems(2) by auto
  with Cons.IH [OF _ _ rest] Cons.prems(1)
  have "deadline p' \<le> t + Suc (rank (stage p')) * TIMEOUT + rank (stage p') * delta \<and>
      (\<forall>e \<in> set es. now_at_check e < t + 3 * TIMEOUT + 2 * delta)" by simp
  moreover have "now_at_check e < t + 3 * TIMEOUT + 2 * delta"
    using pr Cons.prems(2) bound by linarith
  ultimately show ?case by simp
qed simp

text \<open>
  C28. A poll ends. Each of its three stages has three seconds; with at most \<open>delta\<close> between the check
  of the deadline and its renewal, a tick later than nine seconds and twice \<open>delta\<close> after the start
  cannot leave the poll pending: it has failed with a timeout or delivered a snapshot by then.
\<close>

theorem poll_ends:
  assumes "start ros t0 nodes = Inr p"
    and "\<And>e. e \<in> set es \<Longrightarrow> now_at_reset e \<le> now_at_check e + delta"
    and "late \<in> set es" and "t0 + 9 * 10 ^ 9 + 2 * delta \<le> now_at_check late"
  shows "\<forall>p'. ticks sj es p \<noteq> Inr (None, p')"
proof (intro allI notI)
  fix p' assume run: "ticks sj es p = Inr (None, p')"
  have "deadline p \<le> t0 + Suc (rank (stage p)) * TIMEOUT + rank (stage p) * delta"
    using start_ok [OF assms(1)] by (simp add: rank_def)
  from ticks_deadline [OF assms(2) this run] assms(3,4) show False
    by (force simp: TIMEOUT_def from_secs_def)
qed

section \<open>The kinds of parameters\<close>

definition kinds :: "string list" where
  "kinds = [''not_set'', ''bool'', ''integer'', ''double'', ''string'', ''byte_array'', ''bool_array'',
     ''integer_array'', ''double_array'', ''string_array'']"

text \<open>
  The ten kinds of the documentation: a value of type 0 to 9 gets the kind of that position, an
  array kind a JSON array as long as the array, and every other type is an error that names it.
\<close>

lemma parameter_kinds:
  "(case kind_and_value sj v of
      Inl e \<Rightarrow> 9 < type_of_parameter v \<and>
        e = Err (''unknown ROS parameter type '' @ show_nat (type_of_parameter v))
    | Inr (kind, j) \<Rightarrow> type_of_parameter v \<le> 9 \<and> kind = kinds ! type_of_parameter v \<and>
        (5 \<le> type_of_parameter v \<longleftrightarrow> suffix ''_array'' kind) \<and>
        (5 \<le> type_of_parameter v \<longrightarrow> map_option length (as_array j) = Some
          ([length (byte_array_value v), length (bool_array_value v), length (integer_array_value v),
            length (double_array_value v), length (string_array_value v)] ! (type_of_parameter v - 5))))"
proof (cases "type_of_parameter v \<le> 9")
  case True
  define t where "t = type_of_parameter v"
  from True have "t = 0 \<or> t = 1 \<or> t = 2 \<or> t = 3 \<or> t = 4 \<or> t = 5 \<or> t = 6 \<or> t = 7 \<or> t = 8 \<or> t = 9"
    unfolding t_def by arith
  then show ?thesis
    unfolding t_def by (elim disjE) (simp_all add: kind_and_value_def kinds_def suffix_def)
qed (simp add: kind_and_value_def)

text \<open>A poll of one node with the parameters \<open>a\<close> and \<open>b\<close>, listed twice and out of order.\<close>

definition sample_serde :: serde where
  "sample_serde = \<lparr>from_int = (\<lambda>n. JNumber \<lparr>num_i64 = Some n, num_u64 = None, num_f64 = None\<rparr>),
     from_f64 = (\<lambda>v. if f64_is_finite v
       then JNumber \<lparr>num_i64 = None, num_u64 = None, num_f64 = Some v\<rparr> else JNull)\<rparr>"

definition sample_discovery :: discovery where
  "sample_discovery = \<lparr>services_by_node = (\<lambda>n ns. Inr [(''/n/list_parameters'', [''rcl_interfaces/srv/ListParameters''])]),
     create_client = (\<lambda>s. Inr ())\<rparr>"

definition sample_value :: parameter_value where
  "sample_value = \<lparr>type_of_parameter = 1, bool_value = True, integer_value = 0, double_value = 0,
     string_value = [], byte_array_value = [], bool_array_value = [], integer_array_value = [],
     double_array_value = [], string_array_value = []\<rparr>"

definition sample_tick :: "instant \<Rightarrow> tick_env" where
  "sample_tick t = \<lparr>now_at_check = t, now_at_reset = t, service_is_ready = (\<lambda>s. Inr True),
     call_list = (\<lambda>s. Inr 0), call_get = (\<lambda>s ns. Inr 1),
     recv_list = (\<lambda>p. Inr (Some [''b'', ''a'', ''b''])),
     recv_get = (\<lambda>p. Inr (Some [sample_value, sample_value]))\<rparr>"

definition sample_poll :: poll where
  "sample_poll = \<lparr>clients = [\<lparr>peer_name = ''n'', peer_namespace = ''/'',
     list_client = ''/n/list_parameters'', get_client = ''/n/get_parameters''\<rparr>],
     stage = Ready, deadline = 3 * 10 ^ 9\<rparr>"

definition sample_snapshot :: "parameter list" where
  "sample_snapshot = map (\<lambda>n. \<lparr>param_node = ''n'', param_namespace = ''/'', param_name = n,
     param_kind = ''bool'', param_value = JBool True\<rparr>) [''a'', ''b'']"

lemma sample_start: "start sample_discovery 0 [(''n'', ''/''), (''n'', ''/'')] = Inr sample_poll"
  by (simp add: start_def start_peer_def sample_discovery_def sample_poll_def trim_end_slashes_def
      List.map_filter_def TIMEOUT_def from_secs_def Let_def)

lemma sample_ticks:
  "map_res fst (ticks sample_serde [sample_tick 1, sample_tick 2, sample_tick 3] sample_poll) =
    Inr (Some sample_snapshot)"
  by (simp add: sample_poll_def sample_tick_def sample_snapshot_def tick_def TIMEOUT_def from_secs_def
      unwrap_def node_parameters_def kind_and_value_def sample_value_def)

theorem poll_delivers_keys_witness:
  "\<exists>p'. ticks sample_serde [sample_tick 1, sample_tick 2, sample_tick 3] sample_poll =
      Inr (Some sample_snapshot, p') \<and> strictly_sorted (map param_key sample_snapshot)"
proof -
  obtain p' where run: "ticks sample_serde [sample_tick 1, sample_tick 2, sample_tick 3] sample_poll =
      Inr (Some sample_snapshot, p')"
    using sample_ticks by (auto simp del: ticks.simps)
  with poll_delivers_keys [OF sample_start, of sample_serde "[sample_tick 1, sample_tick 2, sample_tick 3]"]
  show ?thesis by blast
qed

theorem poll_ends_witness:
  "\<forall>p'. ticks sample_serde [sample_tick 1, sample_tick (10 ^ 10)] sample_poll \<noteq> Inr (None, p')"
  by (rule poll_ends [OF sample_start, where delta = 0 and late = "sample_tick (10 ^ 10)"])
    (auto simp: sample_tick_def)

end
