(* ===== verification/Messages.thy ===== *)
theory Messages
  imports Encoder Database Settings Diagnostics
begin

text \<open>
  \<open>src/messages.rs\<close>: the subscriptions the worker keeps for the rows of \<open>ros2.subscriptions\<close>. A
  mailbox holds the newest message of a topic until \<open>flush\<close> stores it; \<open>reconcile\<close> makes the live
  subscriptions match the table. The map of live subscriptions is an association list in the order of
  its iteration; the ROS graph and the middleware are arguments.
\<close>

section \<open>Mailboxes\<close>

record mailbox =
  mb_sequence :: u64
  mb_pending :: "(u64 \<times> string) option"
  mb_error :: "string option"

record live =
  live_type :: string
  live_mailbox :: mailbox

definition empty_mailbox :: mailbox where
  "empty_mailbox = \<lparr>mb_sequence = 0, mb_pending = None, mb_error = None\<rparr>"

definition fault_text :: "fault \<Rightarrow> string" where
  "fault_text e = (case e of Err s \<Rightarrow> s | Panic s \<Rightarrow> s)"

text \<open>The callback of a subscription; the counter wraps as an unchecked \<open>u64\<close> does.\<close>

definition callback :: "runtime \<Rightarrow> string \<Rightarrow> string \<Rightarrow> nat \<Rightarrow> message \<Rightarrow> mailbox \<Rightarrow> mailbox" where
  "callback rt topic message_type l message state =
     (let n = mb_sequence state + 1; state = state\<lparr>mb_sequence := n\<rparr>
      in case payload rt topic message_type n message l of
           Inr x \<Rightarrow> state\<lparr>mb_pending := Some (n, x)\<rparr>
         | Inl e \<Rightarrow> state\<lparr>mb_error := Some (fault_text e)\<rparr>)"

section \<open>What the table asks for\<close>

record desired =
  desired_topic :: string
  desired_type :: "string option"
  idle_seconds :: f64

text \<open>
  The query builds one JSON object for each row; \<open>epoch\<close> is the JSON number PostgreSQL makes of an
  interval in microseconds. A failed query is an argument.
\<close>

definition nullable :: "string option \<Rightarrow> json" where
  "nullable x = (case x of None \<Rightarrow> JNull | Some s \<Rightarrow> JString s)"

definition row_object :: "(int \<Rightarrow> json) \<Rightarrow> timestamp \<Rightarrow> string \<times> subscription \<Rightarrow> json" where
  "row_object epoch now = (\<lambda>(topic, r). JObject
     [(''topic'', JString topic), (''requested_type'', nullable (requested_type r)),
      (''idle_seconds'', epoch (now - keepalive_at r))])"

definition desired_of :: "json \<Rightarrow> desired option" where
  "desired_of row =
     Option.bind (get row ''topic'') (\<lambda>t. Option.bind (as_str t) (\<lambda>topic.
       Some \<lparr>desired_topic = topic,
         desired_type = Option.bind (get row ''requested_type'') as_str,
         idle_seconds = (case Option.bind (get row ''idle_seconds'') as_f64 of None \<Rightarrow> 0 | Some v \<Rightarrow> v)\<rparr>))"

definition read_desired ::
  "(int \<Rightarrow> json) \<Rightarrow> stmt_env \<Rightarrow> string option \<Rightarrow> database \<Rightarrow> string + desired list"
where
  "read_desired epoch env failure db =
     (case installed_extension db of
        None \<Rightarrow> Inr []
      | Some _ \<Rightarrow>
          (case failure of
             Some e \<Rightarrow> Inl e
           | None \<Rightarrow>
               (case as_array (JArray (map (row_object epoch (statement_timestamp env)) (subscriptions_table db))) of
                  None \<Rightarrow> Inr []
                | Some rows \<Rightarrow> Inr (List.map_filter desired_of rows))))"

section \<open>Subscribing\<close>

text \<open>
  The middleware: the advertised topics, whether a type name parses, and whether a subscription of
  that type can be created.
\<close>

record middleware =
  topic_types :: "error + (string \<times> string list) list"
  parse_type :: "string \<Rightarrow> error + unit"
  create_subscription :: "string \<Rightarrow> string \<Rightarrow> error + unit"

definition described :: "error + 'a \<Rightarrow> string + 'a" where
  "described r = (case r of Inl e \<Rightarrow> Inl (describe e) | Inr a \<Rightarrow> Inr a)"

definition resolve :: "middleware \<Rightarrow> string \<Rightarrow> string + string" where
  "resolve node topic =
     (case described (topic_types node) of
        Inl e \<Rightarrow> Inl e
      | Inr topics \<Rightarrow>
          (case map_of topics topic of
             Some [t] \<Rightarrow> Inr t
           | Some _ \<Rightarrow> Inl ''topic has multiple message types; set requested_type''
           | None \<Rightarrow> Inl (''topic '' @ topic @ '' has no advertised message type yet'')))"

definition ament_hint :: string where
  "ament_hint = '' (message packages are resolved from the database server'' @ [CHR 0x27] @
     ''s AMENT_PREFIX_PATH; start the server with the ROS environment sourced)''"

definition subscribe :: "middleware \<Rightarrow> string \<Rightarrow> string option \<Rightarrow> string + live" where
  "subscribe node topic requested =
     (case (case requested of Some kind \<Rightarrow> if kind \<noteq> [] then Inr kind else resolve node topic
            | None \<Rightarrow> resolve node topic) of
        Inl e \<Rightarrow> Inl e
      | Inr message_type \<Rightarrow>
          (case described (parse_type node message_type) of
             Inl e \<Rightarrow> Inl e
           | Inr _ \<Rightarrow>
               (case create_subscription node topic message_type of
                  Inl e \<Rightarrow> Inl (describe e @ ament_hint)
                | Inr _ \<Rightarrow> Inr \<lparr>live_type = message_type, live_mailbox = empty_mailbox\<rparr>)))"

section \<open>Reconciling\<close>

type_synonym topics = "(string \<times> live) list"

definition contains_key :: "topics \<Rightarrow> string \<Rightarrow> bool" where
  "contains_key ts t \<longleftrightarrow> map_of ts t \<noteq> None"

record plan =
  plan_topics :: topics
  plan_wanted :: "string list"
  plan_metadata :: "(string \<times> string option \<times> string option) list"
  plan_expired :: "string list"

text \<open>One pass of the loop over the desired rows.\<close>

definition plan_entry :: "settings \<Rightarrow> middleware \<Rightarrow> desired \<Rightarrow> plan \<Rightarrow> plan" where
  "plan_entry s node entry p =
     (let ttl = f64_of_i32 (subscription_ttl_seconds s); topic = desired_topic entry
      in if f64_gt ttl 0 \<and> f64_gt (idle_seconds entry) ttl
         then p\<lparr>plan_expired := plan_expired p @ [topic], plan_topics := AList.delete topic (plan_topics p)\<rparr>
         else let p = p\<lparr>plan_wanted := plan_wanted p @ [topic]\<rparr>
           in if contains_key (plan_topics p) topic then p
              else (case subscribe node topic (desired_type entry) of
                Inr l \<Rightarrow> p\<lparr>plan_metadata := plan_metadata p @ [(topic, Some (live_type l), None)],
                   plan_topics := AList.update topic l (plan_topics p)\<rparr>
              | Inl e \<Rightarrow> p\<lparr>plan_metadata := plan_metadata p @ [(topic, None, Some e)]\<rparr>))"

definition apply_metadata ::
  "string \<times> string option \<times> string option \<Rightarrow> (string \<times> subscription) list \<Rightarrow> (string \<times> subscription) list"
where
  "apply_metadata = (\<lambda>(topic, message_type, failure) t.
     (case (message_type, failure) of
        (Some kind, _) \<Rightarrow> update_where topic (\<lambda>r. r\<lparr>subscribed_type := Some kind, subscription_error := None\<rparr>) t
      | (None, Some e) \<Rightarrow> update_where topic (\<lambda>r. r\<lparr>subscription_error := Some e\<rparr>) t
      | (None, None) \<Rightarrow> t))"

definition reconcile_write :: "plan \<Rightarrow> string list \<Rightarrow> database \<Rightarrow> database" where
  "reconcile_write p removed db =
     (case installed_extension db of
        None \<Rightarrow> db
      | Some _ \<Rightarrow>
          (let db = db\<lparr>subscriptions_table := fold apply_metadata (plan_metadata p) (subscriptions_table db)\<rparr>;
               db = db\<lparr>messages_table := fold delete_where (removed @ plan_expired p) (messages_table db)\<rparr>
           in db\<lparr>subscriptions_table := fold delete_where (plan_expired p) (subscriptions_table db)\<rparr>))"

definition make_plan :: "settings \<Rightarrow> middleware \<Rightarrow> desired list \<Rightarrow> topics \<Rightarrow> plan \<times> string list" where
  "make_plan s node wishes topics =
     (let p = fold (plan_entry s node) wishes
            \<lparr>plan_topics = topics, plan_wanted = [], plan_metadata = [], plan_expired = []\<rparr>;
          removed = map fst (filter (\<lambda>(t, l). t \<notin> set (plan_wanted p)) (plan_topics p))
      in (p\<lparr>plan_topics := filter (\<lambda>(t, l). t \<in> set (plan_wanted p)) (plan_topics p)\<rparr>, removed))"

text \<open>
  The table is read in one transaction and written in a second one: \<open>db\<close> is the database of the
  first, \<open>meanwhile\<close> what other sessions commit after it. A transaction that fails is a panic, which
  comes with the database it leaves.
\<close>

definition reconcile ::
  "settings \<Rightarrow> middleware \<Rightarrow> (int \<Rightarrow> json) \<Rightarrow> stmt_env \<Rightarrow> stmt_env \<Rightarrow> string option \<Rightarrow> (database \<Rightarrow> database) \<Rightarrow>
    database \<Rightarrow> topics \<Rightarrow> fault \<times> database + (string + unit) \<times> database \<times> topics"
where
  "reconcile s node epoch env env' failure meanwhile db topics =
     (case transaction env (Inr (read_desired epoch env failure db)) of
        Inl f \<Rightarrow> Inl (f, db)
      | Inr (Inl e) \<Rightarrow> Inr (Inl e, meanwhile db, topics)
      | Inr (Inr wishes) \<Rightarrow>
          (let (p, removed) = make_plan s node wishes topics
           in if plan_metadata p = [] \<and> plan_expired p = [] \<and> removed = [] then Inr (Inr (), meanwhile db, plan_topics p)
              else (case transaction env' (Inr (reconcile_write p removed (meanwhile db))) of
                  Inl f \<Rightarrow> Inl (f, meanwhile db)
                | Inr db' \<Rightarrow> Inr (Inr (), db', plan_topics p))))"

section \<open>Storing the messages\<close>

definition drain ::
  "(string \<Rightarrow> string + json) \<Rightarrow> string \<times> live \<Rightarrow> (string \<times> u64 \<times> json) list \<times> (string \<times> string) list"
where
  "drain from_str = (\<lambda>(topic, l).
     (let (ms, es) = (case mb_pending (live_mailbox l) of
            None \<Rightarrow> ([], [])
          | Some (n, x) \<Rightarrow> (case from_str x of Inr v \<Rightarrow> ([(topic, n, v)], []) | Inl e \<Rightarrow> ([], [(topic, e)])))
      in (ms, es @ (case mb_error (live_mailbox l) of None \<Rightarrow> [] | Some e \<Rightarrow> [(topic, e)]))))"

definition emptied :: "live \<Rightarrow> live" where
  "emptied l = l\<lparr>live_mailbox := (live_mailbox l)\<lparr>mb_pending := None, mb_error := None\<rparr>\<rparr>"

definition store_message :: "stmt_env \<Rightarrow> string \<times> u64 \<times> json \<Rightarrow> database \<Rightarrow> database res" where
  "store_message env = (\<lambda>(topic, n, v) db.
     map_res (\<lambda>v. db\<lparr>messages_table := upsert topic
          \<lparr>cached_sequence = n, received_at = statement_timestamp env, cached_body = v\<rparr> (messages_table db),
        subscriptions_table := update_where topic
          (\<lambda>r. r\<lparr>last_message_at := Some (statement_timestamp env), subscription_error := None\<rparr>)
          (subscriptions_table db)\<rparr>) (jsonb env v))"

definition store_error :: "string \<times> string \<Rightarrow> database \<Rightarrow> database" where
  "store_error = (\<lambda>(topic, e) db.
     db\<lparr>subscriptions_table := update_where topic (\<lambda>r. r\<lparr>subscription_error := Some e\<rparr>) (subscriptions_table db)\<rparr>)"

text \<open>The mailboxes are emptied before the transaction starts.\<close>

definition flush ::
  "(string \<Rightarrow> string + json) \<Rightarrow> stmt_env \<Rightarrow> database \<Rightarrow> topics \<Rightarrow> (database \<times> topics) res"
where
  "flush from_str env db topics =
     (let messages = concat (map (fst \<circ> drain from_str) topics);
          errors = concat (map (snd \<circ> drain from_str) topics);
          topics' = map (\<lambda>(t, l). (t, emptied l)) topics
      in if messages = [] \<and> errors = [] then Inr (db, topics')
         else map_res (\<lambda>db'. (db', topics')) (transaction env
           (case installed_extension db of
              None \<Rightarrow> Inr db
            | Some _ \<Rightarrow> map_res (fold store_error errors) (fold_res (store_message env) messages db))))"

section \<open>A mailbox holds the newest message\<close>

text \<open>What the encoder makes of each message of a run, with the number the callback gives it.\<close>

fun attempts :: "runtime \<Rightarrow> string \<Rightarrow> string \<Rightarrow> nat \<Rightarrow> u64 \<Rightarrow> message list \<Rightarrow> (u64 \<times> string res) list" where
  "attempts rt topic ty l n [] = []"
| "attempts rt topic ty l n (m # ms) =
     (n + 1, payload rt topic ty (n + 1) m l) # attempts rt topic ty l (n + 1) ms"

definition encoded :: "(u64 \<times> string res) list \<Rightarrow> (u64 \<times> string) list" where
  "encoded as = concat (map (\<lambda>(n, r). case r of Inl _ \<Rightarrow> [] | Inr x \<Rightarrow> [(n, x)]) as)"

definition refused :: "(u64 \<times> string res) list \<Rightarrow> string list" where
  "refused as = concat (map (\<lambda>(n, r). case r of Inl e \<Rightarrow> [fault_text e] | Inr _ \<Rightarrow> []) as)"

definition newest :: "'a list \<Rightarrow> 'a option \<Rightarrow> 'a option" where
  "newest xs old = (if xs = [] then old else Some (last xs))"

lemma newest_simps [simp]: "newest [] old = old" "newest (x # xs) old = newest xs (Some x)"
  by (simp_all add: newest_def)

lemma attempts_limit: "(n, Inr x) \<in> set (attempts rt topic ty l k ms) \<Longrightarrow> length x \<le> l"
proof (induction ms arbitrary: k)
  case (Cons m ms)
  then show ?case using payload_limit [of rt topic ty "k + 1" m l x] by auto
qed simp

text \<open>
  C23. After any run of callbacks a mailbox holds the last message that could be encoded, numbered by
  its position in the run, and the last error; every message counts, encoded or not, and the pending
  payload never exceeds the limit, however long the run.
\<close>

theorem mailbox_keeps_newest:
  "fold (callback rt topic ty l) ms state =
    \<lparr>mb_sequence = mb_sequence state + of_nat (length ms),
     mb_pending = newest (encoded (attempts rt topic ty l (mb_sequence state) ms)) (mb_pending state),
     mb_error = newest (refused (attempts rt topic ty l (mb_sequence state) ms)) (mb_error state)\<rparr> \<and>
   list_all (\<lambda>(n, x). length x \<le> l) (encoded (attempts rt topic ty l (mb_sequence state) ms))"
proof
  show "fold (callback rt topic ty l) ms state =
    \<lparr>mb_sequence = mb_sequence state + of_nat (length ms),
     mb_pending = newest (encoded (attempts rt topic ty l (mb_sequence state) ms)) (mb_pending state),
     mb_error = newest (refused (attempts rt topic ty l (mb_sequence state) ms)) (mb_error state)\<rparr>"
  proof (induction ms arbitrary: state)
    case (Cons m ms)
    show ?case
      using Cons.IH [of "callback rt topic ty l m state"]
      by (cases "payload rt topic ty (mb_sequence state + 1) m l")
        (simp_all add: callback_def Let_def encoded_def refused_def add.assoc)
  qed (simp add: encoded_def refused_def)
  show "list_all (\<lambda>(n, x). length x \<le> l) (encoded (attempts rt topic ty l (mb_sequence state) ms))"
    by (auto simp: encoded_def list_all_iff split: sum.splits dest: attempts_limit)
qed

lemma callbacks_sequence: "mb_sequence (fold (callback rt topic ty l) ms state) = mb_sequence state + of_nat (length ms)"
  by (induction ms arbitrary: state) (auto simp: callback_def Let_def add.assoc split: sum.split)

lemma callback_pending:
  "payload rt topic ty (mb_sequence state + 1) m l = Inr x \<Longrightarrow>
    mb_pending (callback rt topic ty l m state) = Some (mb_sequence state + 1, x)"
  by (simp add: callback_def Let_def)

section \<open>Storing\<close>

definition stored :: "stmt_env \<Rightarrow> string \<times> u64 \<times> json \<Rightarrow> string \<times> cached_message" where
  "stored env = (\<lambda>(t, n, v). (t, \<lparr>cached_sequence = n, received_at = statement_timestamp env, cached_body = v\<rparr>))"

lemma store_message_Inr:
  "store_message env (t, n, v) db = Inr db' \<Longrightarrow> jsonb_error env v = None \<and>
    messages_table db' = upsert t (snd (stored env (t, n, v))) (messages_table db) \<and>
    map fst (subscriptions_table db') = map fst (subscriptions_table db) \<and> extension db' = extension db \<and>
    nodes_table db' = nodes_table db \<and> topics_table db' = topics_table db \<and> parameters_table db' = parameters_table db"
  by (auto simp: store_message_def stored_def)

lemma store_message_Inl: "store_message env (t, n, v) db = Inl f \<longleftrightarrow> (\<exists>e. jsonb_error env v = Some e \<and> f = Panic e)"
  by (simp add: store_message_def)

lemma stored_messages:
  "fold_res (store_message env) ms db = Inr db' \<Longrightarrow>
    messages_table db' = topic_table.put_all (map (stored env) ms) (messages_table db) \<and>
    map fst (subscriptions_table db') = map fst (subscriptions_table db) \<and> extension db' = extension db \<and>
    nodes_table db' = nodes_table db \<and> topics_table db' = topics_table db \<and> parameters_table db' = parameters_table db \<and>
    list_all (\<lambda>(t, n, v). jsonb_error env v = None) ms"
proof (induction ms arbitrary: db)
  case (Cons m ms)
  obtain t n v where m: "m = (t, n, v)" by (rule prod_cases3)
  from Cons.prems obtain db1 where db1: "store_message env m db = Inr db1" "fold_res (store_message env) ms db1 = Inr db'"
    by auto
  from Cons.IH [OF db1(2)] store_message_Inr [OF db1(1) [unfolded m]] show ?case
    by (simp add: m topic_table.put_all_def) (simp add: stored_def)
qed (simp add: topic_table.put_all_def)

lemma stores_accepted:
  "list_all (\<lambda>(t, n, v). jsonb_error env v = None) ms \<Longrightarrow> \<exists>db'. fold_res (store_message env) ms db = Inr db'"
  by (induction ms arbitrary: db) (auto simp: store_message_def jsonb_def)

lemma stores_refused:
  "fold_res (store_message env) ms db = Inl f \<Longrightarrow>
    \<exists>t n v e. (t, n, v) \<in> set ms \<and> jsonb_error env v = Some e \<and> f = Panic e"
proof (induction ms arbitrary: db)
  case (Cons m ms)
  obtain t n v where m: "m = (t, n, v)" by (rule prod_cases3)
  show ?case
  proof (cases "store_message env m db")
    case (Inl f')
    then have "f' = f" using Cons.prems by simp
    with Inl show ?thesis unfolding m store_message_Inl by auto
  next
    case (Inr db1)
    then show ?thesis using Cons.prems Cons.IH [of db1] by auto
  qed
qed simp

lemma stored_error_keys [simp]:
  "map fst (subscriptions_table (fold store_error es db)) = map fst (subscriptions_table db)"
  "messages_table (fold store_error es db) = messages_table db"
  "extension (fold store_error es db) = extension db"
  "nodes_table (fold store_error es db) = nodes_table db" "topics_table (fold store_error es db) = topics_table db"
  "parameters_table (fold store_error es db) = parameters_table db"
  by (induction es arbitrary: db) (auto simp: store_error_def)

text \<open>What a flush finds in the mailbox of a topic: the number and the parsed payload.\<close>

definition deliverable :: "(string \<Rightarrow> string + json) \<Rightarrow> topics \<Rightarrow> string \<Rightarrow> (u64 \<times> json) option" where
  "deliverable from_str topics t =
     Option.bind (map_of topics t) (\<lambda>l. Option.bind (mb_pending (live_mailbox l)) (\<lambda>(n, x).
       case from_str x of Inl e \<Rightarrow> None | Inr v \<Rightarrow> Some (n, v)))"

lemma drained_messages:
  assumes "distinct (map fst topics)"
  shows "distinct (map fst (concat (map (fst \<circ> drain from_str) topics))) \<and>
    (\<forall>t n v. (t, n, v) \<in> set (concat (map (fst \<circ> drain from_str) topics)) \<longleftrightarrow>
      deliverable from_str topics t = Some (n, v))"
  using assms
proof (induction topics)
  case (Cons p topics)
  obtain t l where p: "p = (t, l)" by (cases p)
  have keys: "t' = t" if "(t', n, v) \<in> set (fst (drain from_str p))" for t' n v
    using that by (auto simp: p drain_def Let_def split: option.splits sum.splits prod.splits if_splits)
  have one: "(t', n, v) \<in> set (fst (drain from_str p)) \<longleftrightarrow> t' = t \<and> deliverable from_str [(t, l)] t = Some (n, v)"
    for t' n v
    by (auto simp: p drain_def Let_def deliverable_def split: option.splits sum.splits prod.splits if_splits)
  have len: "length (fst (drain from_str p)) \<le> 1"
    by (auto simp: p drain_def Let_def split: option.splits sum.splits prod.splits)
  then have d1: "distinct (map fst (fst (drain from_str p)))"
    by (cases "fst (drain from_str p)") auto
  have tail: "deliverable from_str topics t' = deliverable from_str (p # topics) t'" if "t' \<noteq> t" for t'
    using that by (simp add: deliverable_def p)
  have none: "map_of topics t = None" using Cons.prems by (simp add: p map_of_eq_None_iff)
  have head: "deliverable from_str (p # topics) t = deliverable from_str [(t, l)] t"
    "deliverable from_str topics t = None"
    using none by (simp_all add: deliverable_def p)
  have "distinct (map fst topics)" using Cons.prems by simp
  note IH = conjunct1 [OF Cons.IH [OF this]] conjunct2 [OF Cons.IH [OF this], rule_format]
  define rest where "rest = concat (map (fst \<circ> drain from_str) topics)"
  have split: "concat (map (fst \<circ> drain from_str) (p # topics)) = fst (drain from_str p) @ rest"
    by (simp add: rest_def)
  note IH = IH [folded rest_def]
  have "t \<notin> fst ` set rest" using IH(2) [of t] head(2) by auto
  moreover have "fst ` set (fst (drain from_str p)) \<subseteq> {t}" using keys by force
  ultimately have "distinct (map fst (fst (drain from_str p) @ rest))"
    using d1 IH(1) by auto
  moreover have "(t', n, v) \<in> set (fst (drain from_str p) @ rest) \<longleftrightarrow>
      deliverable from_str (p # topics) t' = Some (n, v)" for t' n v
    using one [of t' n v] IH(2) [of t' n v] head tail [of t'] by (cases "t' = t") auto
  ultimately show ?case unfolding split by blast
qed (simp add: deliverable_def)

lemma emptied_emptied [simp]: "emptied (emptied l) = emptied l"
  by (simp add: emptied_def)

lemma drain_emptied [simp]: "drain from_str (t, emptied l) = ([], [])"
  by (simp add: drain_def emptied_def)

lemma flush_topics: "flush from_str env db topics = Inr (db', topics') \<Longrightarrow> topics' = map (\<lambda>(t, l). (t, emptied l)) topics"
  by (auto simp: flush_def Let_def split: if_splits)

lemma flush_emptied: "flush from_str env db (map (\<lambda>(t, l). (t, emptied l)) topics) =
  Inr (db, map (\<lambda>(t, l). (t, emptied l)) topics)"
proof -
  have "concat (map (fst \<circ> drain from_str) (map (\<lambda>(t, l). (t, emptied l)) topics)) = []"
    "concat (map (snd \<circ> drain from_str) (map (\<lambda>(t, l). (t, emptied l)) topics)) = []"
    by (induction topics) auto
  then show ?thesis by (simp add: flush_def comp_def case_prod_unfold)
qed

text \<open>A flush fails when PostgreSQL raises an error in its transaction or refuses one of the messages.\<close>

lemma flush_fails:
  assumes "flush from_str env db topics = Inl f" and "distinct (map fst topics)"
  shows "(\<exists>e. sql_error env = Some e \<and> f = Panic e) \<or>
    (\<exists>t n v e. deliverable from_str topics t = Some (n, v) \<and> jsonb_error env v = Some e \<and> f = Panic e)"
proof (cases "sql_error env")
  case None
  with assms(1) have "fold_res (store_message env) (concat (map (fst \<circ> drain from_str) topics)) db = Inl f"
    by (auto simp: flush_def Let_def transaction_def split: if_splits option.splits)
  from stores_refused [OF this] drained_messages [OF assms(2), of from_str] show ?thesis by blast
next
  case (Some e)
  with assms(1) show ?thesis by (auto simp: flush_def Let_def transaction_def split: if_splits)
qed

text \<open>A message that PostgreSQL refuses makes the whole flush fail.\<close>

lemma flush_refused:
  assumes "distinct (map fst topics)" and "extension db \<noteq> None"
    and "deliverable from_str topics t = Some (n, v)" and "jsonb_error env v \<noteq> None"
  shows "\<exists>f. flush from_str env db topics = Inl f"
proof -
  have "(t, n, v) \<in> set (concat (map (fst \<circ> drain from_str) topics))"
    using drained_messages [OF assms(1)] assms(3) by blast
  then have "concat (map (fst \<circ> drain from_str) topics) \<noteq> []" and
    "\<not> list_all (\<lambda>(t, n, v). jsonb_error env v = None) (concat (map (fst \<circ> drain from_str) topics))"
    using assms(4) by (force simp: list_all_iff simp del: set_concat concat_eq_Nil_conv)+
  then show ?thesis using assms(2) stored_messages
    by (cases "fold_res (store_message env) (concat (map (fst \<circ> drain from_str) topics)) db")
      (auto simp: flush_def Let_def transaction_def simp del: concat_eq_Nil_conv split: option.split)
qed

lemma flush_tables:
  assumes "flush from_str env db topics = Inr (db', topics')" and "extension db = Some e"
  shows "map fst (subscriptions_table db') = map fst (subscriptions_table db)"
    and "extension db' = extension db" and "nodes_table db' = nodes_table db" and "topics_table db' = topics_table db"
    and "parameters_table db' = parameters_table db"
    and "messages_table db' =
      topic_table.put_all (map (stored env) (concat (map (fst \<circ> drain from_str) topics))) (messages_table db)"
proof -
  let ?ms = "concat (map (fst \<circ> drain from_str) topics)" and ?es = "concat (map (snd \<circ> drain from_str) topics)"
  have "?ms = [] \<and> db' = db \<or> (\<exists>db1. fold_res (store_message env) ?ms db = Inr db1 \<and> db' = fold store_error ?es db1)"
    using assms unfolding flush_def Let_def installed_extension_eq assms(2)
    by (simp del: concat_eq_Nil_conv split: if_splits)
  then have "messages_table db' = topic_table.put_all (map (stored env) ?ms) (messages_table db) \<and>
    map fst (subscriptions_table db') = map fst (subscriptions_table db) \<and> extension db' = extension db \<and>
    nodes_table db' = nodes_table db \<and> topics_table db' = topics_table db \<and> parameters_table db' = parameters_table db"
    using stored_messages [of env ?ms db]
    by (elim disjE exE conjE) (simp_all add: topic_table.put_all_def del: map_concat concat_eq_Nil_conv)
  then show "map fst (subscriptions_table db') = map fst (subscriptions_table db)"
    and "extension db' = extension db" and "nodes_table db' = nodes_table db" and "topics_table db' = topics_table db"
    and "parameters_table db' = parameters_table db"
    and "messages_table db' = topic_table.put_all (map (stored env) ?ms) (messages_table db)" by blast+
qed

lemma flush_absent: "extension db = None \<Longrightarrow> flush from_str env db topics = Inr (db', topics') \<Longrightarrow> db' = db"
  by (auto simp: flush_def Let_def split: if_splits)

lemma flush_finds:
  assumes "distinct (map fst topics)" and "extension db = Some e"
    and "flush from_str env db topics = Inr (db', topics')"
  shows "map_of (messages_table db') t =
      (case deliverable from_str topics t of
         Some (n, v) \<Rightarrow> Some \<lparr>cached_sequence = n, received_at = statement_timestamp env, cached_body = v\<rparr>
       | None \<Rightarrow> map_of (messages_table db) t)"
proof -
  let ?ms = "concat (map (fst \<circ> drain from_str) topics)"
  let ?rows = "map (stored env) ?ms"
  note table = flush_tables(6) [OF assms(3,2)]
  have keys: "map fst ?rows = map fst ?ms" by (simp add: stored_def case_prod_unfold del: map_concat)
  note d = drained_messages [OF assms(1), of from_str]
  show ?thesis
  proof (cases "deliverable from_str topics t")
    case None
    with d have "t \<notin> fst ` set ?ms" by fastforce
    then have "t \<notin> set (map fst ?rows)" unfolding keys by simp
    then have "map_of (topic_table.put_all ?rows (messages_table db)) t = map_of (messages_table db) t"
      by (intro topic_table.find_put_all_other) (simp only: set_map not_False_eq_True)
    then show ?thesis using table None by simp
  next
    case (Some nv)
    obtain n v where nv: "nv = (n, v)" by (cases nv)
    with d Some have "stored env (t, n, v) \<in> set ?rows" by (simp only: set_map) blast
    moreover have "distinct (map fst ?rows)" unfolding keys using d by blast
    ultimately show ?thesis using table Some nv
      by (simp only: topic_table.find_put_all stored_def option.case prod.case)
  qed
qed

text \<open>
  What a flush reports for a topic: the last error of its callback, or else that its payload does not parse.
\<close>

definition failing :: "(string \<Rightarrow> string + json) \<Rightarrow> topics \<Rightarrow> string \<Rightarrow> string option" where
  "failing from_str topics t =
     Option.bind (map_of topics t) (\<lambda>l.
       case mb_error (live_mailbox l) of
         Some e \<Rightarrow> Some e
       | None \<Rightarrow> Option.bind (mb_pending (live_mailbox l)) (\<lambda>(n, x).
           case from_str x of Inl e \<Rightarrow> Some e | Inr v \<Rightarrow> None))"

text \<open>The row of a topic after a flush, given the message stored for it and the error reported for it.\<close>

definition flushed_row :: "timestamp \<Rightarrow> (u64 \<times> json) option \<Rightarrow> string option \<Rightarrow> subscription \<Rightarrow> subscription" where
  "flushed_row now message failure r =
     (let r = (if message = None then r else r\<lparr>last_message_at := Some now, subscription_error := None\<rparr>)
      in case failure of None \<Rightarrow> r | Some e \<Rightarrow> r\<lparr>subscription_error := Some e\<rparr>)"

lemma stored_rows:
  "fold_res (store_message env) ms db = Inr db' \<Longrightarrow> map_of (subscriptions_table db') t =
     map_option (\<lambda>r. if t \<in> fst ` set ms
       then r\<lparr>last_message_at := Some (statement_timestamp env), subscription_error := None\<rparr> else r)
     (map_of (subscriptions_table db) t)"
proof (induction ms arbitrary: db)
  case (Cons m ms)
  obtain k n v where m: "m = (k, n, v)" by (rule prod_cases3)
  from Cons.prems obtain db1 where db1: "store_message env m db = Inr db1" "fold_res (store_message env) ms db1 = Inr db'"
    by auto
  from db1(1) have "subscriptions_table db1 = update_where k
      (\<lambda>r. r\<lparr>last_message_at := Some (statement_timestamp env), subscription_error := None\<rparr>) (subscriptions_table db)"
    by (auto simp: m store_message_def)
  with Cons.IH [OF db1(2)] show ?case by (auto simp: m map_of_update_where option.map_comp comp_def intro!: map_option_cong)
qed (simp add: option.map_ident)

lemma noted_rows:
  "map_of (subscriptions_table (fold store_error es db)) t =
     map_option (\<lambda>r. case filter (\<lambda>p. fst p = t) es of [] \<Rightarrow> r | p # ps \<Rightarrow> r\<lparr>subscription_error := Some (snd (last (p # ps)))\<rparr>)
     (map_of (subscriptions_table db) t)"
proof (induction es arbitrary: db)
  case (Cons p es)
  obtain k e where p: "p = (k, e)" by (cases p)
  show ?case
  proof -
    have "subscriptions_table (store_error (k, e) db) = update_where k (\<lambda>r. r\<lparr>subscription_error := Some e\<rparr>) (subscriptions_table db)"
      by (simp add: store_error_def)
    then show ?thesis using Cons.IH [of "store_error (k, e) db"]
      by (cases "filter (\<lambda>p. fst p = t) es")
        (auto simp: p map_of_update_where option.map_comp comp_def intro!: map_option_cong)
  qed
qed (simp add: option.map_ident)

lemma drained_errors:
  assumes "distinct (map fst topics)"
  shows "filter (\<lambda>p. fst p = t) (concat (map (snd \<circ> drain from_str) topics)) =
    (case map_of topics t of None \<Rightarrow> [] | Some l \<Rightarrow> snd (drain from_str (t, l)))"
  using assms
proof (induction topics)
  case (Cons p topics)
  obtain k l where p: "p = (k, l)" by (cases p)
  have "filter (\<lambda>q. fst q = t) (snd (drain from_str (k, l))) = (if k = t then snd (drain from_str (k, l)) else [])"
    by (auto simp: drain_def Let_def split: option.split sum.split prod.split)
  moreover have "map_of topics k = None" using Cons.prems by (simp add: p map_of_eq_None_iff)
  ultimately show ?case using Cons by (simp add: p)
qed simp

lemma failing_drained:
  "failing from_str topics t = (case map_of topics t of None \<Rightarrow> None
     | Some l \<Rightarrow> (case snd (drain from_str (t, l)) of [] \<Rightarrow> None | p # ps \<Rightarrow> Some (snd (last (p # ps)))))"
  by (auto simp: failing_def drain_def Let_def split: option.split sum.split prod.split)

lemma flush_rows:
  assumes "distinct (map fst topics)" and "extension db = Some e"
    and "flush from_str env db topics = Inr (db', topics')"
  shows "map_of (subscriptions_table db') t =
    map_option (flushed_row (statement_timestamp env) (deliverable from_str topics t) (failing from_str topics t))
      (map_of (subscriptions_table db) t)"
proof -
  let ?ms = "concat (map (fst \<circ> drain from_str) topics)" and ?es = "concat (map (snd \<circ> drain from_str) topics)"
  have "t \<in> fst ` set ?ms \<longleftrightarrow> deliverable from_str topics t \<noteq> None"
    using drained_messages [OF assms(1), of from_str] by (cases "deliverable from_str topics t") force+
  moreover have "failing from_str topics t = (case filter (\<lambda>p. fst p = t) ?es of [] \<Rightarrow> None | p # ps \<Rightarrow> Some (snd (last (p # ps))))"
    unfolding drained_errors [OF assms(1)] failing_drained by (simp split: option.split)
  moreover have "\<exists>db1. fold_res (store_message env) ?ms db = Inr db1 \<and> db' = fold store_error ?es db1"
  proof (cases "?ms = [] \<and> ?es = []")
    case True
    with assms(3) show ?thesis by (simp add: flush_def del: concat_eq_Nil_conv)
  next
    case False
    with assms(3) show ?thesis unfolding flush_def Let_def installed_extension_eq assms(2)
      by (simp del: concat_eq_Nil_conv split: if_splits)
  qed
  then obtain db1 where db1: "fold_res (store_message env) ?ms db = Inr db1" "db' = fold store_error ?es db1" by blast
  ultimately show ?thesis unfolding db1(2) noted_rows stored_rows [OF db1(1)]
    by (simp only: option.map_comp) (auto simp: flushed_row_def Let_def comp_def intro!: map_option_cong split: list.split)
qed

text \<open>
  C16. A flush that commits stores, for every live topic, the message pending in its mailbox under its
  number, leaves the cached messages of all other topics alone, creates no subscription row, notes in the row of
  each topic the time of its message and its last error, and only these, and empties the mailboxes, so
  that a second flush changes nothing. It commits unless PostgreSQL raises an
  error or refuses one of the messages; then it stores none of them.
\<close>

theorem flush_stores_pending:
  assumes "distinct (map fst topics)" and "extension db = Some e"
  shows "case flush from_str env db topics of
      Inr (db', topics') \<Rightarrow>
        map_of (messages_table db') t =
          (case deliverable from_str topics t of
             Some (n, v) \<Rightarrow> Some \<lparr>cached_sequence = n, received_at = statement_timestamp env, cached_body = v\<rparr>
           | None \<Rightarrow> map_of (messages_table db) t) \<and>
        map fst (subscriptions_table db') = map fst (subscriptions_table db) \<and>
        map_of (subscriptions_table db') t =
          map_option (flushed_row (statement_timestamp env) (deliverable from_str topics t) (failing from_str topics t))
            (map_of (subscriptions_table db) t) \<and>
        flush from_str env' db' topics' = Inr (db', topics')
    | Inl f \<Rightarrow> (\<exists>e. f = Panic e \<and> (sql_error env = Some e \<or>
        (\<exists>t n v. deliverable from_str topics t = Some (n, v) \<and> jsonb_error env v = Some e)))"
proof (cases "flush from_str env db topics")
  case (Inl f)
  from flush_fails [OF Inl assms(1)] show ?thesis unfolding Inl by auto
next
  case (Inr x)
  obtain db' topics' where x: "x = (db', topics')" by (cases x)
  note run = Inr [unfolded x]
  show ?thesis unfolding run
    using flush_finds [OF assms run] flush_rows [OF assms run] flush_tables(1) [OF run assms(2)] flush_emptied flush_topics [OF run] by auto
qed

section \<open>Reconciling\<close>

definition row_idle :: "(int \<Rightarrow> json) \<Rightarrow> timestamp \<Rightarrow> subscription \<Rightarrow> f64" where
  "row_idle epoch now r = (case as_f64 (epoch (now - keepalive_at r)) of None \<Rightarrow> 0 | Some v \<Rightarrow> v)"

definition expired :: "settings \<Rightarrow> f64 \<Rightarrow> bool" where
  "expired s idle \<longleftrightarrow> (let ttl = f64_of_i32 (subscription_ttl_seconds s) in f64_gt ttl 0 \<and> f64_gt idle ttl)"

definition row_expired :: "settings \<Rightarrow> (int \<Rightarrow> json) \<Rightarrow> timestamp \<Rightarrow> subscription \<Rightarrow> bool" where
  "row_expired s epoch now r = expired s (row_idle epoch now r)"

lemma desired_of_row:
  "desired_of (row_object epoch now (t, r)) =
     Some \<lparr>desired_topic = t, desired_type = requested_type r, idle_seconds = row_idle epoch now r\<rparr>"
  by (simp add: desired_of_def row_object_def get_def row_idle_def nullable_def split: option.splits)

lemma read_rows:
  assumes "extension db = Some e" and "read_desired epoch env failure db = Inr wishes"
  shows "wishes = map (\<lambda>(t, r). \<lparr>desired_topic = t, desired_type = requested_type r,
    idle_seconds = row_idle epoch (statement_timestamp env) r\<rparr>) (subscriptions_table db)"
proof -
  have "List.map_filter desired_of (map (row_object epoch now) rows) =
      map (\<lambda>(t, r). \<lparr>desired_topic = t, desired_type = requested_type r, idle_seconds = row_idle epoch now r\<rparr>) rows"
    for now rows
    by (induction rows) (auto simp: List.map_filter_def desired_of_row)
  with assms show ?thesis by (simp add: read_desired_def split: option.splits)
qed

text \<open>What is recorded for a row: the outcome of subscribing, when it was tried.\<close>

definition wish_metadata ::
  "settings \<Rightarrow> middleware \<Rightarrow> topics \<Rightarrow> desired \<Rightarrow> (string \<times> string option \<times> string option) list"
where
  "wish_metadata s node topics d =
     (if expired s (idle_seconds d) \<or> contains_key topics (desired_topic d) then []
      else case subscribe node (desired_topic d) (desired_type d) of
        Inr l \<Rightarrow> [(desired_topic d, Some (live_type l), None)]
      | Inl e \<Rightarrow> [(desired_topic d, None, Some e)])"

text \<open>The loop over the rows, one row at a time.\<close>

definition plan_spec :: "settings \<Rightarrow> middleware \<Rightarrow> topics \<Rightarrow> desired list \<Rightarrow> plan \<Rightarrow> bool" where
  "plan_spec s node topics wishes p \<longleftrightarrow>
     plan_wanted p = map desired_topic (filter (\<lambda>d. \<not> expired s (idle_seconds d)) wishes) \<and>
     plan_expired p = map desired_topic (filter (\<lambda>d. expired s (idle_seconds d)) wishes) \<and>
     distinct (map fst (plan_topics p)) \<and>
     (\<forall>t. t \<notin> desired_topic ` set wishes \<longrightarrow> map_of (plan_topics p) t = map_of topics t) \<and>
     (\<forall>d \<in> set wishes. map_of (plan_topics p) (desired_topic d) =
        (if expired s (idle_seconds d) then None
         else case map_of topics (desired_topic d) of Some l \<Rightarrow> Some l
           | None \<Rightarrow> (case subscribe node (desired_topic d) (desired_type d) of Inr l \<Rightarrow> Some l | Inl _ \<Rightarrow> None))) \<and>
     plan_metadata p = concat (map (wish_metadata s node topics) wishes)"

lemma plan_entry_step:
  assumes "plan_spec s node topics wishes p" and "desired_topic d \<notin> desired_topic ` set wishes"
  shows "plan_spec s node topics (wishes @ [d]) (plan_entry s node d p)"
proof -
  have old: "map_of (plan_topics p) (desired_topic d) = map_of topics (desired_topic d)"
    using assms by (simp add: plan_spec_def)
  have other: "desired_topic d' \<noteq> desired_topic d" if "d' \<in> set wishes" for d'
    using that assms(2) by (metis imageI)
  note ps = assms(1) [unfolded plan_spec_def]
  show ?thesis
  proof (cases "expired s (idle_seconds d)")
    case True
    then have "plan_entry s node d p = p\<lparr>plan_expired := plan_expired p @ [desired_topic d],
        plan_topics := AList.delete (desired_topic d) (plan_topics p)\<rparr>"
      by (simp add: plan_entry_def expired_def Let_def)
    then show ?thesis
      using ps True other by (simp add: plan_spec_def wish_metadata_def delete_conv' distinct_delete)
  next
    case False
    define p1 where "p1 = p\<lparr>plan_wanted := plan_wanted p @ [desired_topic d]\<rparr>"
    have step: "plan_entry s node d p =
      (if contains_key (plan_topics p) (desired_topic d) then p1
       else case subscribe node (desired_topic d) (desired_type d) of
         Inr l \<Rightarrow> p1\<lparr>plan_metadata := plan_metadata p1 @ [(desired_topic d, Some (live_type l), None)],
             plan_topics := AList.update (desired_topic d) l (plan_topics p1)\<rparr>
       | Inl e \<Rightarrow> p1\<lparr>plan_metadata := plan_metadata p1 @ [(desired_topic d, None, Some e)]\<rparr>)"
      unfolding plan_entry_def Let_def p1_def if_not_P [OF False [unfolded expired_def Let_def]] by simp
    show ?thesis
    proof (cases "map_of topics (desired_topic d)")
      case (Some l)
      then have "plan_entry s node d p = p1" using step old by (simp add: contains_key_def)
      then show ?thesis
        using ps False other Some old
        by (simp add: plan_spec_def p1_def contains_key_def wish_metadata_def del: map_of_eq_Some_iff)
    next
      case None
      then have new: "\<not> contains_key (plan_topics p) (desired_topic d)" using old by (simp add: contains_key_def)
      show ?thesis
      proof (cases "subscribe node (desired_topic d) (desired_type d)")
        case (Inl e)
        then show ?thesis
          using ps False other None new old step by (simp add: plan_spec_def p1_def contains_key_def wish_metadata_def)
      next
        case (Inr l)
        then show ?thesis
          using ps False other None new step
          by (simp add: plan_spec_def p1_def contains_key_def wish_metadata_def update_conv' distinct_update)
      qed
    qed
  qed
qed

lemma plan_loop:
  assumes "distinct (map desired_topic wishes)" and "distinct (map fst topics)"
  shows "plan_spec s node topics wishes (fold (plan_entry s node) wishes
    \<lparr>plan_topics = topics, plan_wanted = [], plan_metadata = [], plan_expired = []\<rparr>)"
  using assms(1)
proof (induction wishes rule: rev_induct)
  case Nil
  then show ?case using assms(2) by (simp add: plan_spec_def)
next
  case (snoc d wishes)
  then show ?case using plan_entry_step [of s node topics wishes _ d] by simp
qed

lemma map_of_filter_keys: "map_of (filter (\<lambda>(t, l). t \<in> S) ts) t = (if t \<in> S then map_of ts t else None)"
  by (induction ts) auto

text \<open>The plan for a list of rows and the topics that lost theirs.\<close>

definition wished_live :: "settings \<Rightarrow> middleware \<Rightarrow> topics \<Rightarrow> desired \<Rightarrow> live option" where
  "wished_live s node topics d =
     (if expired s (idle_seconds d) then None
      else case map_of topics (desired_topic d) of Some l \<Rightarrow> Some l
        | None \<Rightarrow> (case subscribe node (desired_topic d) (desired_type d) of Inr l \<Rightarrow> Some l | Inl _ \<Rightarrow> None))"

definition planned :: "settings \<Rightarrow> middleware \<Rightarrow> topics \<Rightarrow> desired list \<Rightarrow> plan \<Rightarrow> string list \<Rightarrow> bool" where
  "planned s node topics wishes p removed \<longleftrightarrow>
     plan_expired p = map desired_topic (filter (\<lambda>d. expired s (idle_seconds d)) wishes) \<and>
     plan_metadata p = concat (map (wish_metadata s node topics) wishes) \<and>
     distinct (map fst (plan_topics p)) \<and>
     (\<forall>d \<in> set wishes. map_of (plan_topics p) (desired_topic d) = wished_live s node topics d) \<and>
     (\<forall>t. t \<notin> desired_topic ` set wishes \<longrightarrow> map_of (plan_topics p) t = None) \<and>
     set removed = {t. contains_key topics t \<and> t \<notin> desired_topic ` set wishes}"

lemma make_plan_eq:
  assumes "distinct (map desired_topic wishes)" and "distinct (map fst topics)"
  shows "\<exists>p removed. make_plan s node wishes topics = (p, removed) \<and> planned s node topics wishes p removed"
proof -
  define q where "q = fold (plan_entry s node) wishes
    \<lparr>plan_topics = topics, plan_wanted = [], plan_metadata = [], plan_expired = []\<rparr>"
  define W where "W = set (plan_wanted q)"
  define removed where "removed = map fst (filter (\<lambda>(t, l). t \<notin> W) (plan_topics q))"
  define p where "p = q\<lparr>plan_topics := filter (\<lambda>(t, l). t \<in> W) (plan_topics q)\<rparr>"
  have "plan_spec s node topics wishes q"
    unfolding q_def by (rule plan_loop [OF assms])
  note q = this [unfolded plan_spec_def]
  have W: "W = desired_topic ` {d \<in> set wishes. \<not> expired s (idle_seconds d)}"
    using q by (simp add: W_def)
  have wanted: "desired_topic d \<in> W \<longleftrightarrow> \<not> expired s (idle_seconds d)" if "d \<in> set wishes" for d
    using that inj_onD [OF assms(1) [unfolded distinct_map, THEN conjunct2], of d] by (auto simp: W)
  have pt: "map_of (plan_topics p) t = (if t \<in> W then map_of (plan_topics q) t else None)" for t
    by (simp add: p_def map_of_filter_keys)
  have make: "make_plan s node wishes topics = (p, removed)"
    by (simp add: make_plan_def Let_def p_def removed_def W_def q_def)
  have in_removed: "t \<in> set removed \<longleftrightarrow> t \<notin> W \<and> map_of (plan_topics q) t \<noteq> None" for t
    unfolding removed_def map_of_eq_None_iff not_not by auto
  have removed: "set removed = {t. contains_key topics t \<and> t \<notin> desired_topic ` set wishes}"
  proof (intro set_eqI iffI)
    fix t assume "t \<in> set removed"
    then have t: "t \<notin> W" "map_of (plan_topics q) t \<noteq> None" using in_removed by blast+
    have out: "t \<notin> desired_topic ` set wishes"
    proof
      assume "t \<in> desired_topic ` set wishes"
      then obtain d where d: "d \<in> set wishes" "t = desired_topic d" by blast
      with t(1) wanted have "expired s (idle_seconds d)" by blast
      with q d t(2) show False by simp
    qed
    with q t(2) show "t \<in> {t. contains_key topics t \<and> t \<notin> desired_topic ` set wishes}"
      by (simp add: contains_key_def)
  next
    fix t assume t: "t \<in> {t. contains_key topics t \<and> t \<notin> desired_topic ` set wishes}"
    then have "map_of (plan_topics q) t = map_of topics t" using q by blast
    moreover from t have "t \<notin> W" by (auto simp: W)
    ultimately show "t \<in> set removed" using t unfolding in_removed contains_key_def by simp
  qed
  have inside: "\<forall>d \<in> set wishes. map_of (plan_topics p) (desired_topic d) = wished_live s node topics d"
    using q by (simp add: pt wanted wished_live_def)
  have outside: "\<forall>t. t \<notin> desired_topic ` set wishes \<longrightarrow> map_of (plan_topics p) t = None"
    by (auto simp: pt W)
  have "planned s node topics wishes p removed"
    unfolding planned_def using q inside outside removed
    by (simp add: p_def distinct_map_filter)
  with make show ?thesis by blast
qed

text \<open>The row of a topic as the worker sees it, and whether it has outlived its time to live.\<close>

lemma rows_as_wishes:
  assumes "distinct (map fst rows)"
    and "wishes = map (\<lambda>(t, r). \<lparr>desired_topic = t, desired_type = requested_type r, idle_seconds = f r\<rparr>) rows"
  shows "distinct (map desired_topic wishes)"
    and "desired_topic ` set wishes = fst ` set rows"
    and "map_of rows t = Some r \<Longrightarrow>
      \<lparr>desired_topic = t, desired_type = requested_type r, idle_seconds = f r\<rparr> \<in> set wishes"
    and "t \<in> set (map desired_topic (filter (\<lambda>d. P (idle_seconds d)) wishes)) \<longleftrightarrow>
      (\<exists>r. map_of rows t = Some r \<and> P (f r))"
proof -
  have "map desired_topic wishes = map fst rows"
    unfolding assms(2) by (simp add: case_prod_unfold)
  with assms(1) show "distinct (map desired_topic wishes)" by simp
  show "desired_topic ` set wishes = fst ` set rows"
    unfolding assms(2) by force
  show "\<lparr>desired_topic = t, desired_type = requested_type r, idle_seconds = f r\<rparr> \<in> set wishes"
    if "map_of rows t = Some r"
    using map_of_SomeD [OF that] unfolding assms(2) by force
  show "t \<in> set (map desired_topic (filter (\<lambda>d. P (idle_seconds d)) wishes)) \<longleftrightarrow>
      (\<exists>r. map_of rows t = Some r \<and> P (f r))"
    using assms(1) unfolding assms(2) by (force simp: case_prod_unfold)
qed

lemma reconcile_fails:
  assumes "reconcile s node epoch env env' failure meanwhile db topics = Inl (f, d)"
  shows "\<exists>e. f = Panic e \<and> (sql_error env = Some e \<and> d = db \<or> sql_error env' = Some e \<and> d = meanwhile db)"
  using assms
  by (auto simp: reconcile_def transaction_Inl_iff Let_def split: sum.splits prod.splits if_splits)

lemma reconcile_writes:
  assumes "extension db = Some e" and "distinct (map fst (subscriptions_table db))" and "distinct (map fst topics)"
    and "reconcile s node epoch env env' None meanwhile db topics = Inr (r, db', topics')"
  shows "\<exists>p removed wishes. r = Inr () \<and> db' = reconcile_write p removed (meanwhile db) \<and> topics' = plan_topics p \<and>
    wishes = map (\<lambda>(t, r). \<lparr>desired_topic = t, desired_type = requested_type r,
      idle_seconds = row_idle epoch (statement_timestamp env) r\<rparr>) (subscriptions_table db) \<and>
    planned s node topics wishes p removed"
proof -
  obtain wishes where w: "read_desired epoch env None db = Inr wishes"
    using assms(1) by (simp add: read_desired_def)
  note rows = read_rows [OF assms(1) w]
  from make_plan_eq [OF rows_as_wishes(1) [OF assms(2) rows] assms(3), of s node] obtain p removed
    where mp: "make_plan s node wishes topics = (p, removed)" and pl: "planned s node topics wishes p removed"
    by blast
  have "r = Inr () \<and> db' = reconcile_write p removed (meanwhile db) \<and> topics' = plan_topics p"
    using assms(4) by (auto simp: reconcile_def w mp reconcile_write_def split: option.splits sum.splits if_splits)
  with rows pl show ?thesis by blast
qed

lemma live_after:
  assumes "extension db = Some e" and "distinct (map fst (subscriptions_table db))"
    and "distinct (map fst topics)"
    and "reconcile s node epoch env env' None meanwhile db topics = Inr (r, db', topics')"
  shows "r = Inr () \<and> distinct (map fst topics') \<and>
    map_of topics' t =
      (case map_of (subscriptions_table db) t of
         None \<Rightarrow> None
       | Some row \<Rightarrow>
           if row_expired s epoch (statement_timestamp env) row then None
           else case map_of topics t of Some l \<Rightarrow> Some l
             | None \<Rightarrow> (case subscribe node t (requested_type row) of Inr l \<Rightarrow> Some l | Inl _ \<Rightarrow> None))"
proof -
  from reconcile_writes [OF assms(1-4)] obtain p removed wishes
    where run: "r = Inr ()" "topics' = plan_topics p"
    and w: "wishes = map (\<lambda>(t, r). \<lparr>desired_topic = t, desired_type = requested_type r,
      idle_seconds = row_idle epoch (statement_timestamp env) r\<rparr>) (subscriptions_table db)"
    and pl: "planned s node topics wishes p removed" by blast
  note wishes = rows_as_wishes [OF assms(2) w]
  note plan = pl [unfolded planned_def]
  note t' = run(2) and r = run(1)
  have "map_of (plan_topics p) t =
      (case map_of (subscriptions_table db) t of
         None \<Rightarrow> None
       | Some row \<Rightarrow>
           if row_expired s epoch (statement_timestamp env) row then None
           else case map_of topics t of Some l \<Rightarrow> Some l
             | None \<Rightarrow> (case subscribe node t (requested_type row) of Inr l \<Rightarrow> Some l | Inl _ \<Rightarrow> None))"
  proof (cases "map_of (subscriptions_table db) t")
    case None
    then have "t \<notin> desired_topic ` set wishes" using wishes(2) by (simp add: map_of_eq_None_iff)
    with plan None show ?thesis by simp
  next
    case (Some row)
    from plan wishes(3) [OF Some] have "map_of (plan_topics p) t = wished_live s node topics
        \<lparr>desired_topic = t, desired_type = requested_type row,
          idle_seconds = row_idle epoch (statement_timestamp env) row\<rparr>" by fastforce
    then show ?thesis by (simp add: Some row_expired_def wished_live_def split: option.split)
  qed
  with plan show ?thesis by (simp add: t' r)
qed

text \<open>
  C6. Reconciling makes the live subscriptions match the table. A topic is live afterwards exactly
  when it has a row that has not expired and was live already, with its mailbox untouched, or can be
  subscribed now. An unreadable table changes no subscription and is reported. It fails only when
  PostgreSQL raises an error in one of its two transactions, and then it writes nothing.
\<close>

theorem reconcile_converges:
  assumes "extension db = Some e" and "distinct (map fst (subscriptions_table db))"
    and "distinct (map fst topics)"
  shows "case reconcile s node epoch env env' failure meanwhile db topics of
      Inl (f, d) \<Rightarrow> (\<exists>e. f = Panic e \<and> (sql_error env = Some e \<and> d = db \<or> sql_error env' = Some e \<and> d = meanwhile db))
    | Inr (r, db', topics') \<Rightarrow>
        (case failure of
           Some e \<Rightarrow> r = Inl e \<and> topics' = topics \<and> db' = meanwhile db
         | None \<Rightarrow> r = Inr () \<and> distinct (map fst topics') \<and>
             map_of topics' t =
               (case map_of (subscriptions_table db) t of
                  None \<Rightarrow> None
                | Some row \<Rightarrow>
                    if row_expired s epoch (statement_timestamp env) row then None
                    else case map_of topics t of Some l \<Rightarrow> Some l
                      | None \<Rightarrow> (case subscribe node t (requested_type row) of Inr l \<Rightarrow> Some l | Inl _ \<Rightarrow> None)))"
proof (cases "reconcile s node epoch env env' failure meanwhile db topics")
  case (Inl x)
  obtain f d where x: "x = (f, d)" by (cases x)
  from reconcile_fails [OF Inl [unfolded x]] show ?thesis unfolding Inl x by simp
next
  case (Inr x)
  obtain r db' topics' where x: "x = (r, db', topics')" by (rule prod_cases3)
  note run = Inr [unfolded x]
  show ?thesis
  proof (cases failure)
    case (Some y)
    from run Some assms(1) have "r = Inl y" "topics' = topics" "db' = meanwhile db"
      by (simp_all add: reconcile_def read_desired_def split: sum.splits)
    then show ?thesis unfolding run by (simp add: Some)
  next
    case None
    from live_after [OF assms run [unfolded None]] show ?thesis unfolding run by (simp add: None)
  qed
qed

subsection \<open>The tables after a reconciliation\<close>

definition noted :: "string option \<times> string option \<Rightarrow> subscription \<Rightarrow> subscription" where
  "noted o' r = (case o' of
       (Some kind, _) \<Rightarrow> r\<lparr>subscribed_type := Some kind, subscription_error := None\<rparr>
     | (None, Some e) \<Rightarrow> r\<lparr>subscription_error := Some e\<rparr>
     | (None, None) \<Rightarrow> r)"

lemma apply_metadata_noted: "map_of (apply_metadata (t, o') rows) k =
    map_option (if k = t then noted o' else id) (map_of rows k)"
proof -
  have eq: "noted (Some a, b) = (\<lambda>r. r\<lparr>subscribed_type := Some a, subscription_error := None\<rparr>)"
    "noted (None, Some c) = (\<lambda>r. r\<lparr>subscription_error := Some c\<rparr>)" "noted (None, None) = id" for a b c
    by (simp_all add: noted_def fun_eq_iff)
  show ?thesis
    by (cases o'; cases "fst o'"; cases "snd o'")
      (simp_all add: apply_metadata_def eq topic_table.find_change option.map_id)
qed

lemma metadata_rows:
  assumes "distinct (map fst ms)"
  shows "map_of (fold apply_metadata ms rows) k =
    map_option (case map_of ms k of None \<Rightarrow> id | Some o' \<Rightarrow> noted o') (map_of rows k)"
  using assms
proof (induction ms arbitrary: rows)
  case (Cons m ms)
  obtain t o' where m: "m = (t, o')" by (cases m)
  have "map_of ms t = None" using Cons.prems by (simp add: m map_of_eq_None_iff)
  with Cons show ?case
    by (auto simp: m apply_metadata_noted option.map_comp option.map_id)
qed (simp add: option.map_id)

lemma wishes_metadata:
  assumes "distinct (map desired_topic wishes)"
  shows "distinct (map fst (concat (map (wish_metadata s node topics) wishes))) \<and>
    (\<forall>d \<in> set wishes. map_of (concat (map (wish_metadata s node topics) wishes)) (desired_topic d) =
      map_of (wish_metadata s node topics d) (desired_topic d)) \<and>
    (\<forall>k. k \<notin> desired_topic ` set wishes \<longrightarrow>
      map_of (concat (map (wish_metadata s node topics) wishes)) k = None)"
  using assms
proof (induction wishes)
  case (Cons d wishes)
  define rest where "rest = concat (map (wish_metadata s node topics) wishes)"
  have own: "map_of (wish_metadata s node topics d) k = None" if "k \<noteq> desired_topic d" for k
    using that by (simp add: wish_metadata_def split: sum.splits)
  have one: "distinct (map fst (wish_metadata s node topics d))" "fst ` set (wish_metadata s node topics d) \<subseteq> {desired_topic d}"
    by (auto simp: wish_metadata_def split: sum.splits)
  from Cons.prems have new: "desired_topic d \<notin> desired_topic ` set wishes" and "distinct (map desired_topic wishes)"
    by auto
  note IH = Cons.IH [OF this(2), folded rest_def]
  with new have "map_of rest (desired_topic d) = None" by blast
  then have "desired_topic d \<notin> fst ` set rest" by (simp only: map_of_eq_None_iff not_False_eq_True)
  moreover have "A \<subseteq> {x} \<Longrightarrow> x \<notin> B \<Longrightarrow> A \<inter> B = {}" for A B :: "string set" and x by blast
  ultimately have "fst ` set (wish_metadata s node topics d) \<inter> fst ` set rest = {}"
    using one(2) by blast
  with one(1) conjunct1 [OF IH] have "distinct (map fst (wish_metadata s node topics d @ rest))"
    by (simp only: map_append distinct_append set_map)
  moreover have "map_of (wish_metadata s node topics d @ rest) (desired_topic d') =
      map_of (wish_metadata s node topics d') (desired_topic d')" if "d' \<in> set (d # wishes)" for d'
  proof (cases "d' = d")
    case True
    then show ?thesis using \<open>map_of rest (desired_topic d) = None\<close>
      by (simp add: map_add_def split: option.split)
  next
    case False
    with that have d': "d' \<in> set wishes" by simp
    with new have "desired_topic d' \<noteq> desired_topic d" by (metis imageI)
    moreover have "map_of rest (desired_topic d') = map_of (wish_metadata s node topics d') (desired_topic d')"
      using IH d' by blast
    ultimately show ?thesis using own [of "desired_topic d'"] by (simp add: map_add_def split: option.split)
  qed
  moreover have "map_of (wish_metadata s node topics d @ rest) k = None"
    if "k \<notin> desired_topic ` set (d # wishes)" for k
  proof -
    from that have "map_of rest k = None" using IH by simp
    with that own [of k] show ?thesis by (simp add: map_add_def)
  qed
  ultimately show ?case by (simp add: rest_def)
qed simp

lemma written_tables:
  assumes "extension db = Some e" and "planned s node topics wishes p removed"
    and "distinct (map desired_topic wishes)"
  shows "map_of (messages_table (reconcile_write p removed db)) t =
      (if t \<in> set removed \<or> t \<in> set (plan_expired p) then None else map_of (messages_table db) t)"
    and "map_of (subscriptions_table (reconcile_write p removed db)) t =
      (if t \<in> set (plan_expired p) then None
       else map_option (case map_of (plan_metadata p) t of None \<Rightarrow> id | Some o' \<Rightarrow> noted o')
         (map_of (subscriptions_table db) t))"
proof -
  show "map_of (messages_table (reconcile_write p removed db)) t =
      (if t \<in> set removed \<or> t \<in> set (plan_expired p) then None else map_of (messages_table db) t)"
    using topic_table.find_remove_all [of "removed @ plan_expired p" "messages_table db" t]
    by (simp add: reconcile_write_def assms(1) topic_table.remove_all_def)
  have "distinct (map fst (plan_metadata p))"
    using assms(2) wishes_metadata [OF assms(3)] by (simp add: planned_def)
  then show "map_of (subscriptions_table (reconcile_write p removed db)) t =
      (if t \<in> set (plan_expired p) then None
       else map_option (case map_of (plan_metadata p) t of None \<Rightarrow> id | Some o' \<Rightarrow> noted o')
         (map_of (subscriptions_table db) t))"
    using topic_table.find_remove_all [of "plan_expired p" "fold apply_metadata (plan_metadata p) (subscriptions_table db)" t]
    by (simp add: reconcile_write_def assms(1) topic_table.remove_all_def metadata_rows)
qed

text \<open>What a reconciliation records in the row of a topic: the outcome of subscribing to it, if it tried.\<close>

definition outcome_noted :: "middleware \<Rightarrow> topics \<Rightarrow> string \<Rightarrow> subscription option \<Rightarrow> subscription \<Rightarrow> subscription" where
  "outcome_noted node topics t row r =
     (case row of
        None \<Rightarrow> r
      | Some r0 \<Rightarrow>
          if contains_key topics t then r
          else (case subscribe node t (requested_type r0) of
                  Inr l \<Rightarrow> r\<lparr>subscribed_type := Some (live_type l), subscription_error := None\<rparr>
                | Inl e \<Rightarrow> r\<lparr>subscription_error := Some e\<rparr>))"

lemma tables_after:
  fixes t :: string
  assumes "extension db = Some e" and "extension (meanwhile db) = Some e'"
    and "distinct (map fst (subscriptions_table db))" and "distinct (map fst topics)"
    and "reconcile s node epoch env env' None meanwhile db topics = Inr (r, db', topics')"
  defines "row \<equiv> map_of (subscriptions_table db) t"
  defines "gone \<equiv> (case row of None \<Rightarrow> False | Some r \<Rightarrow> row_expired s epoch (statement_timestamp env) r)"
  shows "map_of (messages_table db') t =
      (if gone \<or> row = None \<and> contains_key topics t then None else map_of (messages_table (meanwhile db)) t)"
    and "map_of (subscriptions_table db') t =
      (if gone then None
       else map_option (outcome_noted node topics t row) (map_of (subscriptions_table (meanwhile db)) t))"
proof -
  from reconcile_writes [OF assms(1,3,4,5)] obtain p removed wishes
    where db': "db' = reconcile_write p removed (meanwhile db)"
    and w: "wishes = map (\<lambda>(t, r). \<lparr>desired_topic = t, desired_type = requested_type r,
      idle_seconds = row_idle epoch (statement_timestamp env) r\<rparr>) (subscriptions_table db)"
    and pl: "planned s node topics wishes p removed" by auto
  note rows = rows_as_wishes [OF assms(3) w]
  note plan = pl [unfolded planned_def]
  have gone: "t \<in> set (plan_expired p) \<longleftrightarrow> gone"
    using rows(4) [where P = "expired s"] plan unfolding gone_def row_def row_expired_def
    by (simp split: option.split)
  have removed: "t \<in> set removed \<longleftrightarrow> row = None \<and> contains_key topics t"
    using plan rows(2) by (auto simp: row_def map_of_eq_None_iff)
  show "map_of (messages_table db') t =
      (if gone \<or> row = None \<and> contains_key topics t then None else map_of (messages_table (meanwhile db)) t)"
    unfolding db' written_tables(1) [OF assms(2) pl rows(1)] gone removed by (rule if_cong) auto
  have meta: "map_option (case map_of (plan_metadata p) t of None \<Rightarrow> id | Some o' \<Rightarrow> noted o') x =
      map_option (outcome_noted node topics t row) x" if "\<not> gone" for x
  proof (cases row)
    case None
    then have "t \<notin> desired_topic ` set wishes" using rows(2) by (simp add: row_def map_of_eq_None_iff)
    then have "map_of (plan_metadata p) t = None"
      using wishes_metadata [OF rows(1), of s node topics] plan by simp
    moreover have "outcome_noted node topics t None = id" by (simp add: outcome_noted_def fun_eq_iff)
    ultimately show ?thesis by (simp add: None)
  next
    case (Some r0)
    let ?d = "\<lparr>desired_topic = t, desired_type = requested_type r0,
      idle_seconds = row_idle epoch (statement_timestamp env) r0\<rparr>"
    have "?d \<in> set wishes" using rows(3) Some by (simp add: row_def)
    then have m: "map_of (plan_metadata p) t = map_of (wish_metadata s node topics ?d) t"
      using wishes_metadata [OF rows(1), of s node topics] plan by fastforce
    from that Some have "\<not> expired s (row_idle epoch (statement_timestamp env) r0)"
      by (simp add: gone_def row_expired_def)
    then have "(case map_of (plan_metadata p) t of None \<Rightarrow> id | Some o' \<Rightarrow> noted o') = outcome_noted node topics t row"
      by (auto simp: m wish_metadata_def Some outcome_noted_def noted_def fun_eq_iff split: sum.split)
    then show ?thesis by simp
  qed
  show "map_of (subscriptions_table db') t =
      (if gone then None
       else map_option (outcome_noted node topics t row) (map_of (subscriptions_table (meanwhile db)) t))"
    unfolding db' written_tables(2) [OF assms(2) pl rows(1)] gone using meta by simp
qed

text \<open>
  C15. What a reconciliation leaves in the tables, whatever other sessions committed after it read
  them: an expired topic loses its row and its cached message, a live topic whose row is gone loses
  its cached message, a new topic gets its type or the reason why it could not be subscribed, and
  everything else is as the other sessions left it.
\<close>

theorem reconcile_tables:
  assumes "extension db = Some e" and "extension (meanwhile db) = Some e'"
    and "distinct (map fst (subscriptions_table db))" and "distinct (map fst topics)"
    and "reconcile s node epoch env env' None meanwhile db topics = Inr (r, db', topics')"
  shows "(let row = map_of (subscriptions_table db) t;
      gone = (case row of None \<Rightarrow> False | Some r \<Rightarrow> row_expired s epoch (statement_timestamp env) r)
    in map_of (messages_table db') t =
         (if gone \<or> row = None \<and> contains_key topics t then None else map_of (messages_table (meanwhile db)) t) \<and>
       map_of (subscriptions_table db') t =
         (if gone then None
          else map_option (outcome_noted node topics t row) (map_of (subscriptions_table (meanwhile db)) t)))"
  using tables_after [OF assms] unfolding Let_def by blast

text \<open>
  C37. The documentation says that deleting a row deletes its cached message. It does for a live
  subscription only: when the topic is not live, because the worker or its ROS context was restarted
  and the topic is no longer advertised, a row deleted by the user leaves the cached message behind,
  and no later reconciliation removes it while the row is absent.
\<close>

theorem deleted_row_keeps_message:
  assumes "extension db = Some e" and "distinct (map fst (subscriptions_table db))" and "distinct (map fst topics)"
    and "map_of (subscriptions_table db) t = None" and "\<not> contains_key topics t"
    and "map_of (messages_table db) t = Some cached"
    and "reconcile s node epoch env env' None id db topics = Inr (r, db', topics')"
  shows "map_of (messages_table db') t = Some cached \<and> map_of (subscriptions_table db') t = None \<and>
    \<not> contains_key topics' t"
proof -
  have m: "extension (id db) = Some e" using assms(1) by simp
  note tables = tables_after [OF assms(1) m assms(2,3,7), of t]
  have "map_of topics' t = None"
    using live_after [OF assms(1-3,7), of t] assms(4) by simp
  with tables assms(4-6) show ?thesis by (simp add: contains_key_def)
qed

text \<open>
  C36. Renewing \<open>keepalive_at\<close> between the two transactions does not save an expired subscription: the
  row that was read as expired is deleted with its cached message, whatever its keepalive is by then.
\<close>

theorem expiry_ignores_renewal:
  assumes "extension db = Some e" and "distinct (map fst (subscriptions_table db))" and "distinct (map fst topics)"
    and "map_of (subscriptions_table db) t = Some row"
    and "row_expired s epoch (statement_timestamp env) row"
    and "reconcile s node epoch env env' None
      (\<lambda>db. db\<lparr>subscriptions_table := update_where t (\<lambda>r. r\<lparr>keepalive_at := now\<rparr>) (subscriptions_table db)\<rparr>)
      db topics = Inr (r, db', topics')"
  shows "map_of (subscriptions_table db') t = None \<and> map_of (messages_table db') t = None"
proof -
  have m: "extension (db\<lparr>subscriptions_table := update_where t (\<lambda>r. r\<lparr>keepalive_at := now\<rparr>) (subscriptions_table db)\<rparr>) = Some e"
    using assms(1) by simp
  have gone: "(case map_of (subscriptions_table db) t of None \<Rightarrow> False
      | Some r \<Rightarrow> row_expired s epoch (statement_timestamp env) r) = True"
    by (simp only: assms(4,5) option.case)
  show ?thesis
    using tables_after [OF assms(1) m assms(2,3,6), of t] unfolding gone by simp
qed

section \<open>Samples\<close>

definition sample_row :: subscription where
  "sample_row = \<lparr>requested_type = Some ''T'', subscribed_type = None, registered_at = 0, keepalive_at = 0,
     last_message_at = None, subscription_error = None\<rparr>"

definition sample_cached :: cached_message where
  "sample_cached = \<lparr>cached_sequence = 3, received_at = 0, cached_body = JNull\<rparr>"

definition sample_db :: database where
  "sample_db = (create_extension 1 ''ros2'')
     \<lparr>subscriptions_table := [(''/a'', sample_row)], messages_table := [(''/b'', sample_cached)]\<rparr>"

definition sample_ros :: middleware where
  "sample_ros = \<lparr>topic_types = Inr [], parse_type = (\<lambda>_. Inr ()), create_subscription = (\<lambda>_ _. Inr ())\<rparr>"

definition sample_env :: stmt_env where
  "sample_env = \<lparr>statement_timestamp = 100, backend_pid = 1, sql_error = None,
     jsonb_error = (\<lambda>v. if holds_nul v then Some ''unsupported Unicode escape sequence'' else None)\<rparr>"

lemma sample_env_facts [simp]:
  "statement_timestamp sample_env = 100" "sql_error sample_env = None" "backend_pid sample_env = 1"
  by (simp_all add: sample_env_def)

lemma sample_refuses: "refuses_nul sample_env"
  by (simp add: refuses_nul_def sample_env_def)

text \<open>An interval of one hour.\<close>

definition sample_epoch :: "int \<Rightarrow> json" where
  "sample_epoch us = JNumber \<lparr>num_i64 = None, num_u64 = None, num_f64 = Some 0x40AC200000000000\<rparr>"

definition sample_live :: topics where
  "sample_live = [(''/a'', \<lparr>live_type = ''T'',
     live_mailbox = \<lparr>mb_sequence = 5, mb_pending = Some (5, ''{}''), mb_error = None\<rparr>\<rparr>)]"

lemma sample_db_facts:
  "extension sample_db = Some (1, ''ros2'')" "distinct (map fst (subscriptions_table sample_db))"
  "map_of (subscriptions_table sample_db) ''/a'' = Some sample_row"
  "map_of (subscriptions_table sample_db) ''/b'' = None"
  "map_of (messages_table sample_db) ''/b'' = Some sample_cached"
  by (simp_all add: sample_db_def create_extension_def)

theorem flush_stores_pending_witness:
  "\<exists>db' topics'. flush (\<lambda>x. Inr (JString x)) sample_env sample_db sample_live = Inr (db', topics') \<and>
     map_of (messages_table db') ''/a'' = Some \<lparr>cached_sequence = 5, received_at = 100, cached_body = JString ''{}''\<rparr>"
proof -
  have d: "distinct (map fst sample_live)" by (simp add: sample_live_def)
  have a: "deliverable (\<lambda>x. Inr (JString x)) sample_live ''/a'' = Some (5, JString ''{}'')"
    by (simp add: deliverable_def sample_live_def)
  have none: "deliverable (\<lambda>x. Inr (JString x)) sample_live t = Some (n, v) \<Longrightarrow> jsonb_error sample_env v = None" for t n v
    by (auto simp: deliverable_def sample_live_def sample_env_def split: if_splits)
  note stored = flush_stores_pending [OF d sample_db_facts(1), where from_str = "\<lambda>x. Inr (JString x)"
      and env = sample_env and env' = sample_env and t = "''/a''"]
  show ?thesis
  proof (cases "flush (\<lambda>x. Inr (JString x)) sample_env sample_db sample_live")
    case (Inl f)
    with stored none show ?thesis by fastforce
  next
    case (Inr x)
    with stored a show ?thesis by (cases x) simp
  qed
qed

lemma sample_reconciles:
  obtains r db' topics' where
    "reconcile s node epoch sample_env sample_env failure meanwhile db topics = Inr (r, db', topics')"
proof (cases "reconcile s node epoch sample_env sample_env failure meanwhile db topics")
  case (Inl x)
  then show thesis using reconcile_fails [of s node epoch sample_env sample_env failure meanwhile db topics "fst x" "snd x"]
    by (simp add: sample_env_def)
next
  case (Inr x)
  then show thesis using that by (metis prod_cases3)
qed

theorem reconcile_converges_witness:
  "\<exists>r db' topics'. reconcile default_settings sample_ros sample_epoch sample_env sample_env None id sample_db [] =
      Inr (r, db', topics') \<and> map_of topics' ''/a'' = Some \<lparr>live_type = ''T'', live_mailbox = empty_mailbox\<rparr>"
proof -
  obtain r db' topics' where run:
    "reconcile default_settings sample_ros sample_epoch sample_env sample_env None id sample_db [] = Inr (r, db', topics')"
    by (rule sample_reconciles)
  have ttl: "f64_of_i32 (subscription_ttl_seconds default_settings) = 0"
    by (simp add: subscription_ttl_seconds_def default_settings_def i32_max_def f64_of_i32_def Let_def)
  have "\<not> row_expired default_settings sample_epoch 100 sample_row"
    by (simp add: row_expired_def expired_def ttl)
  moreover have "subscribe sample_ros ''/a'' (requested_type sample_row) =
      Inr \<lparr>live_type = ''T'', live_mailbox = empty_mailbox\<rparr>"
    by (simp add: subscribe_def sample_ros_def sample_row_def described_def)
  ultimately show ?thesis
    using reconcile_converges [OF sample_db_facts(1,2), where topics = "[]" and s = default_settings
        and node = sample_ros and epoch = sample_epoch and env = sample_env and env' = sample_env and failure = None
        and meanwhile = id and t = "''/a''"]
    by (auto simp: run sample_db_facts)
qed

theorem reconcile_tables_witness:
  "\<exists>r db' topics'. reconcile default_settings sample_ros sample_epoch sample_env sample_env None id sample_db [] =
      Inr (r, db', topics') \<and> map_option subscribed_type (map_of (subscriptions_table db') ''/a'') = Some (Some ''T'')"
proof -
  obtain r db' topics' where run:
    "reconcile default_settings sample_ros sample_epoch sample_env sample_env None id sample_db [] = Inr (r, db', topics')"
    by (rule sample_reconciles)
  have ttl: "f64_of_i32 (subscription_ttl_seconds default_settings) = 0"
    by (simp add: subscription_ttl_seconds_def default_settings_def i32_max_def f64_of_i32_def Let_def)
  have "\<not> row_expired default_settings sample_epoch (statement_timestamp sample_env) sample_row"
    by (simp add: row_expired_def expired_def ttl)
  moreover have "subscribe sample_ros ''/a'' (requested_type sample_row) =
      Inr \<lparr>live_type = ''T'', live_mailbox = empty_mailbox\<rparr>"
    by (simp add: subscribe_def sample_ros_def sample_row_def described_def)
  moreover have "extension (id sample_db) = Some (1, ''ros2'')" by (simp add: sample_db_facts)
  ultimately show ?thesis
    using reconcile_tables [OF sample_db_facts(1) _ sample_db_facts(2) _ run, of "(1, ''ros2'')" "''/a''"]
    by (simp add: run sample_db_facts outcome_noted_def contains_key_def)
qed

theorem deleted_row_keeps_message_witness:
  "\<exists>r db' topics'. reconcile default_settings sample_ros sample_epoch sample_env sample_env None id sample_db [] =
      Inr (r, db', topics') \<and> map_of (messages_table db') ''/b'' = Some sample_cached"
proof -
  obtain r db' topics' where run:
    "reconcile default_settings sample_ros sample_epoch sample_env sample_env None id sample_db [] = Inr (r, db', topics')"
    by (rule sample_reconciles)
  from deleted_row_keeps_message [OF sample_db_facts(1,2) _ sample_db_facts(4) _ sample_db_facts(5) run]
  show ?thesis by (simp add: run contains_key_def)
qed

theorem expiry_ignores_renewal_witness:
  "\<exists>r db' topics'. reconcile (default_settings\<lparr>SUBSCRIPTION_TTL := 10\<rparr>) sample_ros sample_epoch sample_env sample_env None
      (\<lambda>db. db\<lparr>subscriptions_table := update_where ''/a'' (\<lambda>r. r\<lparr>keepalive_at := 100\<rparr>) (subscriptions_table db)\<rparr>)
      sample_db [] = Inr (r, db', topics') \<and> map_of (subscriptions_table db') ''/a'' = None"
proof -
  obtain r db' topics' where run:
    "reconcile (default_settings\<lparr>SUBSCRIPTION_TTL := 10\<rparr>) sample_ros sample_epoch sample_env sample_env None
      (\<lambda>db. db\<lparr>subscriptions_table := update_where ''/a'' (\<lambda>r. r\<lparr>keepalive_at := 100\<rparr>) (subscriptions_table db)\<rparr>)
      sample_db [] = Inr (r, db', topics')"
    by (rule sample_reconciles)
  have ttl: "f64_of_i32 (subscription_ttl_seconds (default_settings\<lparr>SUBSCRIPTION_TTL := 10\<rparr>)) = 0x4024000000000000"
    by (simp add: subscription_ttl_seconds_def default_settings_def i32_max_def f64_of_i32_def Let_def)
  have "row_expired (default_settings\<lparr>SUBSCRIPTION_TTL := 10\<rparr>) sample_epoch (statement_timestamp sample_env) sample_row"
    unfolding row_expired_def expired_def ttl Let_def
    by (simp add: row_idle_def sample_epoch_def f64_gt_def f64_is_nan_def f64_exponent_def f64_fraction_def
        f64_key_def f64_sign_def Let_def)
  from expiry_ignores_renewal [OF sample_db_facts(1,2) _ sample_db_facts(3) this run]
  show ?thesis by (simp add: run)
qed

end
