(* ===== verification/Notify.thy ===== *)
theory Notify
  imports Naming Parameters Messages
begin

text \<open>
  \<open>src/subscriptions.rs\<close>: the procedure \<open>subscribe\<close>, which notifies a channel of every message of a
  topic until it is cancelled. One pass of its loop is a function of what the pass sees of the clock
  and the middleware. Callbacks run while the executor spins. The notifications of the running
  transaction, those committed and the warnings written are part of the state.
\<close>

section \<open>The state of the loop\<close>

text \<open>The capacity of the channel between the callback and the loop, and the size of a batch.\<close>

definition CAPACITY :: nat where
  "CAPACITY = 256"

record receiver =
  subscribed :: "string option"
  next_sequence :: u64
  queue :: "string res list"
  dropped :: u64
  encoding_errors :: u64
  last_encoding_error :: "string option"
  next_discovery :: instant
  next_report :: instant
  notified :: "string list"
  pending :: "string list"
  warnings :: "(u64 \<times> u64 \<times> string) list"

definition new_receiver :: "instant \<Rightarrow> instant \<Rightarrow> receiver" where
  "new_receiver discovery report =
     \<lparr>subscribed = None, next_sequence = 0, queue = [], dropped = 0, encoding_errors = 0,
      last_encoding_error = None, next_discovery = discovery, next_report = report, notified = [],
      pending = [], warnings = []\<rparr>"

text \<open>The callback: \<open>fetch_add\<close> returns the old number; \<open>try_send\<close> fails on a full channel.\<close>

definition enqueue :: "runtime \<Rightarrow> string \<Rightarrow> string \<Rightarrow> message \<Rightarrow> receiver \<Rightarrow> receiver" where
  "enqueue rt topic message_type m st =
     (let r = payload rt topic message_type (next_sequence st) m NOTIFY_LIMIT;
          st = st\<lparr>next_sequence := next_sequence st + 1\<rparr>
      in if length (queue st) < CAPACITY then st\<lparr>queue := queue st @ [r]\<rparr>
         else st\<lparr>dropped := dropped st + 1\<rparr>)"

section \<open>One pass\<close>

record pass =
  spin_outcome :: "error + unit"
  arrivals :: "message list"
  discovery_now :: instant
  discovery_done :: instant
  report_now :: instant
  report_done :: instant
  ros :: middleware

definition discover_topic :: "string \<Rightarrow> pass \<Rightarrow> receiver \<Rightarrow> receiver res" where
  "discover_topic topic p st =
     (if subscribed st = None \<and> next_discovery st \<le> discovery_now p
      then (case described (topic_types (ros p)) of
              Inl e \<Rightarrow> Inl (Err e)
            | Inr topics \<Rightarrow>
                and_then
                  (case map_of topics topic of
                     None \<Rightarrow> Inr st
                   | Some types \<Rightarrow>
                       if length types \<noteq> 1
                       then Inl (Err ''topic has multiple message types; a unique type is required'')
                       else (let message_type = types ! 0
                             in case described (parse_type (ros p) message_type) of
                                  Inl e \<Rightarrow> Inl (Err e)
                                | Inr _ \<Rightarrow>
                                    (case create_subscription (ros p) topic message_type of
                                       Inl e \<Rightarrow> Inl (Err (describe e @ ament_hint))
                                     | Inr _ \<Rightarrow> Inr (st\<lparr>subscribed := Some message_type, next_sequence := 0\<rparr>))))
                  (\<lambda>st. Inr (st\<lparr>next_discovery := discovery_done p + from_secs 1\<rparr>)))
      else Inr st)"

text \<open>
  \<open>pg_notify\<close> raises an error on a payload of 8000 bytes or more and on a channel name that is empty
  or does not fit an identifier; \<open>notify\<close> unwraps it. Of equal notifications in one transaction only the
  first is kept. They are delivered when the transaction commits.
\<close>

definition notify :: "string \<Rightarrow> string \<Rightarrow> string list \<Rightarrow> string list res" where
  "notify topic x sent =
     (if topic = [] \<or> NAMEDATALEN \<le> length topic then Inl (Panic ''channel name cannot be sent'')
      else if 8000 \<le> length x then Inl (Panic ''payload string too long'')
      else Inr (if x \<in> set sent then sent else sent @ [x]))"

text \<open>One result of the queue; the flag is the variable \<open>notified\<close> of the loop.\<close>

definition take_result :: "string \<Rightarrow> string res \<Rightarrow> bool \<times> receiver \<Rightarrow> (bool \<times> receiver) res" where
  "take_result topic r = (\<lambda>(flag, st).
     (case r of
        Inr x \<Rightarrow> map_res (\<lambda>sent. (True, st\<lparr>pending := sent\<rparr>)) (notify topic x (pending st))
      | Inl e \<Rightarrow> Inr (flag, st\<lparr>encoding_errors := encoding_errors st + 1, last_encoding_error := Some (fault_text e)\<rparr>)))"

text \<open>\<open>receiver.try_iter().take(256)\<close>, then \<open>SPI_commit\<close> if something was notified.\<close>

definition drain_queue :: "string \<Rightarrow> receiver \<Rightarrow> (bool \<times> receiver) res" where
  "drain_queue topic st =
     fold_res (take_result topic) (take CAPACITY (queue st)) (False, st\<lparr>queue := drop CAPACITY (queue st)\<rparr>)"

definition commit :: "bool \<times> receiver \<Rightarrow> receiver" where
  "commit = (\<lambda>(flag, st). if flag then st\<lparr>notified := notified st @ pending st, pending := []\<rparr> else st)"

definition report :: "pass \<Rightarrow> receiver \<Rightarrow> receiver" where
  "report p st =
     (if next_report st \<le> report_now p
      then st\<lparr>dropped := 0,
              warnings := warnings st @
                (if 0 < dropped st \<or> 0 < encoding_errors st
                 then [(dropped st, encoding_errors st,
                        case last_encoding_error st of None \<Rightarrow> ''none'' | Some e \<Rightarrow> e)]
                 else []),
              encoding_errors := 0, last_encoding_error := None,
              next_report := report_done p + from_secs 1\<rparr>
      else st)"

definition receive_pass :: "runtime \<Rightarrow> string \<Rightarrow> pass \<Rightarrow> receiver \<Rightarrow> receiver res" where
  "receive_pass rt topic p st =
     (let st = (case subscribed st of None \<Rightarrow> st
                | Some message_type \<Rightarrow> fold (enqueue rt topic message_type) (arrivals p) st)
      in case described (spin_outcome p) of
           Inl e \<Rightarrow> Inl (Err e)
         | Inr _ \<Rightarrow> and_then (discover_topic topic p st) (\<lambda>st.
             map_res (\<lambda>r. report p (commit r)) (drain_queue topic st)))"

fun receive :: "runtime \<Rightarrow> string \<Rightarrow> pass list \<Rightarrow> receiver \<Rightarrow> receiver res" where
  "receive rt topic [] st = Inr st"
| "receive rt topic (p # ps) st = and_then (receive_pass rt topic p st) (receive rt topic ps)"

section \<open>The procedure\<close>




section \<open>Accounting\<close>

text \<open>Messages numbered by the callback are notified, queued, counted as refused or as dropped.\<close>

definition accounted :: "receiver \<Rightarrow> u64" where
  "accounted st = of_nat (length (notified st)) + of_nat (length (queue st)) + dropped st +
     encoding_errors st + sum_list (map (\<lambda>(d, e, s). d + e) (warnings st))"

definition receiver_ok :: "receiver \<Rightarrow> bool" where
  "receiver_ok st \<longleftrightarrow> queue st = [] \<and> pending st = [] \<and> next_sequence st = accounted st \<and>
     list_all (\<lambda>x. length x \<le> NOTIFY_LIMIT) (notified st) \<and> (subscribed st = None \<longrightarrow> next_sequence st = 0)"

lemma new_receiver_ok: "receiver_ok (new_receiver a b)"
  by (simp add: receiver_ok_def new_receiver_def accounted_def)

text \<open>What the encoder makes of the messages of a topic, numbered from \<open>n\<close>.\<close>

fun numbered :: "runtime \<Rightarrow> string \<Rightarrow> string \<Rightarrow> u64 \<Rightarrow> message list \<Rightarrow> string res list" where
  "numbered rt topic ty n [] = []"
| "numbered rt topic ty n (m # ms) = payload rt topic ty n m NOTIFY_LIMIT # numbered rt topic ty (n + 1) ms"

definition delivered :: "string res list \<Rightarrow> string list" where
  "delivered rs = concat (map (\<lambda>r. case r of Inl e \<Rightarrow> [] | Inr x \<Rightarrow> [x]) rs)"

lemma delivered_simps [simp]:
  "delivered [] = []" "delivered (r # rs) = (case r of Inl e \<Rightarrow> [] | Inr x \<Rightarrow> [x]) @ delivered rs"
  "delivered (rs @ rs') = delivered rs @ delivered rs'"
  by (simp_all add: delivered_def)

lemma numbered_append:
  "numbered rt topic ty n (ms @ ms') = numbered rt topic ty n ms @ numbered rt topic ty (n + of_nat (length ms)) ms'"
  by (induction ms arbitrary: n) (simp_all add: add.assoc)

lemma length_numbered [simp]: "length (numbered rt topic ty n ms) = length ms"
  by (induction ms arbitrary: n) simp_all

lemma numbered_number:
  "x \<in> set (delivered (numbered rt topic ty n ms)) \<Longrightarrow>
    \<exists>i m. i < length ms \<and> payload rt topic ty (n + of_nat i) m NOTIFY_LIMIT = Inr x"
proof (induction ms arbitrary: n)
  case (Cons m ms)
  then consider "payload rt topic ty n m NOTIFY_LIMIT = Inr x" | "x \<in> set (delivered (numbered rt topic ty (n + 1) ms))"
    by (auto split: sum.splits)
  then show ?case
  proof cases
    case 1
    then show ?thesis by (intro exI [of _ 0] exI [of _ m]) simp
  next
    case 2
    from Cons.IH [OF this] obtain i m' where "i < length ms" "payload rt topic ty (n + 1 + of_nat i) m' NOTIFY_LIMIT = Inr x" by blast
    then show ?thesis by (intro exI [of _ "Suc i"] exI [of _ m']) (simp add: algebra_simps)
  qed
qed simp

text \<open>Payloads of one batch are different, since they carry different numbers.\<close>

lemma numbered_distinct: "length ms \<le> CAPACITY \<Longrightarrow> distinct (delivered (numbered rt topic ty n ms))"
proof (induction ms arbitrary: n)
  case (Cons m ms)
  have "x \<notin> set (delivered (numbered rt topic ty (n + 1) ms))" if "payload rt topic ty n m NOTIFY_LIMIT = Inr x" for x
  proof
    assume "x \<in> set (delivered (numbered rt topic ty (n + 1) ms))"
    from numbered_number [OF this] obtain i m' where i: "i < length ms"
      "payload rt topic ty (n + 1 + of_nat i) m' NOTIFY_LIMIT = Inr x" by blast
    from payload_numbered [OF that i(2)] have "(of_nat (Suc i) :: u64) = 0" by (simp add: add.assoc)
    then have "2 ^ LENGTH(64) dvd Suc i" by (simp only: word_of_nat_eq_0_iff)
    then have "2 ^ 64 dvd Suc i" by simp
    then have "2 ^ 64 \<le> Suc i" by (rule dvd_imp_le) simp
    with i(1) Cons.prems show False by (simp add: CAPACITY_def)
  qed
  with Cons.IH [of "n + 1"] Cons.prems show ?case by (auto split: sum.splits)
qed simp

text \<open>The callbacks fill the queue with the first messages and count the rest.\<close>

lemma enqueue_fields [simp]:
  "subscribed (enqueue rt topic ty m st) = subscribed st" "pending (enqueue rt topic ty m st) = pending st"
  "notified (enqueue rt topic ty m st) = notified st" "next_discovery (enqueue rt topic ty m st) = next_discovery st"
  by (simp_all add: enqueue_def Let_def)

lemma arrivals_fields [simp]:
  "subscribed (fold (enqueue rt topic ty) ms st) = subscribed st" "pending (fold (enqueue rt topic ty) ms st) = pending st"
  "notified (fold (enqueue rt topic ty) ms st) = notified st"
  "next_discovery (fold (enqueue rt topic ty) ms st) = next_discovery st"
  by (induction ms arbitrary: st) simp_all

lemma arrivals_accounted:
  "next_sequence st = accounted st \<Longrightarrow>
    next_sequence (fold (enqueue rt topic ty) ms st) = accounted (fold (enqueue rt topic ty) ms st)"
proof (induction ms arbitrary: st)
  case (Cons m ms)
  have "next_sequence (enqueue rt topic ty m st) = accounted (enqueue rt topic ty m st)"
    using Cons.prems by (simp add: enqueue_def Let_def accounted_def algebra_simps)
  from Cons.IH [OF this] show ?case by simp
qed simp

lemma arrivals_queue:
  "queue (fold (enqueue rt topic ty) ms st) =
    queue st @ numbered rt topic ty (next_sequence st) (take (CAPACITY - length (queue st)) ms)"
proof (induction ms arbitrary: st)
  case (Cons m ms)
  show ?case
  proof (cases "length (queue st) < CAPACITY")
    case True
    then obtain k where k: "CAPACITY - length (queue st) = Suc k" "CAPACITY - Suc (length (queue st)) = k"
      by (metis Suc_diff_Suc)
    with True Cons.IH [of "enqueue rt topic ty m st"] show ?thesis
      by (simp add: enqueue_def [of rt topic ty m st] Let_def)
  next
    case False
    with Cons.IH [of "enqueue rt topic ty m st"] show ?thesis by (simp add: enqueue_def [of rt topic ty m st] Let_def)
  qed
qed simp

text \<open>The state in the middle of a pass, when the queue is filled.\<close>

definition filled :: "receiver \<Rightarrow> bool" where
  "filled st \<longleftrightarrow> length (queue st) \<le> CAPACITY \<and> distinct (delivered (queue st)) \<and>
     list_all (\<lambda>x. length x \<le> NOTIFY_LIMIT) (delivered (queue st)) \<and> pending st = [] \<and>
     next_sequence st = accounted st \<and> list_all (\<lambda>x. length x \<le> NOTIFY_LIMIT) (notified st) \<and>
     (subscribed st = None \<longrightarrow> next_sequence st = 0)"

lemma arrivals_filled:
  assumes "receiver_ok st" and "subscribed st \<noteq> None"
  shows "filled (fold (enqueue rt topic ty) ms st)"
proof -
  have "x \<in> set (delivered (numbered rt topic ty n ms')) \<Longrightarrow> length x \<le> NOTIFY_LIMIT" for x n ms'
    using payload_limit numbered_number by blast
  with assms numbered_distinct [of "take CAPACITY ms" rt topic ty] show ?thesis
    by (auto simp: filled_def receiver_ok_def arrivals_queue arrivals_accounted list_all_iff)
qed

lemma discover_filled:
  assumes "filled st" and "discover_topic topic p st = Inr st'"
  shows "filled st'"
  using assms
  by (auto simp: discover_topic_def filled_def accounted_def Let_def split: if_splits sum.splits option.splits)

lemma discover_no_panic: "\<not> panics (discover_topic topic p st)"
  by (auto simp: discover_topic_def Let_def panics_and_then split: option.splits sum.splits)

text \<open>Taking one result moves it from the queue to its account; \<open>noted\<close> is before the commit.\<close>

definition settled :: "string res \<Rightarrow> receiver \<Rightarrow> receiver" where
  "settled r st = (case r of
       Inr x \<Rightarrow> st\<lparr>notified := notified st @ [x]\<rparr>
     | Inl e \<Rightarrow> st\<lparr>encoding_errors := encoding_errors st + 1, last_encoding_error := Some (fault_text e)\<rparr>)"

definition noted :: "string res \<Rightarrow> receiver \<Rightarrow> receiver" where
  "noted r st = (case r of
       Inr x \<Rightarrow> st\<lparr>pending := pending st @ [x]\<rparr>
     | Inl e \<Rightarrow> st\<lparr>encoding_errors := encoding_errors st + 1, last_encoding_error := Some (fault_text e)\<rparr>)"

lemma validated_channel: "validate_channel topic = Inr () \<Longrightarrow> topic \<noteq> [] \<and> length topic < NAMEDATALEN"
  by (cases topic) (auto simp: validate_channel_def validate_topic_def split: if_splits)

lemma results_noted:
  assumes "validate_channel topic = Inr ()" and "list_all (\<lambda>x. length x \<le> NOTIFY_LIMIT) (delivered rs)"
    and "distinct (pending st @ delivered rs)"
  shows "fold_res (take_result topic) rs (flag, st) = Inr (flag \<or> delivered rs \<noteq> [], fold noted rs st)"
  using assms(2,3)
proof (induction rs arbitrary: flag st)
  case (Cons r rs)
  show ?case
  proof (cases r)
    case (Inl e)
    with Cons show ?thesis by (simp add: take_result_def noted_def)
  next
    case (Inr x)
    with Cons.prems validated_channel [OF assms(1)] have
      "take_result topic r (flag, st) = Inr (True, st\<lparr>pending := pending st @ [x]\<rparr>)"
      by (auto simp: take_result_def notify_def NOTIFY_LIMIT_def)
    with Inr Cons.prems Cons.IH [of "st\<lparr>pending := pending st @ [x]\<rparr>" True] show ?thesis
      by (simp add: noted_def)
  qed
qed simp

lemma noted_committed:
  "(fold noted rs st)\<lparr>notified := notified (fold noted rs st) @ pending (fold noted rs st), pending := []\<rparr> =
    fold settled rs (st\<lparr>notified := notified st @ pending st, pending := []\<rparr>)"
proof (induction rs arbitrary: st)
  case (Cons r rs)
  have "settled r (st\<lparr>notified := notified st @ pending st, pending := []\<rparr>) =
      (noted r st)\<lparr>notified := notified (noted r st) @ pending (noted r st), pending := []\<rparr>"
    by (simp add: settled_def noted_def split: sum.split)
  with Cons.IH [of "noted r st"] show ?case by simp
qed simp

lemma noted_pending: "pending (fold noted rs st) = pending st @ delivered rs"
  by (induction rs arbitrary: st) (auto simp: noted_def split: sum.splits)

lemma drain_settled:
  assumes "validate_channel topic = Inr ()" and "filled st"
  shows "map_res commit (drain_queue topic st) = Inr (fold settled (queue st) (st\<lparr>queue := []\<rparr>))"
proof -
  let ?s = "st\<lparr>queue := []\<rparr>"
  have "drain_queue topic st = Inr (delivered (queue st) \<noteq> [], fold noted (queue st) ?s)"
    using assms(2) results_noted [OF assms(1), of "queue st" ?s False] by (simp add: drain_queue_def filled_def)
  moreover have "commit (delivered (queue st) \<noteq> [], fold noted (queue st) ?s) =
      (fold noted (queue st) ?s)\<lparr>notified := notified (fold noted (queue st) ?s) @ pending (fold noted (queue st) ?s), pending := []\<rparr>"
    using assms(2) by (simp add: commit_def noted_pending filled_def)
  moreover have "?s\<lparr>notified := notified ?s @ pending ?s, pending := []\<rparr> = ?s" using assms(2) by (simp add: filled_def)
  ultimately show ?thesis using noted_committed [of "queue st" ?s] by simp
qed

section \<open>Runs of the loop\<close>

lemma fold_settled_fields [simp]:
  "notified (fold settled rs st) = notified st @ delivered rs" "pending (fold settled rs st) = pending st"
  "queue (fold settled rs st) = queue st" "dropped (fold settled rs st) = dropped st"
  "warnings (fold settled rs st) = warnings st" "subscribed (fold settled rs st) = subscribed st"
  "next_sequence (fold settled rs st) = next_sequence st"
  "next_discovery (fold settled rs st) = next_discovery st"
  by (induction rs arbitrary: st) (auto simp: settled_def split: sum.splits)

lemma fold_settled_errors:
  "encoding_errors (fold settled rs st) + of_nat (length (notified (fold settled rs st))) =
     encoding_errors st + of_nat (length (notified st)) + of_nat (length rs)"
proof (induction rs arbitrary: st)
  case (Cons r rs)
  have "encoding_errors (settled r st) + of_nat (length (notified (settled r st))) =
      encoding_errors st + of_nat (length (notified st)) + 1"
    by (cases r) (simp_all add: settled_def)
  with Cons.IH [of "settled r st"] show ?case by (simp add: add.assoc add.commute)
qed simp

lemma drained_accounted:
  "accounted (fold settled (queue st) (st\<lparr>queue := []\<rparr>)) = accounted st"
  using fold_settled_errors [of "queue st" "st\<lparr>queue := []\<rparr>"]
  by (simp add: accounted_def algebra_simps del: fold_settled_fields(1))

lemma drained_ok: "filled st \<Longrightarrow> receiver_ok (fold settled (queue st) (st\<lparr>queue := []\<rparr>))"
  unfolding receiver_ok_def filled_def drained_accounted by auto

lemma report_accounted [simp]: "accounted (report p st) = accounted st"
proof -
  have "\<not> 0 < dropped st \<Longrightarrow> \<not> 0 < encoding_errors st \<Longrightarrow> dropped st = 0 \<and> encoding_errors st = 0"
    by (simp add: word_gt_0)
  then show ?thesis by (auto simp: accounted_def report_def)
qed

lemma report_fields [simp]:
  "notified (report p st) = notified st" "queue (report p st) = queue st" "pending (report p st) = pending st"
  "subscribed (report p st) = subscribed st" "next_sequence (report p st) = next_sequence st"
  "next_discovery (report p st) = next_discovery st"
  by (simp_all add: report_def)

lemma report_ok: "receiver_ok st \<Longrightarrow> receiver_ok (report p st)"
  unfolding receiver_ok_def report_accounted report_fields .

definition arrived :: "runtime \<Rightarrow> string \<Rightarrow> pass \<Rightarrow> receiver \<Rightarrow> receiver" where
  "arrived rt topic p st = (case subscribed st of None \<Rightarrow> st
     | Some ty \<Rightarrow> fold (enqueue rt topic ty) (arrivals p) st)"

lemma arrived_fields [simp]:
  "next_discovery (arrived rt topic p st) = next_discovery st" "subscribed (arrived rt topic p st) = subscribed st"
  by (auto simp: arrived_def split: option.splits)

lemma arrived_filled:
  assumes "receiver_ok st"
  shows "filled (arrived rt topic p st)"
proof (cases "subscribed st")
  case None
  with assms show ?thesis by (auto simp: arrived_def filled_def receiver_ok_def)
next
  case (Some ty)
  with arrivals_filled [OF assms] show ?thesis by (simp add: arrived_def)
qed

text \<open>A pass on a validated channel: the spin and the discovery can fail, the rest is total.\<close>

lemma receive_pass_settled:
  assumes "validate_channel topic = Inr ()" and "receiver_ok st"
  shows "receive_pass rt topic p st =
    (case described (spin_outcome p) of Inl e \<Rightarrow> Inl (Err e)
     | Inr _ \<Rightarrow> map_res (\<lambda>s. report p (fold settled (queue s) (s\<lparr>queue := []\<rparr>)))
         (discover_topic topic p (arrived rt topic p st)))"
proof (cases "discover_topic topic p (arrived rt topic p st)")
  case (Inr s)
  from drain_settled [OF assms(1) discover_filled [OF arrived_filled [OF assms(2)] Inr]] obtain r where
    "drain_queue topic s = Inr r" "commit r = fold settled (queue s) (s\<lparr>queue := []\<rparr>)" by (cases "drain_queue topic s") auto
  with Inr show ?thesis by (simp add: receive_pass_def arrived_def split: sum.splits)
qed (simp add: receive_pass_def arrived_def split: sum.splits)

lemma receive_pass_ok:
  assumes "validate_channel topic = Inr ()" and "receiver_ok st"
  shows "\<not> panics (receive_pass rt topic p st) \<and> (\<forall>st'. receive_pass rt topic p st = Inr st' \<longrightarrow> receiver_ok st')"
  using receive_pass_settled [OF assms, of rt p] discover_no_panic [of topic p "arrived rt topic p st"]
    discover_filled [OF arrived_filled [OF assms(2)], of topic p rt topic p]
  by (auto split: sum.splits intro!: report_ok drained_ok)

lemma receive_ok:
  assumes "validate_channel topic = Inr ()" and "receiver_ok st"
  shows "\<not> panics (receive rt topic ps st) \<and> (\<forall>st'. receive rt topic ps st = Inr st' \<longrightarrow> receiver_ok st')"
  using assms(2)
proof (induction ps arbitrary: st)
  case (Cons p ps)
  with receive_pass_ok [OF assms(1) Cons.prems, of rt p] show ?case by (auto simp: panics_and_then)
qed simp

text \<open>
  C20. Every message the callback numbers is accounted for: after any number of passes it was delivered
  to the listeners, although PostgreSQL drops equal notifications of one transaction, or it is counted as
  dropped or as refused by the encoder, in the counters or in a warning already written. No queue and
  no transaction is left open, and no notification is longer than the 7999 bytes that \<open>pg_notify\<close>
  accepts. Counters are \<open>u64\<close>, so the equation holds modulo \<open>2 ^ 64\<close>.
\<close>

theorem receive_accounts:
  assumes "validate_channel topic = Inr ()"
    and "receive rt topic ps (new_receiver d0 r0) = Inr st"
  shows "next_sequence st = of_nat (length (notified st)) + dropped st + encoding_errors st +
      (\<Sum>(d, e, s) \<leftarrow> warnings st. d + e) \<and>
    queue st = [] \<and> pending st = [] \<and> list_all (\<lambda>x. length x < 8000) (notified st)"
proof -
  from receive_ok [OF assms(1) new_receiver_ok] assms(2) have ok: "receiver_ok st" by blast
  then have "list_all (\<lambda>x. length x \<le> NOTIFY_LIMIT) (notified st)" by (simp add: receiver_ok_def)
  then have "list_all (\<lambda>x. length x < 8000) (notified st)" by (auto simp: list_all_iff NOTIFY_LIMIT_def)
  with ok show ?thesis by (simp add: receiver_ok_def accounted_def)
qed

section \<open>Nothing is lost below the capacity\<close>

lemma enqueue_all:
  assumes "length (queue st) + length ms \<le> CAPACITY"
  shows "fold (enqueue rt topic ty) ms st = st\<lparr>next_sequence := next_sequence st + of_nat (length ms),
    queue := queue st @ numbered rt topic ty (next_sequence st) ms\<rparr>"
  using assms
proof (induction ms arbitrary: st)
  case (Cons m ms)
  from Cons.prems have "length (queue st) < CAPACITY" by simp
  then have "enqueue rt topic ty m st = st\<lparr>next_sequence := next_sequence st + 1,
      queue := queue st @ [payload rt topic ty (next_sequence st) m NOTIFY_LIMIT]\<rparr>"
    by (simp add: enqueue_def Let_def)
  with Cons show ?case by (simp add: add.assoc)
qed simp

lemma discover_subscribed: "subscribed st = Some ty \<Longrightarrow> discover_topic topic p st = Inr st"
  by (simp add: discover_topic_def)

text \<open>One pass below the capacity sends what arrived during its spin.\<close>

lemma pass_delivers:
  assumes "validate_channel topic = Inr ()" and "receiver_ok st" and "subscribed st = Some ty"
    and "dropped st = 0" and "length (arrivals p) \<le> CAPACITY" and "spin_outcome p = Inr ()"
  shows "\<exists>st'. receive_pass rt topic p st = Inr st' \<and> receiver_ok st' \<and> subscribed st' = Some ty \<and>
    queue st' = [] \<and> dropped st' = 0 \<and> next_sequence st' = next_sequence st + of_nat (length (arrivals p)) \<and>
    notified st' = notified st @ delivered (numbered rt topic ty (next_sequence st) (arrivals p))"
proof -
  define s where "s = arrived rt topic p st"
  have s: "s = st\<lparr>next_sequence := next_sequence st + of_nat (length (arrivals p)),
      queue := numbered rt topic ty (next_sequence st) (arrivals p)\<rparr>"
    using enqueue_all [of st "arrivals p" rt topic ty] assms by (simp add: s_def arrived_def receiver_ok_def)
  then have "subscribed s = Some ty" using assms(3) by simp
  then have "discover_topic topic p s = Inr s" by (rule discover_subscribed)
  then have r: "receive_pass rt topic p st = Inr (report p (fold settled (queue s) (s\<lparr>queue := []\<rparr>)))"
    by (simp add: receive_pass_settled [OF assms(1,2)] assms(6) described_def flip: s_def)
  moreover have "dropped (report p t) = 0" if "dropped t = 0" for t
    using that by (simp add: report_def)
  moreover from r receive_pass_ok [OF assms(1,2), of rt p]
  have "receiver_ok (report p (fold settled (queue s) (s\<lparr>queue := []\<rparr>)))" by simp
  ultimately show ?thesis
    using assms(3,4)
    by (intro exI [of _ "report p (fold settled (queue s) (s\<lparr>queue := []\<rparr>))"]) (simp add: s)
qed

text \<open>
  C11. While no spin brings more than 256 messages, the loop with its bounded queue is the plain map of
  the encoder over all messages that arrive: no message is lost, none is sent twice, the order is kept,
  each pass delivers in one transaction what arrived in its spin, and the drop counter stays at zero.
\<close>

theorem receive_delivers_in_order:
  assumes "validate_channel topic = Inr ()" and "receiver_ok st" and "subscribed st = Some ty"
    and "dropped st = 0" and "list_all (\<lambda>p. length (arrivals p) \<le> CAPACITY \<and> spin_outcome p = Inr ()) ps"
  shows "\<exists>st'. receive rt topic ps st = Inr st' \<and> queue st' = [] \<and> dropped st' = 0 \<and>
    notified st' = notified st @ delivered (numbered rt topic ty (next_sequence st) (concat (map arrivals ps)))"
  using assms(2-5)
proof (induction ps arbitrary: st)
  case (Cons p ps)
  from Cons.prems have p: "length (arrivals p) \<le> CAPACITY" "spin_outcome p = Inr ()"
    and ps: "list_all (\<lambda>p. length (arrivals p) \<le> CAPACITY \<and> spin_outcome p = Inr ()) ps" by simp_all
  from pass_delivers [OF assms(1) Cons.prems(1-3) p, where rt = rt] obtain s where
    s: "receive_pass rt topic p st = Inr s" "receiver_ok s" "subscribed s = Some ty" "queue s = []" "dropped s = 0"
    "next_sequence s = next_sequence st + of_nat (length (arrivals p))"
    "notified s = notified st @ delivered (numbered rt topic ty (next_sequence st) (arrivals p))" by blast
  from Cons.IH [OF s(2,3,5) ps] s(1,6,7) show ?case
    by (auto simp: numbered_append)
qed (simp add: receiver_ok_def)

section \<open>A topic that is advertised gets subscribed\<close>

text \<open>The middleware advertises the topic with one type and can create the subscription.\<close>

definition offers :: "middleware \<Rightarrow> string \<Rightarrow> string \<Rightarrow> bool" where
  "offers m topic ty \<longleftrightarrow> (\<exists>ts. topic_types m = Inr ts \<and> map_of ts topic = Some [ty]) \<and>
     parse_type m ty = Inr () \<and> create_subscription m topic ty = Inr ()"

lemma discover_offered:
  assumes "offers (ros p) topic ty" and "next_discovery st \<le> discovery_now p" and "subscribed st = None"
  shows "discover_topic topic p st =
    Inr (st\<lparr>subscribed := Some ty, next_sequence := 0, next_discovery := discovery_done p + from_secs 1\<rparr>)"
  using assms by (auto simp: offers_def discover_topic_def described_def)

lemma discover_deadline:
  "discover_topic topic p st = Inr st' \<Longrightarrow> next_discovery st' = next_discovery st \<or>
    next_discovery st' = discovery_done p + from_secs 1"
  by (auto simp: discover_topic_def Let_def split: if_splits sum.splits option.splits)

lemma receive_deadline:
  assumes "validate_channel topic = Inr ()" and "receiver_ok st" and "receive rt topic ps st = Inr st'"
    and "next_discovery st \<le> t" and "list_all (\<lambda>p. discovery_done p + from_secs 1 \<le> t) ps"
  shows "next_discovery st' \<le> t"
  using assms(2-5)
proof (induction ps arbitrary: st)
  case (Cons p ps)
  from Cons.prems(2) obtain s where s: "receive_pass rt topic p st = Inr s" "receive rt topic ps s = Inr st'" by auto
  from s(1) obtain s1 where "discover_topic topic p (arrived rt topic p st) = Inr s1"
    "s = report p (fold settled (queue s1) (s1\<lparr>queue := []\<rparr>))"
    by (auto simp: receive_pass_settled [OF assms(1) Cons.prems(1)] split: sum.splits)
  with discover_deadline Cons.prems(3,4) have "next_discovery s \<le> t" by fastforce
  with Cons.IH [OF _ s(2)] receive_pass_ok [OF assms(1) Cons.prems(1), of rt p] s(1) Cons.prems(4)
  show ?case by simp
qed simp

text \<open>
  C26. A subscription is made as soon as it can be: in a pass at least one second after the discoveries
  before it, a topic advertised with a unique type that the middleware accepts is subscribed with that
  type, whatever happened in the passes before, unless a pass failed.
\<close>

theorem offered_topic_gets_subscribed:
  assumes "validate_channel topic = Inr ()"
    and "receive rt topic ps (new_receiver d0 r0) = Inr st" and "d0 \<le> discovery_now p"
    and "list_all (\<lambda>q. discovery_done q + from_secs 1 \<le> discovery_now p) ps"
    and "offers (ros p) topic ty" and "spin_outcome p = Inr ()"
  shows "\<exists>st'. receive rt topic (ps @ [p]) (new_receiver d0 r0) = Inr st' \<and>
    subscribed st' = (if subscribed st = None then Some ty else subscribed st)"
proof -
  from receive_ok [OF assms(1) new_receiver_ok] assms(2) have ok: "receiver_ok st" by blast
  from receive_deadline [OF assms(1) new_receiver_ok assms(2) _ assms(4)] assms(3)
  have due: "next_discovery (arrived rt topic p st) \<le> discovery_now p" by (simp add: new_receiver_def)
  have run: "receive rt topic (ps @ [p]) s = and_then (receive rt topic ps s) (receive_pass rt topic p)" for s
  proof (induction ps arbitrary: s)
    case Nil
    then show ?case by (cases "receive_pass rt topic p s") simp_all
  next
    case (Cons q ps)
    then show ?case by (cases "receive_pass rt topic q s") simp_all
  qed
  from discover_offered [OF assms(5) due] discover_subscribed [of "arrived rt topic p st"] show ?thesis
    by (cases "subscribed st") (simp_all add: run assms(2,6) receive_pass_settled [OF assms(1) ok] described_def)
qed

section \<open>The guards of the procedure\<close>


section \<open>A run for the witnesses\<close>

definition sample_node :: middleware where
  "sample_node = \<lparr>topic_types = Inr [(''/t'', [''T''])], parse_type = (\<lambda>_. Inr ()),
     create_subscription = (\<lambda>_ _. Inr ())\<rparr>"

text \<open>A pass that ends \<open>s\<close> seconds after the start of the clock.\<close>

definition sample_pass :: "u64 \<Rightarrow> message list \<Rightarrow> pass" where
  "sample_pass s ms =
     \<lparr>spin_outcome = Inr (), arrivals = ms, discovery_now = from_secs s, discovery_done = from_secs s,
      report_now = from_secs s, report_done = from_secs s, ros = sample_node\<rparr>"

lemma sample_topic: "validate_channel ''/t'' = Inr ()"
  by (simp add: validate_channel_def NAMEDATALEN_def validate_topic_def bad_segment_def
      is_ascii_alphabetic_def is_ascii_alphanumeric_def)

lemma sample_pass_simps [simp]:
  "spin_outcome (sample_pass s ms) = Inr ()" "arrivals (sample_pass s ms) = ms"
  "discovery_now (sample_pass s ms) = from_secs s" "discovery_done (sample_pass s ms) = from_secs s"
  "ros (sample_pass s ms) = sample_node"
  by (simp_all add: sample_pass_def)

lemma sample_offers: "offers sample_node ''/t'' ''T''"
  by (simp add: offers_def sample_node_def)

text \<open>The first pass subscribes, the second brings two messages.\<close>

lemma sample_first:
  "\<exists>st. receive_pass sample_runtime ''/t'' (sample_pass 0 []) (new_receiver 0 0) = Inr st \<and> receiver_ok st \<and>
    subscribed st = Some ''T'' \<and> queue st = [] \<and> dropped st = 0 \<and> next_sequence st = 0 \<and> notified st = []"
proof -
  define n where "n = new_receiver 0 0"
  define s where "s = n\<lparr>subscribed := Some ''T'', next_sequence := 0, next_discovery := from_secs 1\<rparr>"
  have "arrived sample_runtime ''/t'' (sample_pass 0 []) n = n"
    by (simp add: arrived_def n_def new_receiver_def)
  then have "discover_topic ''/t'' (sample_pass 0 []) (arrived sample_runtime ''/t'' (sample_pass 0 []) n) = Inr s"
    by (subst discover_offered [where ty = "''T''"])
      (simp_all add: sample_offers s_def n_def new_receiver_def from_secs_def)
  moreover have "queue s = []" and "report (sample_pass 0 []) (s\<lparr>queue := []\<rparr>) = report (sample_pass 0 []) s"
    by (simp_all add: s_def n_def new_receiver_def)
  moreover have "receiver_ok n" unfolding n_def by (rule new_receiver_ok)
  ultimately have r: "receive_pass sample_runtime ''/t'' (sample_pass 0 []) n = Inr (report (sample_pass 0 []) s)"
    by (simp add: receive_pass_settled [OF sample_topic] described_def)
  with receive_pass_ok [OF sample_topic \<open>receiver_ok n\<close>] have "receiver_ok (report (sample_pass 0 []) s)" by blast
  with r show ?thesis
    unfolding n_def [symmetric]
    by (intro exI [of _ "report (sample_pass 0 []) s"]) (simp add: report_def s_def n_def new_receiver_def)
qed

theorem receive_accounts_witness:
  "\<exists>st. receive sample_runtime ''/t'' [sample_pass 0 [], sample_pass 1 [sample_message, Msg []]] (new_receiver 0 0) = Inr st \<and>
    2 = of_nat (length (notified st)) + dropped st + encoding_errors st + (\<Sum>(d, e, s) \<leftarrow> warnings st. d + e)"
proof -
  from sample_first obtain s where s: "receive_pass sample_runtime ''/t'' (sample_pass 0 []) (new_receiver 0 0) = Inr s"
    "receiver_ok s" "subscribed s = Some ''T''" "queue s = []" "dropped s = 0" "next_sequence s = 0" by blast
  from pass_delivers [OF sample_topic s(2,3,5), of "sample_pass 1 [sample_message, Msg []]" sample_runtime] s(6)
  obtain st where st: "receive_pass sample_runtime ''/t'' (sample_pass 1 [sample_message, Msg []]) s = Inr st"
    "next_sequence st = 2" by (auto simp: CAPACITY_def)
  with s(1) have "receive sample_runtime ''/t'' [sample_pass 0 [], sample_pass 1 [sample_message, Msg []]]
      (new_receiver 0 0) = Inr st" by simp
  from receive_accounts [OF sample_topic this] this st(2) show ?thesis by auto
qed

theorem receive_delivers_in_order_witness:
  "\<exists>s st. receive_pass sample_runtime ''/t'' (sample_pass 0 []) (new_receiver 0 0) = Inr s \<and>
    receive sample_runtime ''/t'' [sample_pass 1 [sample_message, Msg []], sample_pass 2 [sample_message]] s = Inr st \<and>
    notified st = delivered
      [payload sample_runtime ''/t'' ''T'' 0 sample_message NOTIFY_LIMIT,
       payload sample_runtime ''/t'' ''T'' 1 (Msg []) NOTIFY_LIMIT,
       payload sample_runtime ''/t'' ''T'' 2 sample_message NOTIFY_LIMIT]"
proof -
  from sample_first obtain s where s: "receive_pass sample_runtime ''/t'' (sample_pass 0 []) (new_receiver 0 0) = Inr s"
    "receiver_ok s" "subscribed s = Some ''T''" "queue s = []" "dropped s = 0" "next_sequence s = 0"
    "notified s = []" by blast
  from receive_delivers_in_order [OF sample_topic s(2,3,5),
      of "[sample_pass 1 [sample_message, Msg []], sample_pass 2 [sample_message]]" sample_runtime] s(1,6,7)
  show ?thesis by (auto simp: CAPACITY_def)
qed

theorem offered_topic_gets_subscribed_witness:
  "\<exists>st'. receive sample_runtime ''/t'' ([] @ [sample_pass 1 []]) (new_receiver 0 0) = Inr st' \<and>
    subscribed st' = Some ''T''"
  using offered_topic_gets_subscribed [OF sample_topic, of sample_runtime "[]" 0 0 "new_receiver 0 0" "sample_pass 1 []" "''T''"]
  by (simp add: sample_offers new_receiver_def)


end
