(* ===== verification/Publish.thy ===== *)
theory Publish
  imports Naming Decoder Parameters Messages
begin

text \<open>
  \<open>src/publish.rs\<close>: publishing one message from SQL. The backend keeps a session with a publisher for
  each topic and message type it has published. The outside world (clock, ROS graph, middleware,
  cancellation) is a record of answers to calls, which are numbered; the three loops are
  \<open>partial_function\<close>s over it, so that \<open>None\<close> means that a loop never ends.
\<close>

section \<open>The outside world and the state of a backend\<close>

record outside =
  clock :: "nat \<Rightarrow> instant"
  open_session :: "nat \<Rightarrow> error + unit"
  graph :: "nat \<Rightarrow> error + (string \<times> string list) list"
  type_name :: "string \<Rightarrow> error + unit"
  new_message :: "nat \<Rightarrow> string \<Rightarrow> error + message"
  new_publisher :: "nat \<Rightarrow> string \<Rightarrow> string \<Rightarrow> error + unit"
  subscription_count :: "nat \<Rightarrow> error + nat"
  hand_over :: "nat \<Rightarrow> error + unit"
  spun :: "nat \<Rightarrow> duration \<Rightarrow> error + unit"
  interrupted :: "nat \<Rightarrow> bool"

text \<open>
  \<open>session\<close> holds the keys of the cached publishers; \<open>opened\<close>, \<open>created\<close> and \<open>sent\<close> record what the
  backend did to ROS: sessions, publishers, and messages handed to a publisher of a topic and type.
\<close>

record backend =
  session :: "(string \<times> string) list option"
  calls :: nat
  opened :: nat
  created :: "(string \<times> string) list"
  sent :: "((string \<times> string) \<times> message) list"

definition next_call :: "backend \<Rightarrow> backend" where
  "next_call b = b\<lparr>calls := calls b + 1\<rparr>"

text \<open>
  A computation may not end, and it leaves its state behind when it fails. \<open>ask\<close> makes one numbered
  call; \<open>and_do\<close> is the operator \<open>?\<close>.
\<close>

type_synonym 'a proc = "backend \<Rightarrow> ('a res \<times> backend) option"

definition ask :: "(nat \<Rightarrow> error + 'a) \<Rightarrow> 'a proc" where
  "ask f b = Some (case described (f (calls b)) of Inl e \<Rightarrow> Inl (Err e) | Inr a \<Rightarrow> Inr a, next_call b)"

definition read_clock :: "outside \<Rightarrow> instant proc" where
  "read_clock w b = Some (Inr (clock w (calls b)), next_call b)"

definition give :: "'a res \<Rightarrow> 'a proc" where
  "give r b = Some (r, b)"

definition and_do :: "'a proc \<Rightarrow> ('a \<Rightarrow> 'b proc) \<Rightarrow> 'b proc" where
  "and_do m f b = (case m b of
       None \<Rightarrow> None
     | Some (Inl e, b') \<Rightarrow> Some (Inl e, b')
     | Some (Inr a, b') \<Rightarrow> f a b')"

section \<open>The loops\<close>

definition DISCOVERY :: duration where "DISCOVERY = from_secs 5"
definition MATCHING :: duration where "MATCHING = from_secs 2"
definition FLUSH :: duration where "FLUSH = from_millis 100"
definition CACHED_FLUSH :: duration where "CACHED_FLUSH = from_millis 10"
definition SPIN :: duration where "SPIN = from_millis 100"

text \<open>\<open>check_for_interrupts!\<close> raises the cancellation of the statement past every caller.\<close>

definition canceled :: fault where
  "canceled = Panic ''canceling statement due to user request''"

definition spin_for :: "outside \<Rightarrow> duration \<Rightarrow> unit proc" where
  "spin_for w timeout b =
     (if interrupted w (calls b) then Some (Inl canceled, next_call b)
      else ask (\<lambda>n. spun w n timeout) (next_call b))"

partial_function (option) discover_loop :: "outside \<Rightarrow> string \<Rightarrow> instant \<Rightarrow> string proc" where
  "discover_loop w topic until b =
     (case described (graph w (calls b)) of
        Inl e \<Rightarrow> Some (Inl (Err e), next_call b)
      | Inr topics \<Rightarrow>
          (case map_of topics topic of
             Some types \<Rightarrow>
               Some (if length types \<noteq> 1
                     then Inl (Err ''topic has multiple message types; a unique type is required'')
                     else Inr (types ! 0), next_call b)
           | None \<Rightarrow>
               if until \<le> clock w (calls (next_call b))
               then Some (Inl (Err (''topic '' @ topic @ '' has no unique advertised message type; pass the message type explicitly'')),
                      next_call (next_call b))
               else (case spin_for w SPIN (next_call (next_call b)) of
                       None \<Rightarrow> None
                     | Some (Inl e, b') \<Rightarrow> Some (Inl e, b')
                     | Some (Inr _, b') \<Rightarrow> discover_loop w topic until b')))"

definition discover :: "outside \<Rightarrow> string \<Rightarrow> string proc" where
  "discover w topic = and_do (read_clock w) (\<lambda>now. discover_loop w topic (now + DISCOVERY))"

text \<open>The condition \<open>matched > 0 || Instant::now() >= deadline\<close> reads the clock only without a match.\<close>

partial_function (option) wait_loop :: "outside \<Rightarrow> instant \<Rightarrow> unit proc" where
  "wait_loop w until b =
     (case described (subscription_count w (calls b)) of
        Inl e \<Rightarrow> Some (Inl (Err e), next_call b)
      | Inr matched \<Rightarrow>
          if 0 < matched then Some (Inr (), next_call b)
          else if until \<le> clock w (calls (next_call b)) then Some (Inr (), next_call (next_call b))
          else (case spin_for w SPIN (next_call (next_call b)) of
                  None \<Rightarrow> None
                | Some (Inl e, b') \<Rightarrow> Some (Inl e, b')
                | Some (Inr _, b') \<Rightarrow> wait_loop w until b'))"

definition wait_for_subscriber :: "outside \<Rightarrow> unit proc" where
  "wait_for_subscriber w = and_do (read_clock w) (\<lambda>now. wait_loop w (now + MATCHING))"

partial_function (option) flush_loop :: "outside \<Rightarrow> instant \<Rightarrow> unit proc" where
  "flush_loop w until b =
     (let remaining = until - clock w (calls b)
      in if remaining = 0 then Some (Inr (), next_call b)
         else (case spin_for w (min remaining SPIN) (next_call b) of
                 None \<Rightarrow> None
               | Some (Inl e, b') \<Rightarrow> Some (Inl e, b')
               | Some (Inr _, b') \<Rightarrow> flush_loop w until b'))"

definition flush_for :: "outside \<Rightarrow> duration \<Rightarrow> unit proc" where
  "flush_for w d = and_do (read_clock w) (\<lambda>now. flush_loop w (now + d))"

section \<open>Publishing\<close>

definition build_message :: "runtime \<Rightarrow> outside \<Rightarrow> string \<Rightarrow> json \<Rightarrow> message proc" where
  "build_message rt w kind v =
     and_do (ask (\<lambda>n. new_message w n kind)) (\<lambda>dynamic. give (decode rt dynamic v))"

text \<open>\<open>publisher.publish(dynamic)\<close>: a message the middleware refuses is not sent.\<close>

definition publish_sample :: "outside \<Rightarrow> string \<times> string \<Rightarrow> message \<Rightarrow> unit proc" where
  "publish_sample w key m = and_do (ask (hand_over w)) (\<lambda>_ b. Some (Inr (), b\<lparr>sent := sent b @ [(key, m)]\<rparr>))"

definition create_publisher :: "outside \<Rightarrow> string \<times> string \<Rightarrow> unit proc" where
  "create_publisher w key b =
     (case new_publisher w (calls b) (fst key) (snd key) of
        Inl e \<Rightarrow> Some (Inl (Err (describe e @ ament_hint)), next_call b)
      | Inr _ \<Rightarrow> Some (Inr (), (next_call b)\<lparr>created := created b @ [key]\<rparr>))"

definition cache_publisher :: "string \<times> string \<Rightarrow> backend \<Rightarrow> backend" where
  "cache_publisher key b = b\<lparr>session := map_option (\<lambda>keys. keys @ [key]) (session b)\<rparr>"

definition cached :: "string \<times> string \<Rightarrow> backend \<Rightarrow> bool" where
  "cached key b = (case session b of None \<Rightarrow> False | Some keys \<Rightarrow> key \<in> set keys)"

definition publish_with_session ::
  "runtime \<Rightarrow> outside \<Rightarrow> string \<Rightarrow> string option \<Rightarrow> json \<Rightarrow> string proc"
where
  "publish_with_session rt w topic message_type v =
     and_do (case message_type of Some kind \<Rightarrow> give (Inr kind) | None \<Rightarrow> discover w topic) (\<lambda>resolved.
     and_do (give (case described (type_name w resolved) of Inl e \<Rightarrow> Inl (Err e) | Inr u \<Rightarrow> Inr u)) (\<lambda>_ b.
       (let key = (topic, resolved)
        in if cached key b
           then and_do (build_message rt w resolved v) (\<lambda>dynamic.
                and_do (wait_for_subscriber w) (\<lambda>_.
                and_do (publish_sample w key dynamic) (\<lambda>_.
                and_do (flush_for w CACHED_FLUSH) (\<lambda>_. give (Inr resolved))))) b
           else and_do (build_message rt w resolved v) (\<lambda>dynamic.
                and_do (create_publisher w key) (\<lambda>_.
                and_do (wait_for_subscriber w) (\<lambda>_.
                and_do (publish_sample w key dynamic) (\<lambda>_.
                and_do (flush_for w FLUSH) (\<lambda>_ b. Some (Inr resolved, cache_publisher key b)))))) b)))"

text \<open>\<open>PublisherSession::new\<close>: the context and the node; a failure leaves no session.\<close>

definition with_session :: "outside \<Rightarrow> 'a proc \<Rightarrow> 'a proc" where
  "with_session w act b =
     (case session b of
        Some _ \<Rightarrow> act b
      | None \<Rightarrow> and_do (ask (open_session w)) (\<lambda>_ b. act (b\<lparr>session := Some [], opened := opened b + 1\<rparr>)) b)"

definition run :: "runtime \<Rightarrow> outside \<Rightarrow> string \<Rightarrow> string option \<Rightarrow> json \<Rightarrow> string proc" where
  "run rt w topic message_type v =
     and_do (give (validate_topic topic)) (\<lambda>_.
       with_session w (publish_with_session rt w topic message_type v))"

text \<open>The SQL functions: an error names the topic.\<close>

definition publish_message :: "runtime \<Rightarrow> outside \<Rightarrow> string \<Rightarrow> string option \<Rightarrow> json \<Rightarrow> string proc" where
  "publish_message rt w topic message_type v b =
     (case run rt w topic message_type v b of
        None \<Rightarrow> None
      | Some (Inr resolved, b') \<Rightarrow> Some (Inr resolved, b')
      | Some (Inl (Err e), b') \<Rightarrow> Some (Inl (Err (''publish to '' @ topic @ '' failed: '' @ e)), b')
      | Some (Inl (Panic e), b') \<Rightarrow> Some (Inl (Panic e), b'))"

section \<open>What a computation leaves alone\<close>

text \<open>Asking the outside world changes nothing but the number of calls.\<close>

definition later :: "backend \<Rightarrow> backend \<Rightarrow> bool" where
  "later b b' \<longleftrightarrow> calls b \<le> calls b' \<and> session b' = session b \<and> opened b' = opened b \<and>
     created b' = created b \<and> sent b' = sent b"

definition quiet :: "'a proc \<Rightarrow> bool" where
  "quiet m \<longleftrightarrow> (\<forall>b r b'. m b = Some (r, b') \<longrightarrow> later b b')"

lemma later_refl [simp]: "later b b"
  by (simp add: later_def)

lemma later_trans: "later b b1 \<Longrightarrow> later b1 b2 \<Longrightarrow> later b b2"
  by (simp add: later_def)

lemma later_cached: "later b b' \<Longrightarrow> cached key b' = cached key b"
  by (simp add: later_def cached_def)

lemma next_call_simps [simp]:
  "calls (next_call b) = Suc (calls b)" "session (next_call b) = session b" "opened (next_call b) = opened b"
  "created (next_call b) = created b" "sent (next_call b) = sent b" "cached key (next_call b) = cached key b"
  by (simp_all add: next_call_def cached_def)

lemma later_next [simp]: "later b (next_call b)"
  by (simp add: later_def)

lemma later_next2 [simp]: "later b (next_call (next_call b))"
  by (simp add: later_def)

lemma quietD: "quiet m \<Longrightarrow> m b = Some (r, b') \<Longrightarrow> later b b'"
  by (auto simp: quiet_def)

lemma quiet_primitives [intro, simp]: "quiet (ask f)" "quiet (read_clock w)" "quiet (give r)"
  by (auto simp: quiet_def ask_def read_clock_def give_def)

lemma and_do_SomeE:
  assumes "and_do m f b = Some (r, b')"
  obtains (failed) e where "m b = Some (Inl e, b')" "r = Inl e"
    | (went) a b1 where "m b = Some (Inr a, b1)" "f a b1 = Some (r, b')"
  using assms by (auto simp: and_do_def split: option.splits sum.splits prod.splits)

lemma quiet_and_do [intro]: "quiet m \<Longrightarrow> (\<And>a. quiet (f a)) \<Longrightarrow> quiet (and_do m f)"
  unfolding quiet_def by (blast elim: and_do_SomeE intro: later_trans)

lemma spin_for_Some: "\<exists>r b'. spin_for w d b = Some (r, b')"
  by (simp add: spin_for_def ask_def)

lemma spin_for_later: "spin_for w d b = Some (r, b') \<Longrightarrow> later b b' \<and> calls b < calls b'"
  by (auto simp: spin_for_def ask_def later_def split: if_splits)

section \<open>A loop that polls between spins\<close>

text \<open>
  The runs of a loop that asks the outside world with \<open>look\<close>, stops with its decision, and otherwise
  spins for at most \<open>pause\<close>.
\<close>

inductive polled ::
  "outside \<Rightarrow> (backend \<Rightarrow> 'a res option \<times> backend) \<Rightarrow> (backend \<Rightarrow> duration) \<Rightarrow> backend \<Rightarrow> 'a res \<times> backend \<Rightarrow> bool"
  for w look pause
where
  stop: "look b = (Some r, b') \<Longrightarrow> polled w look pause b (r, b')"
| fail: "look b = (None, b') \<Longrightarrow> spin_for w (pause b) b' = Some (Inl e, b'') \<Longrightarrow> polled w look pause b (Inl e, b'')"
| go: "look b = (None, b') \<Longrightarrow> spin_for w (pause b) b' = Some (Inr u, b'') \<Longrightarrow> polled w look pause b'' x \<Longrightarrow>
    polled w look pause b x"

text \<open>The contract the three loops share.\<close>

locale polling =
  fixes w :: outside and loop :: "'a proc" and look :: "backend \<Rightarrow> 'a res option \<times> backend"
    and pause :: "backend \<Rightarrow> duration"
  assumes unfold: "loop b = (case look b of (Some r, b') \<Rightarrow> Some (r, b')
      | (None, b') \<Rightarrow> (case spin_for w (pause b) b' of
          None \<Rightarrow> None | Some (Inl e, b'') \<Rightarrow> Some (Inl e, b'') | Some (Inr _, b'') \<Rightarrow> loop b''))"
    and least: "loop b = Some x \<Longrightarrow> polled w look pause b x"
    and look_later: "look b = (r, b') \<Longrightarrow> later b b'"
begin

lemma spun_later:
  assumes "look b = (None, b')" and "spin_for w (pause b) b' = Some (r, b'')"
  shows "later b b'' \<and> calls b < calls b''"
  using look_later [OF assms(1)] spin_for_later [OF assms(2)] by (auto simp: later_def)

lemma polled_later: "polled w look pause b x \<Longrightarrow> later b (snd x)"
proof (induction rule: polled.induct)
  case (go b b' u b'' x)
  with spun_later [OF go(1,2)] later_trans show ?case by blast
qed (use look_later spun_later in auto)

lemma quiet_loop: "quiet loop"
  unfolding quiet_def using polled_later [OF least] by fastforce

text \<open>A result that is no failed spin is the decision of the last look.\<close>

lemma polled_decided:
  "polled w look pause b x \<Longrightarrow>
    (\<exists>b0. later b b0 \<and> look b0 = (Some (fst x), snd x)) \<or> (\<exists>d b0 e. spin_for w d b0 = Some (Inl e, snd x) \<and> fst x = Inl e)"
proof (induction rule: polled.induct)
  case (stop b r b')
  then have "later b b \<and> look b = (Some (fst (r, b')), snd (r, b'))" by simp
  then show ?case by blast
next
  case (go b b' u b'' x)
  with spun_later [OF go(1,2)] later_trans show ?case by blast
qed auto

lemma decided:
  "loop b = Some (r, b') \<Longrightarrow>
    (\<exists>b0. later b b0 \<and> look b0 = (Some r, b')) \<or> (\<exists>d b0 e. spin_for w d b0 = Some (Inl e, b') \<and> r = Inl e)"
  using polled_decided [OF least] by fastforce

text \<open>It ends when every look after some call decides.\<close>

lemma ends:
  assumes "\<And>b. n \<le> calls b \<Longrightarrow> fst (look b) \<noteq> None"
  shows "\<exists>x. loop b = Some x"
proof (induction "n - calls b" arbitrary: b rule: less_induct)
  case less
  obtain d b1 where look: "look b = (d, b1)" by (cases "look b")
  show ?case
  proof (cases d)
    case (Some r)
    with look show ?thesis by (subst unfold) simp
  next
    case None
    obtain r b2 where s: "spin_for w (pause b) b1 = Some (r, b2)" using spin_for_Some by blast
    have "\<exists>x. loop b2 = Some x"
    proof (rule less)
      have "calls b < n" using assms [of b] look None by (cases "n \<le> calls b") simp_all
      moreover have "calls b < calls b2"
        using spun_later [OF look [unfolded None] s] by blast
      ultimately show "n - calls b2 < n - calls b" by simp
    qed
    with look None s show ?thesis by (subst unfold) (cases r; simp)
  qed
qed

end

section \<open>The loops poll\<close>

definition discover_look :: "outside \<Rightarrow> string \<Rightarrow> instant \<Rightarrow> backend \<Rightarrow> string res option \<times> backend" where
  "discover_look w topic until b =
     (case described (graph w (calls b)) of
        Inl e \<Rightarrow> (Some (Inl (Err e)), next_call b)
      | Inr topics \<Rightarrow>
          (case map_of topics topic of
             Some types \<Rightarrow>
               (Some (if length types \<noteq> 1
                      then Inl (Err ''topic has multiple message types; a unique type is required'')
                      else Inr (types ! 0)), next_call b)
           | None \<Rightarrow>
               (if until \<le> clock w (calls (next_call b))
                then Some (Inl (Err (''topic '' @ topic @ '' has no unique advertised message type; pass the message type explicitly'')))
                else None, next_call (next_call b))))"

definition wait_look :: "outside \<Rightarrow> instant \<Rightarrow> backend \<Rightarrow> unit res option \<times> backend" where
  "wait_look w until b =
     (case described (subscription_count w (calls b)) of
        Inl e \<Rightarrow> (Some (Inl (Err e)), next_call b)
      | Inr matched \<Rightarrow>
          if 0 < matched then (Some (Inr ()), next_call b)
          else (if until \<le> clock w (calls (next_call b)) then Some (Inr ()) else None, next_call (next_call b)))"

definition flush_look :: "outside \<Rightarrow> instant \<Rightarrow> backend \<Rightarrow> unit res option \<times> backend" where
  "flush_look w until b = (if until - clock w (calls b) = 0 then Some (Inr ()) else None, next_call b)"

lemma discover_loop_polled:
  assumes "discover_loop w topic until b = Some x"
  shows "polled w (discover_look w topic until) (\<lambda>_. SPIN) b x"
proof (rule discover_loop.raw_induct [OF _ assms, where P = "\<lambda>w topic until b x. polled w (discover_look w topic until) (\<lambda>_. SPIN) b x"], goal_cases)
  case (1 f w topic until b x)
  obtain d b1 where look: "discover_look w topic until b = (d, b1)" by (cases "discover_look w topic until b")
  show ?case
  proof (cases d)
    case (Some r)
    with 1(2) look have "x = (r, b1)"
      by (auto simp: discover_look_def Let_def split: sum.splits option.splits if_splits)
    with look Some show ?thesis by (simp add: polled.stop)
  next
    case None
    with 1(2) look have "(case spin_for w ((\<lambda>_. SPIN) b) b1 of None \<Rightarrow> None
        | Some (Inl e, b') \<Rightarrow> Some (Inl e, b') | Some (Inr _, b') \<Rightarrow> f w topic until b') = Some x"
      by (auto simp: discover_look_def Let_def split: sum.splits option.splits if_splits)
    moreover obtain r b2 where "spin_for w ((\<lambda>_. SPIN) b) b1 = Some (r, b2)" using spin_for_Some by blast
    ultimately show ?thesis
      using look None polled.fail [of "discover_look w topic until" b b1 w "(\<lambda>_. SPIN)"] polled.go [of "discover_look w topic until" b b1 w "(\<lambda>_. SPIN)"] 1(1)
      by (cases r) auto
  qed
qed

interpretation discovering: polling w "discover_loop w topic until" "discover_look w topic until" "\<lambda>_. SPIN" for w topic until
proof unfold_locales
  show "discover_loop w topic until b = (case discover_look w topic until b of (Some r, b') \<Rightarrow> Some (r, b')
      | (None, b') \<Rightarrow> (case spin_for w ((\<lambda>_. SPIN) b) b' of None \<Rightarrow> None
          | Some (Inl e, b'') \<Rightarrow> Some (Inl e, b'') | Some (Inr _, b'') \<Rightarrow> discover_loop w topic until b''))" for b
    by (subst discover_loop.simps) (simp add: discover_look_def Let_def split: sum.split option.split)
qed (auto simp: discover_look_def discover_loop_polled split: sum.splits option.splits if_splits)

lemma wait_loop_polled:
  assumes "wait_loop w until b = Some x"
  shows "polled w (wait_look w until) (\<lambda>_. SPIN) b x"
proof (rule wait_loop.raw_induct [OF _ assms, where P = "\<lambda>w until b x. polled w (wait_look w until) (\<lambda>_. SPIN) b x"], goal_cases)
  case (1 f w until b x)
  obtain d b1 where look: "wait_look w until b = (d, b1)" by (cases "wait_look w until b")
  show ?case
  proof (cases d)
    case (Some r)
    with 1(2) look have "x = (r, b1)"
      by (auto simp: wait_look_def Let_def split: sum.splits option.splits if_splits)
    with look Some show ?thesis by (simp add: polled.stop)
  next
    case None
    with 1(2) look have "(case spin_for w ((\<lambda>_. SPIN) b) b1 of None \<Rightarrow> None
        | Some (Inl e, b') \<Rightarrow> Some (Inl e, b') | Some (Inr _, b') \<Rightarrow> f w until b') = Some x"
      by (auto simp: wait_look_def Let_def split: sum.splits option.splits if_splits)
    moreover obtain r b2 where "spin_for w ((\<lambda>_. SPIN) b) b1 = Some (r, b2)" using spin_for_Some by blast
    ultimately show ?thesis
      using look None polled.fail [of "wait_look w until" b b1 w "(\<lambda>_. SPIN)"] polled.go [of "wait_look w until" b b1 w "(\<lambda>_. SPIN)"] 1(1)
      by (cases r) auto
  qed
qed

interpretation waiting: polling w "wait_loop w until" "wait_look w until" "\<lambda>_. SPIN" for w until
proof unfold_locales
  show "wait_loop w until b = (case wait_look w until b of (Some r, b') \<Rightarrow> Some (r, b')
      | (None, b') \<Rightarrow> (case spin_for w ((\<lambda>_. SPIN) b) b' of None \<Rightarrow> None
          | Some (Inl e, b'') \<Rightarrow> Some (Inl e, b'') | Some (Inr _, b'') \<Rightarrow> wait_loop w until b''))" for b
    by (subst wait_loop.simps) (simp add: wait_look_def Let_def split: sum.split option.split)
qed (auto simp: wait_look_def wait_loop_polled split: sum.splits option.splits if_splits)

lemma flush_loop_polled:
  assumes "flush_loop w until b = Some x"
  shows "polled w (flush_look w until) (\<lambda>b. min (until - clock w (calls b)) SPIN) b x"
proof (rule flush_loop.raw_induct [OF _ assms, where P = "\<lambda>w until b x. polled w (flush_look w until) (\<lambda>b. min (until - clock w (calls b)) SPIN) b x"], goal_cases)
  case (1 f w until b x)
  obtain d b1 where look: "flush_look w until b = (d, b1)" by (cases "flush_look w until b")
  show ?case
  proof (cases d)
    case (Some r)
    with 1(2) look have "x = (r, b1)"
      by (auto simp: flush_look_def Let_def split: sum.splits option.splits if_splits)
    with look Some show ?thesis by (simp add: polled.stop)
  next
    case None
    with 1(2) look have "(case spin_for w ((\<lambda>b. min (until - clock w (calls b)) SPIN) b) b1 of None \<Rightarrow> None
        | Some (Inl e, b') \<Rightarrow> Some (Inl e, b') | Some (Inr _, b') \<Rightarrow> f w until b') = Some x"
      by (auto simp: flush_look_def Let_def split: sum.splits option.splits if_splits)
    moreover obtain r b2 where "spin_for w ((\<lambda>b. min (until - clock w (calls b)) SPIN) b) b1 = Some (r, b2)" using spin_for_Some by blast
    ultimately show ?thesis
      using look None polled.fail [of "flush_look w until" b b1 w "(\<lambda>b. min (until - clock w (calls b)) SPIN)"] polled.go [of "flush_look w until" b b1 w "(\<lambda>b. min (until - clock w (calls b)) SPIN)"] 1(1)
      by (cases r) auto
  qed
qed

interpretation flushing: polling w "flush_loop w until" "flush_look w until" "\<lambda>b. min (until - clock w (calls b)) SPIN" for w until
proof unfold_locales
  show "flush_loop w until b = (case flush_look w until b of (Some r, b') \<Rightarrow> Some (r, b')
      | (None, b') \<Rightarrow> (case spin_for w ((\<lambda>b. min (until - clock w (calls b)) SPIN) b) b' of None \<Rightarrow> None
          | Some (Inl e, b'') \<Rightarrow> Some (Inl e, b'') | Some (Inr _, b'') \<Rightarrow> flush_loop w until b''))" for b
    by (subst flush_loop.simps) (simp add: flush_look_def Let_def split: sum.split option.split)
qed (auto simp: flush_look_def flush_loop_polled split: sum.splits option.splits if_splits)

section \<open>Every publish ends\<close>

text \<open>Time passes: the clock gets past every instant and stays there.\<close>

definition time_passes :: "outside \<Rightarrow> bool" where
  "time_passes w \<longleftrightarrow> (\<forall>t. \<exists>n. \<forall>k \<ge> n. t \<le> clock w k)"

definition returns :: "'a proc \<Rightarrow> bool" where
  "returns m \<longleftrightarrow> (\<forall>b. m b \<noteq> None)"

lemma returns_primitives [intro, simp]: "returns (ask f)" "returns (read_clock w)" "returns (give r)"
  "returns (create_publisher w key)" "returns (\<lambda>b. Some (g b))"
  by (simp_all add: returns_def ask_def read_clock_def give_def create_publisher_def split: sum.splits)

lemma returns_and_do [intro]: "returns m \<Longrightarrow> (\<And>a. returns (f a)) \<Longrightarrow> returns (and_do m f)"
  unfolding returns_def and_do_def by (auto split: option.splits sum.splits prod.splits)

lemma loops_return:
  assumes "time_passes w"
  shows "returns (discover_loop w topic until)" "returns (wait_loop w until)" "returns (flush_loop w until)"
proof -
  from assms obtain n where n: "\<And>k. n \<le> k \<Longrightarrow> until \<le> clock w k" by (auto simp: time_passes_def)
  have "fst (discover_look w topic until b) \<noteq> None" if "n \<le> calls b" for b
    using n [of "Suc (calls b)"] that by (auto simp: discover_look_def split: sum.split option.split)
  from discovering.ends [OF this] show "returns (discover_loop w topic until)" by (auto simp: returns_def)
  have "fst (wait_look w until b) \<noteq> None" if "n \<le> calls b" for b
    using n [of "Suc (calls b)"] that by (auto simp: wait_look_def split: sum.split)
  from waiting.ends [OF this] show "returns (wait_loop w until)" by (auto simp: returns_def)
  have "fst (flush_look w until b) \<noteq> None" if "n \<le> calls b" for b
    using n [OF that] by (simp add: flush_look_def)
  from flushing.ends [OF this] show "returns (flush_loop w until)" by (auto simp: returns_def)
qed

lemma waits_return:
  assumes "time_passes w"
  shows "returns (discover w topic)" "returns (wait_for_subscriber w)" "returns (flush_for w d)"
  unfolding discover_def wait_for_subscriber_def flush_for_def
  using loops_return [OF assms] by auto

lemma steps_return: "returns (build_message rt w kind v)" "returns (publish_sample w key m)"
  unfolding build_message_def publish_sample_def by auto

lemma publish_with_session_returns:
  assumes "time_passes w"
  shows "returns (publish_with_session rt w topic ty v)"
proof -
  have branch: "returns (\<lambda>b. if cached key b then f b else g b)" if "returns f" "returns g" for key and f g :: "string proc"
    using that by (simp add: returns_def)
  have "returns (case ty of None \<Rightarrow> discover w topic | Some k \<Rightarrow> give (Inr k))"
    using waits_return [OF assms] by (auto split: option.splits)
  then show ?thesis
    unfolding publish_with_session_def Let_def
    by (intro returns_and_do branch returns_primitives steps_return waits_return [OF assms])
qed

lemma publish_message_ends:
  assumes "run rt w topic ty v b = Some (r, b')"
  shows "\<exists>r'. publish_message rt w topic ty v b = Some (r', b')"
proof (cases r)
  case (Inl e)
  with assms show ?thesis by (cases e) (simp_all add: publish_message_def)
qed (use assms in \<open>simp add: publish_message_def\<close>)

text \<open>
  C22. Publishing always returns, whatever ROS answers, as long as time passes: the wait for a type, the
  wait for a subscriber and the flush all end, so a statement cannot hang in this code.
\<close>

theorem publish_returns:
  assumes "time_passes w"
  shows "\<exists>r b'. publish_message rt w topic ty v b = Some (r, b')"
proof -
  have "\<exists>x. run rt w topic ty v b = Some x"
    using publish_with_session_returns [OF assms]
    by (auto simp: run_def with_session_def returns_def and_do_def give_def ask_def split: sum.splits option.splits prod.splits)
  then obtain r b' where "run rt w topic ty v b = Some (r, b')" by auto
  from publish_message_ends [OF this] show ?thesis by blast
qed

section \<open>What a publish does\<close>

lemma quiet_waits: "quiet (discover w topic)" "quiet (wait_for_subscriber w)" "quiet (flush_for w d)"
  "quiet (build_message rt w kind v)"
  unfolding discover_def wait_for_subscriber_def flush_for_def build_message_def
  using discovering.quiet_loop waiting.quiet_loop flushing.quiet_loop by auto

text \<open>The message the middleware makes for a type, filled from the JSON value.\<close>

definition built :: "runtime \<Rightarrow> outside \<Rightarrow> string \<Rightarrow> json \<Rightarrow> message \<Rightarrow> bool" where
  "built rt w kind v m \<longleftrightarrow> (\<exists>n d. new_message w n kind = Inr d \<and> decode rt d v = Inr m)"

text \<open>
  The outcomes of a publish in a session: nothing was sent and the cache is as before, or one message
  was sent, and the publisher is cached if the call succeeded.
\<close>

definition unsent :: "string \<Rightarrow> string res \<Rightarrow> backend \<Rightarrow> backend \<Rightarrow> bool" where
  "unsent topic r b b' \<longleftrightarrow> (\<exists>e. r = Inl e) \<and> sent b' = sent b \<and> session b' = session b \<and> opened b' = opened b \<and>
     (created b' = created b \<or> (\<exists>kind. \<not> cached (topic, kind) b \<and> created b' = created b @ [(topic, kind)]))"

definition sent_once ::
  "runtime \<Rightarrow> outside \<Rightarrow> string \<Rightarrow> string option \<Rightarrow> json \<Rightarrow> string res \<Rightarrow> backend \<Rightarrow> backend \<Rightarrow> bool"
where
  "sent_once rt w topic ty v r b b' \<longleftrightarrow> (\<exists>kind m.
     ty \<in> {None, Some kind} \<and> type_name w kind = Inr () \<and> built rt w kind v m \<and>
     sent b' = sent b @ [((topic, kind), m)] \<and> opened b' = opened b \<and>
     created b' = created b @ (if cached (topic, kind) b then [] else [(topic, kind)]) \<and>
     (r = Inr kind \<and> session b' = (if cached (topic, kind) b then session b else session (cache_publisher (topic, kind) b)) \<or>
      (\<exists>e. r = Inl e) \<and> session b' = session b))"

lemma publish_sample_SomeE:
  assumes "publish_sample w key m b = Some (r, b')"
  obtains (refused) e where "r = Inl e" "later b b'"
    | (accepted) "r = Inr ()" "later (b\<lparr>sent := sent b @ [(key, m)]\<rparr>) b'"
proof -
  from assms show thesis unfolding publish_sample_def
  proof (cases rule: and_do_SomeE)
    case (failed e)
    then show thesis using refused quietD [OF quiet_primitives(1)] by blast
  next
    case (went a b1)
    from quietD [OF quiet_primitives(1) went(1)] went(2) show thesis
      by (intro accepted) (auto simp: later_def)
  qed
qed

lemma create_publisher_SomeE:
  assumes "create_publisher w key b = Some (r, b')"
  obtains (refused) e where "r = Inl e" "later b b'"
    | (accepted) "r = Inr ()" "later (b\<lparr>created := created b @ [key]\<rparr>) b'"
  using assms by (auto simp: create_publisher_def later_def split: sum.splits)

lemma build_message_Inr: "build_message rt w kind v b = Some (Inr m, b') \<Longrightarrow> built rt w kind v m"
  unfolding build_message_def
  by (erule and_do_SomeE) (auto simp: ask_def give_def built_def described_def split: sum.splits)

text \<open>Waiting, sending and flushing, after the message is built and with a publisher at hand.\<close>

lemma deliver_cases:
  assumes "and_do (wait_for_subscriber w) (\<lambda>_. and_do (publish_sample w key m) (\<lambda>_.
    and_do (flush_for w d) (\<lambda>_. finish))) b = Some (r, b')"
  obtains (unsent) e where "r = Inl e" "later b b'"
    | (unflushed) e where "r = Inl e" "later (b\<lparr>sent := sent b @ [(key, m)]\<rparr>) b'"
    | (flushed) b1 where "later (b\<lparr>sent := sent b @ [(key, m)]\<rparr>) b1" "finish b1 = Some (r, b')"
proof -
  from assms show thesis
  proof (cases rule: and_do_SomeE)
    case (failed e)
    then show thesis using unsent quietD [OF quiet_waits(2)] by blast
  next
    case (went a b1)
    note b1 = quietD [OF quiet_waits(2) went(1)]
    from went(2) show thesis
    proof (cases rule: and_do_SomeE)
      case (failed e)
      then show thesis
        using unsent b1 later_trans by (auto elim!: publish_sample_SomeE)
    next
      case (went a b2)
      from went(1) have b2: "later (b\<lparr>sent := sent b @ [(key, m)]\<rparr>) b2"
      proof (cases rule: publish_sample_SomeE)
        case accepted
        with b1 show ?thesis by (simp add: later_def)
      qed simp
      from went(2) show thesis
      proof (cases rule: and_do_SomeE)
        case (failed e)
        with unflushed quietD [OF quiet_waits(3)] b2 later_trans show thesis by blast
      next
        case (went a b3)
        with flushed quietD [OF quiet_waits(3)] b2 later_trans show thesis by blast
      qed
    qed
  qed
qed

lemma later_effects: "later b b' \<Longrightarrow> sent b' = sent b \<and> session b' = session b \<and> opened b' = opened b \<and> created b' = created b"
  by (simp add: later_def)

lemma cached_branch:
  assumes "cached (topic, kind) b" and "type_name w kind = Inr ()" and "ty \<in> {None, Some kind}"
    and "and_do (build_message rt w kind v) (\<lambda>dynamic. and_do (wait_for_subscriber w) (\<lambda>_.
      and_do (publish_sample w (topic, kind) dynamic) (\<lambda>_.
      and_do (flush_for w CACHED_FLUSH) (\<lambda>_. give (Inr kind))))) b = Some (r, b')"
  shows "unsent topic r b b' \<or> sent_once rt w topic ty v r b b'"
  using assms(4)
proof (cases rule: and_do_SomeE)
  case (failed e)
  from later_effects [OF quietD [OF quiet_waits(4) failed(1)]] failed(2) show ?thesis by (simp add: unsent_def)
next
  case (went m b1)
  note b1 = later_effects [OF quietD [OF quiet_waits(4) went(1)]]
  note m = build_message_Inr [OF went(1)]
  from went(2) show ?thesis
  proof (cases rule: deliver_cases)
    case (unsent e)
    with b1 later_effects [OF unsent(2)] show ?thesis by (simp add: unsent_def)
  next
    case (unflushed e)
    with b1 later_effects [OF unflushed(2)] m assms(1-3) show ?thesis
      by (intro disjI2) (auto simp: sent_once_def)
  next
    case (flushed b2)
    with b1 later_effects [OF flushed(1)] m assms(1-3) show ?thesis
      by (intro disjI2) (auto simp: sent_once_def give_def)
  qed
qed

lemma fresh_branch:
  assumes "\<not> cached (topic, kind) b" and "type_name w kind = Inr ()" and "ty \<in> {None, Some kind}"
    and "and_do (build_message rt w kind v) (\<lambda>dynamic. and_do (create_publisher w (topic, kind)) (\<lambda>_.
      and_do (wait_for_subscriber w) (\<lambda>_. and_do (publish_sample w (topic, kind) dynamic) (\<lambda>_.
      and_do (flush_for w FLUSH) (\<lambda>_ b. Some (Inr kind, cache_publisher (topic, kind) b)))))) b = Some (r, b')"
  shows "unsent topic r b b' \<or> sent_once rt w topic ty v r b b'"
  using assms(4)
proof (cases rule: and_do_SomeE)
  case (failed e)
  from later_effects [OF quietD [OF quiet_waits(4) failed(1)]] failed(2) show ?thesis by (simp add: unsent_def)
next
  case (went m b1)
  note b1 = later_effects [OF quietD [OF quiet_waits(4) went(1)]]
  note m = build_message_Inr [OF went(1)]
  from went(2) show ?thesis
  proof (cases rule: and_do_SomeE)
    case (failed e)
    from failed(1) have "later b1 b'" by (cases rule: create_publisher_SomeE) auto
    with b1 later_effects failed(2) show ?thesis by (simp add: unsent_def)
  next
    case (went u b2)
    from went(1) have "later (b1\<lparr>created := created b1 @ [(topic, kind)]\<rparr>) b2"
      by (cases rule: create_publisher_SomeE) simp_all
    from later_effects [OF this] b1 have b2: "sent b2 = sent b" "session b2 = session b" "opened b2 = opened b"
      "created b2 = created b @ [(topic, kind)]" by simp_all
    from went(2) show ?thesis
    proof (cases rule: deliver_cases)
      case (unsent e)
      with b2 later_effects [OF unsent(2)] assms(1) show ?thesis by (auto simp: unsent_def)
    next
      case (unflushed e)
      with b2 later_effects [OF unflushed(2)] m assms(1-3) show ?thesis
        by (intro disjI2) (auto simp: sent_once_def)
    next
      case (flushed b3)
      with b2 later_effects [OF flushed(1)] m assms(1-3) show ?thesis
        by (intro disjI2) (auto simp: sent_once_def cache_publisher_def)
    qed
  qed
qed

lemma described_Inr [simp]: "described r = Inr a \<longleftrightarrow> r = Inr a" "described (Inr a) = Inr a"
  "described (Inl e) = Inl (describe e)"
  by (cases r; simp add: described_def)+

lemma outcome_from:
  assumes "later b b1" and "unsent topic r b1 b' \<or> sent_once rt w topic ty v r b1 b'"
  shows "unsent topic r b b' \<or> sent_once rt w topic ty v r b b'"
proof -
  from assms(1) have same: "sent b1 = sent b" "session b1 = session b" "opened b1 = opened b" "created b1 = created b"
    by (simp_all add: later_def)
  have cache: "cached key b1 = cached key b" "session (cache_publisher key b1) = session (cache_publisher key b)" for key
    using same by (simp_all add: cached_def cache_publisher_def)
  from assms(2) show ?thesis unfolding unsent_def sent_once_def same cache .
qed

lemma publish_with_session_outcome:
  assumes "publish_with_session rt w topic ty v b = Some (r, b')"
  shows "unsent topic r b b' \<or> sent_once rt w topic ty v r b b'"
proof -
  have q: "quiet (case ty of Some kind \<Rightarrow> give (Inr kind) | None \<Rightarrow> discover w topic)"
    using quiet_waits(1) by (auto split: option.split)
  from assms show ?thesis unfolding publish_with_session_def
  proof (cases rule: and_do_SomeE)
    case (failed e)
    from later_effects [OF quietD [OF q failed(1)]] failed(2) show ?thesis by (simp add: unsent_def)
  next
    case (went kind b1)
    note later = quietD [OF q went(1)]
    note b1 = later_effects [OF later]
    have ty: "ty \<in> {None, Some kind}" using went(1) by (auto simp: give_def split: option.splits)
    from went(2) show ?thesis
    proof (cases rule: and_do_SomeE)
      case (failed e)
      from failed b1 show ?thesis by (auto simp: unsent_def give_def)
    next
      case (went u b2)
      then have b2: "b2 = b1" and kind: "type_name w kind = Inr ()"
        by (auto simp: give_def split: sum.splits)
      have "unsent topic r b1 b' \<or> sent_once rt w topic ty v r b1 b'"
      proof (cases "cached (topic, kind) b1")
        case True
        with went(2) show ?thesis
          by (intro cached_branch [OF True kind ty]) (simp add: Let_def b2)
      next
        case False
        with went(2) show ?thesis
          by (intro fresh_branch [OF False kind ty]) (simp add: Let_def b2)
      qed
      with outcome_from [OF later] show ?thesis .
    qed
  qed
qed

lemma run_cases:
  assumes "run rt w topic ty v b = Some (r, b')"
  obtains (invalid) e where "validate_topic topic = Inl e" "r = Inl e" "b' = b"
    | (no_session) e where "validate_topic topic = Inr ()" "session b = None" "r = Inl e" "later b b'"
    | (in_session) b1 where "validate_topic topic = Inr ()" "publish_with_session rt w topic ty v b1 = Some (r, b')"
        "session b1 = (if session b = None then Some [] else session b)"
        "opened b1 = (if session b = None then opened b + 1 else opened b)" "created b1 = created b" "sent b1 = sent b"
proof -
  from assms show thesis unfolding run_def
  proof (cases rule: and_do_SomeE)
    case (failed e)
    then show thesis using invalid by (simp add: give_def)
  next
    case (went u b0)
    then have v: "validate_topic topic = Inr ()" and b0: "b0 = b" by (auto simp: give_def)
    show thesis
    proof (cases "session b")
      case (Some keys)
      with went(2) v show thesis by (intro in_session) (simp_all add: with_session_def b0)
    next
      case None
      with went(2) have "and_do (ask (open_session w))
          (\<lambda>_ b. publish_with_session rt w topic ty v (b\<lparr>session := Some [], opened := opened b + 1\<rparr>)) b = Some (r, b')"
        by (simp add: with_session_def b0)
      then show thesis
      proof (cases rule: and_do_SomeE)
        case (failed e)
        with v None no_session quietD [OF quiet_primitives(1)] show thesis by blast
      next
        case (went u b1)
        from later_effects [OF quietD [OF quiet_primitives(1) went(1)]] went(2) v None show thesis
          by (intro in_session [of "b1\<lparr>session := Some [], opened := opened b1 + 1\<rparr>"]) simp_all
      qed
    qed
  qed
qed

lemma publish_message_run:
  assumes "publish_message rt w topic ty v b = Some (r, b')"
  shows "\<exists>r'. run rt w topic ty v b = Some (r', b') \<and> (\<forall>k. r' = Inr k \<longleftrightarrow> r = Inr k)"
  using assms by (auto simp: publish_message_def split: option.splits sum.splits fault.splits prod.splits)

text \<open>
  C10. A call sends at most one message; a call that returns a type has sent exactly one, of that type,
  which the JSON value decodes into, to a publisher of the given topic. A refused topic name leaves the
  backend untouched. A call that fails has sent nothing, except when the spin after sending fails or is
  canceled: then the message is out although the statement fails, and the publisher is not cached.
\<close>

theorem publish_sends_once:
  assumes "publish_message rt w topic ty v b = Some (r, b')"
  shows "(\<forall>e. validate_topic topic = Inl e \<longrightarrow> b' = b) \<and>
    (sent b' = sent b \<and> (\<exists>e. r = Inl e) \<or>
     (\<exists>kind m. sent b' = sent b @ [((topic, kind), m)] \<and> built rt w kind v m \<and> ty \<in> {None, Some kind} \<and>
        validate_topic topic = Inr () \<and>
        (r = Inr kind \<and> cached (topic, kind) b' \<or>
         (\<exists>e. r = Inl e) \<and> session b' = (if session b = None then Some [] else session b))))"
proof -
  from publish_message_run [OF assms] obtain r' where run: "run rt w topic ty v b = Some (r', b')"
    and r: "\<forall>k. r' = Inr k \<longleftrightarrow> r = Inr k" by blast
  have fails: "(\<exists>e. r' = Inl e) = (\<exists>e. r = Inl e)" using r by (metis old.sum.exhaust sum.distinct(1))
  from run show ?thesis
  proof (cases rule: run_cases)
    case (in_session b1)
    from in_session(1) have valid: "validate_topic topic \<noteq> Inl e" for e by (metis sum.distinct(1))
    from publish_with_session_outcome [OF in_session(2)] show ?thesis
    proof
      assume "unsent topic r' b1 b'"
      with valid in_session(6) fails show ?thesis by (auto simp: unsent_def)
    next
      assume "sent_once rt w topic ty v r' b1 b'"
      then obtain kind m where k: "ty \<in> {None, Some kind}" "built rt w kind v m"
        "sent b' = sent b @ [((topic, kind), m)]"
        "r' = Inr kind \<and> session b' = (if cached (topic, kind) b1 then session b1 else session (cache_publisher (topic, kind) b1)) \<or>
          (\<exists>e. r' = Inl e) \<and> session b' = session b1"
        unfolding sent_once_def in_session(6) by blast
      have "cached (topic, kind) b'"
        if "session b' = (if cached (topic, kind) b1 then session b1 else session (cache_publisher (topic, kind) b1))"
        using that in_session(3) by (auto simp: cached_def cache_publisher_def split: if_splits option.splits)
      with k in_session(1,3) r fails valid show ?thesis by auto
    qed
  next
    case (invalid e)
    with fails show ?thesis by auto
  next
    case (no_session e)
    from no_session(1) have "validate_topic topic \<noteq> Inl e" for e by (metis sum.distinct(1))
    with no_session fails later_effects [OF no_session(4)] show ?thesis by auto
  qed
qed

section \<open>The session\<close>

text \<open>
  A backend opens at most one session; the cache has one entry for each key, and only for publishers
  that were created and have sent a message.
\<close>

definition backend_ok :: "backend \<Rightarrow> bool" where
  "backend_ok b \<longleftrightarrow> opened b = (if session b = None then 0 else 1) \<and>
     (case session b of None \<Rightarrow> True
      | Some keys \<Rightarrow> distinct keys \<and> (\<forall>key \<in> set keys. key \<in> set (created b) \<and> key \<in> fst ` set (sent b)))"

definition fresh_backend :: backend where
  "fresh_backend = \<lparr>session = None, calls = 0, opened = 0, created = [], sent = []\<rparr>"

lemma publish_ok:
  assumes "backend_ok b" and "publish_message rt w topic ty v b = Some (r, b')"
  shows "backend_ok b'"
proof -
  from publish_message_run [OF assms(2)] obtain r' where run: "run rt w topic ty v b = Some (r', b')" by blast
  then show ?thesis
  proof (cases rule: run_cases)
    case (no_session e)
    with assms(1) later_effects [OF no_session(4)] show ?thesis by (simp add: backend_ok_def)
  next
    case (in_session b1)
    from assms(1) in_session(3-6) have b1: "backend_ok b1" "session b1 \<noteq> None"
      by (auto simp: backend_ok_def split: option.splits if_splits)
    from publish_with_session_outcome [OF in_session(2)] show ?thesis
    proof
      assume "unsent topic r' b1 b'"
      with b1 show ?thesis by (auto simp: backend_ok_def unsent_def split: option.splits)
    next
      assume "sent_once rt w topic ty v r' b1 b'"
      then obtain kind m where "sent b' = sent b1 @ [((topic, kind), m)]" "opened b' = opened b1"
        "created b' = created b1 @ (if cached (topic, kind) b1 then [] else [(topic, kind)])"
        "session b' = session b1 \<or> \<not> cached (topic, kind) b1 \<and> session b' = session (cache_publisher (topic, kind) b1)"
        unfolding sent_once_def by (metis (no_types))
      with b1 show ?thesis
        by (auto simp: backend_ok_def cached_def cache_publisher_def split: option.splits if_splits)
    qed
  qed (use assms(1) in simp)
qed

text \<open>The statements of a backend, one after the other, failed and canceled ones included.\<close>

type_synonym request = "string \<times> string option \<times> json"

inductive published :: "runtime \<Rightarrow> outside \<Rightarrow> request list \<Rightarrow> backend \<Rightarrow> backend \<Rightarrow> bool" for rt w where
  none: "published rt w [] b b"
| one: "publish_message rt w topic ty v b = Some (r, b1) \<Longrightarrow> published rt w qs b1 b2 \<Longrightarrow>
    published rt w ((topic, ty, v) # qs) b b2"

text \<open>
  C24. Over the life of a backend at most one session is opened, each cached publisher was created and
  has sent a message, and no key is cached twice, whatever statements ran and however they ended; so a
  canceled statement leaves a session the next one can use.
\<close>

theorem session_kept:
  assumes "published rt w qs fresh_backend b"
  shows "opened b = (if session b = None then 0 else 1) \<and>
    (\<forall>keys. session b = Some keys \<longrightarrow> distinct keys \<and> set keys \<subseteq> set (created b) \<inter> fst ` set (sent b))"
proof -
  have "published rt w qs a b \<Longrightarrow> backend_ok a \<Longrightarrow> backend_ok b" for a
    by (induction rule: published.induct) (auto intro: publish_ok)
  with assms have "backend_ok b" by (simp add: backend_ok_def fresh_backend_def)
  then show ?thesis by (auto simp: backend_ok_def)
qed

section \<open>How long the waits last\<close>

lemma discover_look_gives_up:
  assumes "discover_look w topic until b = (Some r, b')" and "map_of topics topic = None" and "graph w (calls b) = Inr topics"
  shows "until \<le> clock w (Suc (calls b)) \<and> calls b' = Suc (Suc (calls b))"
  using assms by (auto simp: discover_look_def described_def split: if_splits)

lemma wait_look_ok:
  assumes "wait_look w until b = (Some (Inr ()), b')"
  shows "\<exists>n. calls b \<le> n \<and> n < calls b' \<and>
    ((\<exists>c > 0. subscription_count w n = Inr c) \<or> until \<le> clock w n)"
proof (cases "described (subscription_count w (calls b))")
  case (Inl e)
  with assms show ?thesis by (simp add: wait_look_def)
next
  case (Inr c)
  show ?thesis
  proof (cases "0 < c")
    case True
    with assms Inr show ?thesis by (intro exI [of _ "calls b"]) (auto simp: wait_look_def)
  next
    case False
    with assms Inr show ?thesis
      by (intro exI [of _ "Suc (calls b)"]) (auto simp: wait_look_def split: if_splits)
  qed
qed

text \<open>
  C32. A message waits for a subscriber: the wait before sending ends well only after the middleware
  reported a match, or at least two seconds after it began. A flush ends well only when its whole time
  is over: 100 ms for a new publisher, 10 ms for a cached one.
\<close>

theorem waits_in_full:
  "(wait_for_subscriber w b = Some (Inr (), b') \<longrightarrow>
      (\<exists>n. calls b < n \<and> n < calls b' \<and>
        ((\<exists>c > 0. subscription_count w n = Inr c) \<or> clock w (calls b) + from_secs 2 \<le> clock w n))) \<and>
   (flush_for w d b = Some (Inr (), b') \<longrightarrow>
      (\<exists>n. calls b < n \<and> n < calls b' \<and> clock w (calls b) + d \<le> clock w n))"
proof (intro conjI impI)
  assume "wait_for_subscriber w b = Some (Inr (), b')"
  then have "wait_loop w (clock w (calls b) + MATCHING) (next_call b) = Some (Inr (), b')"
    unfolding wait_for_subscriber_def by (cases rule: and_do_SomeE) (auto simp: read_clock_def)
  from waiting.decided [OF this] obtain b0 where b0: "later (next_call b) b0"
    and look: "wait_look w (clock w (calls b) + MATCHING) b0 = (Some (Inr ()), b')" by auto
  from b0 have "calls b < calls b0" by (simp add: later_def)
  with wait_look_ok [OF look] show "\<exists>n. calls b < n \<and> n < calls b' \<and>
        ((\<exists>c > 0. subscription_count w n = Inr c) \<or> clock w (calls b) + from_secs 2 \<le> clock w n)"
    unfolding MATCHING_def by (meson less_le_trans)
next
  assume "flush_for w d b = Some (Inr (), b')"
  then have "flush_loop w (clock w (calls b) + d) (next_call b) = Some (Inr (), b')"
    unfolding flush_for_def by (cases rule: and_do_SomeE) (auto simp: read_clock_def)
  from flushing.decided [OF this] obtain b0 where b0: "later (next_call b) b0"
    and look: "flush_look w (clock w (calls b) + d) b0 = (Some (Inr ()), b')" by auto
  from b0 look show "\<exists>n. calls b < n \<and> n < calls b' \<and> clock w (calls b) + d \<le> clock w n"
    by (intro exI [of _ "calls b0"]) (auto simp: flush_look_def later_def split: if_splits)
qed

section \<open>A cached publisher makes no difference\<close>

text \<open>A ROS system in which nothing fails, a subscriber is matched and the graph does not change.\<close>

definition healthy :: "outside \<Rightarrow> bool" where
  "healthy w \<longleftrightarrow> (\<forall>n d t k. \<not> interrupted w n \<and> spun w n d = Inr () \<and> open_session w n = Inr () \<and>
     new_publisher w n t k = Inr () \<and> hand_over w n = Inr () \<and> (\<exists>c > 0. subscription_count w n = Inr c) \<and>
     graph w n = graph w 0 \<and> new_message w n k = new_message w 0 k)"

text \<open>What a publish does, without any state: the type, and the message of that type.\<close>

definition unique_type :: "outside \<Rightarrow> string \<Rightarrow> string res" where
  "unique_type w topic =
     (case described (graph w 0) of
        Inl e \<Rightarrow> Inl (Err e)
      | Inr topics \<Rightarrow>
          (case map_of topics topic of
             Some types \<Rightarrow>
               if length types \<noteq> 1
               then Inl (Err ''topic has multiple message types; a unique type is required'')
               else Inr (types ! 0)
           | None \<Rightarrow> Inl (Err (''topic '' @ topic @ '' has no unique advertised message type; pass the message type explicitly''))))"

definition as_res :: "error + 'a \<Rightarrow> 'a res" where
  "as_res r = (case described r of Inl e \<Rightarrow> Inl (Err e) | Inr a \<Rightarrow> Inr a)"

definition publish_spec :: "runtime \<Rightarrow> outside \<Rightarrow> string \<Rightarrow> string option \<Rightarrow> json \<Rightarrow> (string \<times> message) res" where
  "publish_spec rt w topic ty v =
     and_then (validate_topic topic) (\<lambda>_.
     and_then (case ty of Some k \<Rightarrow> Inr k | None \<Rightarrow> unique_type w topic) (\<lambda>k.
     and_then (as_res (type_name w k)) (\<lambda>_.
     and_then (as_res (new_message w 0 k)) (\<lambda>d.
     map_res (\<lambda>m. (k, m)) (decode rt d v)))))"

definition yields :: "'a proc \<Rightarrow> backend \<Rightarrow> 'a res \<Rightarrow> bool" where
  "yields m b r \<longleftrightarrow> (\<exists>b'. m b = Some (r, b') \<and> later b b')"

lemma yields_give [simp]: "yields (give r) b r"
  by (simp add: yields_def give_def)

lemma yields_ask: "yields (ask f) b (as_res (f (calls b)))"
  by (simp add: yields_def ask_def as_res_def)

lemma yields_failed: "yields m b (Inl e) \<Longrightarrow> yields (and_do m f) b (Inl e)"
  by (auto simp: yields_def and_do_def)

lemma yields_went: "yields m b (Inr a) \<Longrightarrow> (\<And>b'. later b b' \<Longrightarrow> yields (f a) b' r) \<Longrightarrow> yields (and_do m f) b r"
  unfolding yields_def and_do_def using later_trans by fastforce

lemma yields_and_then:
  "yields m b r \<Longrightarrow> (\<And>a b'. r = Inr a \<Longrightarrow> later b b' \<Longrightarrow> yields (f a) b' (g a)) \<Longrightarrow> yields (and_do m f) b (and_then r g)"
  by (cases r) (auto intro: yields_failed yields_went)

lemma healthy_spin: "healthy w \<Longrightarrow> spin_for w d b \<noteq> Some (Inl e, b')"
  by (simp add: healthy_def spin_for_def ask_def described_def)

lemma healthy_wait: "healthy w \<Longrightarrow> yields (wait_for_subscriber w) b (Inr ())"
proof -
  assume "healthy w"
  then obtain c where c: "0 < c" "subscription_count w (Suc (calls b)) = Inr c" unfolding healthy_def by blast
  then have "wait_loop w until (next_call b) = Some (Inr (), next_call (next_call b))" for until
    by (subst wait_loop.simps) (simp add: described_def)
  then show ?thesis
    by (auto simp: yields_def wait_for_subscriber_def and_do_def read_clock_def)
qed

lemma healthy_flush:
  assumes "healthy w" and "time_passes w"
  shows "yields (flush_for w d) b (Inr ())"
proof -
  from waits_return(3) [OF assms(2)] obtain r b' where run: "flush_for w d b = Some (r, b')"
    by (fastforce simp: returns_def)
  then have "flush_loop w (clock w (calls b) + d) (next_call b) = Some (r, b')"
    unfolding flush_for_def by (cases rule: and_do_SomeE) (auto simp: read_clock_def)
  from flushing.decided [OF this] healthy_spin [OF assms(1)] have "r = Inr ()"
    by (auto simp: flush_look_def split: if_splits)
  with run quietD [OF quiet_waits(3) run] show ?thesis by (simp add: yields_def)
qed

lemma healthy_discover:
  assumes "healthy w" and "time_passes w"
  shows "yields (discover w topic) b (unique_type w topic)"
proof -
  from waits_return(1) [OF assms(2)] obtain r b' where run: "discover w topic b = Some (r, b')"
    by (fastforce simp: returns_def)
  then have "discover_loop w topic (clock w (calls b) + DISCOVERY) (next_call b) = Some (r, b')"
    unfolding discover_def by (cases rule: and_do_SomeE) (auto simp: read_clock_def)
  from discovering.decided [OF this] healthy_spin [OF assms(1)] obtain b0 where
    look: "discover_look w topic (clock w (calls b) + DISCOVERY) b0 = (Some r, b')" by blast
  have same: "graph w (calls b0) = graph w 0" using assms(1) unfolding healthy_def by blast
  from look [unfolded discover_look_def same] have "r = unique_type w topic"
    by (cases "described (graph w 0)") (auto simp: unique_type_def split: option.splits if_splits)
  with run quietD [OF quiet_waits(1) run] show ?thesis by (simp add: yields_def)
qed

lemma healthy_build: "healthy w \<Longrightarrow> yields (build_message rt w k v) b (and_then (as_res (new_message w 0 k)) (\<lambda>d. decode rt d v))"
proof -
  assume h: "healthy w"
  have same: "new_message w (calls b) k = new_message w 0 k" using h unfolding healthy_def by blast
  have "yields (ask (\<lambda>n. new_message w n k)) b (as_res (new_message w 0 k))"
    using yields_ask [of "\<lambda>n. new_message w n k" b] unfolding same .
  then show ?thesis unfolding build_message_def by (rule yields_and_then) simp
qed

lemma yieldsE:
  assumes "yields m b r"
  obtains b' where "m b = Some (r, b')" "later b b'"
  using assms by (auto simp: yields_def)

text \<open>Sending and flushing in a healthy system.\<close>

lemma healthy_deliver:
  assumes "healthy w" and "time_passes w"
  shows "\<exists>b'. and_do (wait_for_subscriber w) (\<lambda>_. and_do (publish_sample w key m) (\<lambda>_.
    and_do (flush_for w d) (\<lambda>_. finish))) b = finish b' \<and> later (b\<lparr>sent := sent b @ [(key, m)]\<rparr>) b'"
proof -
  from healthy_wait [OF assms(1)] obtain b1 where b1: "wait_for_subscriber w b = Some (Inr (), b1)" "later b b1"
    by (rule yieldsE)
  have hand: "hand_over w (calls b1) = Inr ()" using assms(1) unfolding healthy_def by blast
  define b2 where "b2 = (next_call b1)\<lparr>sent := sent b1 @ [(key, m)]\<rparr>"
  have s: "publish_sample w key m b1 = Some (Inr (), b2)"
    by (simp add: publish_sample_def and_do_def ask_def hand b2_def)
  from healthy_flush [OF assms] obtain b3 where b3: "flush_for w d b2 = Some (Inr (), b3)" "later b2 b3"
    by (rule yieldsE)
  have "later (b\<lparr>sent := sent b @ [(key, m)]\<rparr>) b3" using b1(2) b3(2) by (auto simp: later_def b2_def)
  with b1 s b3 show ?thesis by (auto simp: and_do_def)
qed

lemma healthy_create: "healthy w \<Longrightarrow> create_publisher w key b = Some (Inr (), (next_call b)\<lparr>created := created b @ [key]\<rparr>)"
proof -
  assume "healthy w"
  then have "new_publisher w (calls b) (fst key) (snd key) = Inr ()" unfolding healthy_def by blast
  then show ?thesis by (simp add: create_publisher_def)
qed

definition sends :: "string \<Rightarrow> (string \<times> message) res \<Rightarrow> backend \<Rightarrow> backend \<Rightarrow> bool" where
  "sends topic s b b' \<longleftrightarrow> (case s of
       Inl e \<Rightarrow> sent b' = sent b \<and> created b' = created b \<and> session b' = session b
     | Inr (k, m) \<Rightarrow> sent b' = sent b @ [((topic, k), m)] \<and>
         created b' = created b @ (if cached (topic, k) b then [] else [(topic, k)]) \<and> cached (topic, k) b')"

lemma sends_later: "later b b1 \<Longrightarrow> sends topic s b1 b' \<Longrightarrow> sends topic s b b'"
  using later_cached [of b b1] by (auto simp: sends_def later_def split: sum.splits)

lemma healthy_send:
  assumes "healthy w" and "time_passes w" and "session b \<noteq> None"
  shows "\<exists>b'. (if cached (topic, k) b
       then and_do (build_message rt w k v) (\<lambda>dynamic. and_do (wait_for_subscriber w) (\<lambda>_.
         and_do (publish_sample w (topic, k) dynamic) (\<lambda>_. and_do (flush_for w CACHED_FLUSH) (\<lambda>_. give (Inr k))))) b
       else and_do (build_message rt w k v) (\<lambda>dynamic. and_do (create_publisher w (topic, k)) (\<lambda>_.
         and_do (wait_for_subscriber w) (\<lambda>_. and_do (publish_sample w (topic, k) dynamic) (\<lambda>_.
         and_do (flush_for w FLUSH) (\<lambda>_ b. Some (Inr k, cache_publisher (topic, k) b)))))) b) =
     Some (map_res (\<lambda>_. k) (and_then (as_res (new_message w 0 k)) (\<lambda>d. decode rt d v)), b') \<and>
     sends topic (map_res (\<lambda>m. (k, m)) (and_then (as_res (new_message w 0 k)) (\<lambda>d. decode rt d v))) b b'"
proof -
  from healthy_build [OF assms(1)] obtain b1 where
    b1: "build_message rt w k v b = Some (and_then (as_res (new_message w 0 k)) (\<lambda>d. decode rt d v), b1)" "later b b1"
    by (rule yieldsE)
  show ?thesis
  proof (cases "and_then (as_res (new_message w 0 k)) (\<lambda>d. decode rt d v)")
    case (Inl e)
    with b1 show ?thesis by (auto simp: and_do_def sends_def later_def)
  next
    case (Inr m)
    show ?thesis
    proof (cases "cached (topic, k) b")
      case True
      from healthy_deliver [OF assms(1,2), of "(topic, k)" m CACHED_FLUSH "give (Inr k)" b1] obtain b2 where
        "and_do (wait_for_subscriber w) (\<lambda>_. and_do (publish_sample w (topic, k) m) (\<lambda>_.
          and_do (flush_for w CACHED_FLUSH) (\<lambda>_. give (Inr k)))) b1 = Some (Inr k, b2)"
        "later (b1\<lparr>sent := sent b1 @ [((topic, k), m)]\<rparr>) b2" by (auto simp: give_def)
      with b1 Inr True show ?thesis
        by (auto simp: and_do_def sends_def later_def cached_def split: option.splits)
    next
      case False
      define b2 where "b2 = (next_call b1)\<lparr>created := created b1 @ [(topic, k)]\<rparr>"
      from healthy_deliver [OF assms(1,2), of "(topic, k)" m FLUSH
          "\<lambda>b. Some (Inr k, cache_publisher (topic, k) b)" b2] obtain b3 where
        "and_do (wait_for_subscriber w) (\<lambda>_. and_do (publish_sample w (topic, k) m) (\<lambda>_.
          and_do (flush_for w FLUSH) (\<lambda>_ b. Some (Inr k, cache_publisher (topic, k) b)))) b2 =
          Some (Inr k, cache_publisher (topic, k) b3)"
        "later (b2\<lparr>sent := sent b2 @ [((topic, k), m)]\<rparr>) b3" by auto
      with b1 Inr False assms(3) healthy_create [OF assms(1), of "(topic, k)" b1] show ?thesis
        by (auto simp: and_do_def sends_def later_def cached_def cache_publisher_def b2_def split: option.splits)
    qed
  qed
qed

lemma publish_spec_valid:
  assumes "validate_topic topic = Inr ()"
  shows "publish_spec rt w topic ty v =
     and_then (case ty of Some k \<Rightarrow> Inr k | None \<Rightarrow> unique_type w topic) (\<lambda>k.
     and_then (as_res (type_name w k)) (\<lambda>_. and_then (as_res (new_message w 0 k)) (\<lambda>d.
     map_res (\<lambda>m. (k, m)) (decode rt d v))))"
  unfolding publish_spec_def assms and_then.simps ..

lemma healthy_publish:
  assumes "healthy w" and "time_passes w" and "session b \<noteq> None" and "validate_topic topic = Inr ()"
  shows "\<exists>b'. publish_with_session rt w topic ty v b = Some (map_res fst (publish_spec rt w topic ty v), b') \<and>
    sends topic (publish_spec rt w topic ty v) b b'"
proof -
  define kinds where "kinds = (case ty of Some k \<Rightarrow> Inr k | None \<Rightarrow> unique_type w topic)"
  have "yields (case ty of Some kind \<Rightarrow> give (Inr kind) | None \<Rightarrow> discover w topic) b kinds"
    using healthy_discover [OF assms(1,2)] by (auto simp: kinds_def split: option.split)
  then obtain b1 where b1: "(case ty of Some kind \<Rightarrow> give (Inr kind) | None \<Rightarrow> discover w topic) b = Some (kinds, b1)"
    "later b b1" by (rule yieldsE)
  show ?thesis
  proof (cases kinds)
    case (Inl e)
    with b1 show ?thesis
      by (auto simp: publish_with_session_def publish_spec_valid [OF assms(4)] and_do_def sends_def later_def simp flip: kinds_def)
  next
    case (Inr k)
    show ?thesis
    proof (cases "type_name w k")
      case (Inl e)
      with b1 Inr show ?thesis
        by (auto simp: publish_with_session_def publish_spec_valid [OF assms(4)] and_do_def sends_def later_def as_res_def give_def
            simp flip: kinds_def)
    next
      case u: (Inr u)
      from b1(2) assms(3) have "session b1 \<noteq> None" by (simp add: later_def)
      from healthy_send [OF assms(1,2) this, of topic k rt v] obtain b2 where b2:
        "(if cached (topic, k) b1
       then and_do (build_message rt w k v) (\<lambda>dynamic. and_do (wait_for_subscriber w) (\<lambda>_.
         and_do (publish_sample w (topic, k) dynamic) (\<lambda>_. and_do (flush_for w CACHED_FLUSH) (\<lambda>_. give (Inr k))))) b1
       else and_do (build_message rt w k v) (\<lambda>dynamic. and_do (create_publisher w (topic, k)) (\<lambda>_.
         and_do (wait_for_subscriber w) (\<lambda>_. and_do (publish_sample w (topic, k) dynamic) (\<lambda>_.
         and_do (flush_for w FLUSH) (\<lambda>_ b. Some (Inr k, cache_publisher (topic, k) b)))))) b1) =
         Some (map_res (\<lambda>_. k) (and_then (as_res (new_message w 0 k)) (\<lambda>d. decode rt d v)), b2)"
        "sends topic (map_res (\<lambda>m. (k, m)) (and_then (as_res (new_message w 0 k)) (\<lambda>d. decode rt d v))) b1 b2" by blast
      have spec: "publish_spec rt w topic ty v =
          map_res (\<lambda>m. (k, m)) (and_then (as_res (new_message w 0 k)) (\<lambda>d. decode rt d v))"
        using Inr u by (cases "as_res (new_message w 0 k)") (simp_all add: publish_spec_valid [OF assms(4)] as_res_def flip: kinds_def)
      have "publish_with_session rt w topic ty v b =
          Some (map_res (\<lambda>_. k) (and_then (as_res (new_message w 0 k)) (\<lambda>d. decode rt d v)), b2)"
        using b2(1) b1(1) Inr u by (simp add: publish_with_session_def and_do_def [of "case ty of Some kind \<Rightarrow> give (Inr kind) | None \<Rightarrow> discover w topic"]
          and_do_def [of "give r" for r] give_def [of "Inr u"] give_def [of "Inr ()"] Let_def)
      moreover have "map_res fst (map_res (\<lambda>m. (k, m)) r) = map_res (\<lambda>_. k) r" for r :: "message res"
        by (cases r) simp_all
      ultimately show ?thesis using sends_later [OF b1(2) b2(2)] by (simp add: spec)
    qed
  qed
qed

text \<open>
  C12. Caching is invisible: in a system where nothing fails, the result of a publish and the message it
  sends are those of a specification without state, whatever session and cache the backend has. Only
  the creation of a publisher depends on the cache.
\<close>

theorem cache_is_transparent:
  assumes "healthy w" and "time_passes w"
  shows "\<exists>b'. run rt w topic ty v b = Some (map_res fst (publish_spec rt w topic ty v), b') \<and>
    sent b' = sent b @ (case publish_spec rt w topic ty v of Inl e \<Rightarrow> [] | Inr (k, m) \<Rightarrow> [((topic, k), m)]) \<and>
    created b' = created b @ (case publish_spec rt w topic ty v of Inl e \<Rightarrow> []
      | Inr (k, m) \<Rightarrow> if cached (topic, k) b then [] else [(topic, k)])"
proof (cases "validate_topic topic")
  case (Inl e)
  then show ?thesis by (simp add: run_def and_do_def give_def publish_spec_def)
next
  case (Inr u)
  then have v: "validate_topic topic = Inr ()" by simp
  define b1 where "b1 = (if session b = None then (next_call b)\<lparr>session := Some [], opened := opened b + 1\<rparr> else b)"
  have "session b1 \<noteq> None" by (simp add: b1_def)
  from healthy_publish [OF assms this v, of rt ty v] obtain b' where
    b': "publish_with_session rt w topic ty v b1 = Some (map_res fst (publish_spec rt w topic ty v), b')"
    "sends topic (publish_spec rt w topic ty v) b1 b'" by blast
  have "open_session w (calls b) = Inr ()" using assms(1) unfolding healthy_def by blast
  then have "run rt w topic ty v b = publish_with_session rt w topic ty v b1"
    by (auto simp: run_def and_do_def give_def with_session_def ask_def v b1_def split: option.split)
  moreover have "sent b1 = sent b" "created b1 = created b" "cached key b1 = cached key b" for key
    by (auto simp: b1_def cached_def split: option.split)
  ultimately show ?thesis using b' by (auto simp: sends_def split: sum.splits)
qed

text \<open>
  C38. The first call with a valid topic opens the session before it looks at the type or the JSON value,
  and the session stays whatever the outcome: a call refused for its message keeps the ROS context it
  made for the rest of the backend's life.
\<close>

theorem session_outlives_errors:
  assumes "publish_message rt w topic ty v b = Some (r, b')" and "session b = None"
    and "validate_topic topic = Inr ()" and "open_session w (calls b) = Inr ()"
  shows "session b' \<noteq> None \<and> opened b' = opened b + 1"
proof -
  from publish_message_run [OF assms(1)] obtain r' where run: "run rt w topic ty v b = Some (r', b')" by blast
  have "run rt w topic ty v b =
      publish_with_session rt w topic ty v ((next_call b)\<lparr>session := Some [], opened := opened b + 1\<rparr>)"
    by (simp add: run_def assms and_do_def give_def with_session_def ask_def)
  with run have "publish_with_session rt w topic ty v ((next_call b)\<lparr>session := Some [], opened := opened b + 1\<rparr>) =
      Some (r', b')" by simp
  from publish_with_session_outcome [OF this] show ?thesis
    by (auto simp: unsent_def sent_once_def cached_def cache_publisher_def)
qed

section \<open>A world for the witnesses\<close>

text \<open>Each call takes a second; one topic is advertised.\<close>

definition sample_world :: outside where
  "sample_world =
     \<lparr>clock = (\<lambda>n. n * 10 ^ 9), open_session = (\<lambda>_. Inr ()), graph = (\<lambda>_. Inr [(''/t'', [''T''])]),
      type_name = (\<lambda>_. Inr ()), new_message = (\<lambda>_ _. Inr sample_message), new_publisher = (\<lambda>_ _ _. Inr ()),
      subscription_count = (\<lambda>_. Inr 1), hand_over = (\<lambda>_. Inr ()), spun = (\<lambda>_ _. Inr ()), interrupted = (\<lambda>_. False)\<rparr>"

lemma sample_world_healthy: "healthy sample_world"
  by (simp add: healthy_def sample_world_def)

lemma sample_world_passes: "time_passes sample_world"
proof -
  have "t \<le> clock sample_world n" if "t \<le> n" for t n
    using that by (simp add: sample_world_def)
  then show ?thesis unfolding time_passes_def by blast
qed

lemma sample_valid: "validate_topic ''/t'' = Inr ()"
  by (simp add: validate_topic_def bad_segment_def is_ascii_alphabetic_def is_ascii_alphanumeric_def)

lemma sample_spec:
  "publish_spec sample_runtime sample_world ''/t'' None (JObject sample_object) = Inr (''T'', sample_result)"
  by (simp add: publish_spec_valid [OF sample_valid] unique_type_def sample_world_def as_res_def sample_decode)

lemma sample_publish:
  "\<exists>b'. publish_message sample_runtime sample_world ''/t'' None (JObject sample_object) fresh_backend = Some (Inr ''T'', b')"
proof -
  let ?b = "(next_call fresh_backend)\<lparr>session := Some [], opened := 1\<rparr>"
  have "open_session sample_world 0 = Inr ()" by (simp add: sample_world_def)
  then have "run sample_runtime sample_world ''/t'' None (JObject sample_object) fresh_backend =
      publish_with_session sample_runtime sample_world ''/t'' None (JObject sample_object) ?b"
    by (simp add: run_def and_do_def give_def with_session_def ask_def sample_valid fresh_backend_def)
  moreover from healthy_publish [OF sample_world_healthy sample_world_passes _ sample_valid,
      of ?b sample_runtime None "JObject sample_object"] obtain b' where
    "publish_with_session sample_runtime sample_world ''/t'' None (JObject sample_object) ?b = Some (Inr ''T'', b')"
    by (auto simp: sample_spec)
  ultimately show ?thesis by (simp add: publish_message_def)
qed

theorem publish_returns_witness:
  "\<exists>r b'. publish_message sample_runtime sample_world ''/unknown'' None JNull fresh_backend = Some (r, b')"
  using publish_returns [OF sample_world_passes] .

theorem publish_sends_once_witness:
  "\<exists>b' kind m. publish_message sample_runtime sample_world ''/t'' None (JObject sample_object) fresh_backend = Some (Inr ''T'', b') \<and>
    sent b' = [((''/t'', kind), m)] \<and> kind = ''T'' \<and> built sample_runtime sample_world ''T'' (JObject sample_object) m"
proof -
  from sample_publish obtain b' where
    b': "publish_message sample_runtime sample_world ''/t'' None (JObject sample_object) fresh_backend = Some (Inr ''T'', b')"
    by blast
  have "sent fresh_backend = []" by (simp add: fresh_backend_def)
  with publish_sends_once [OF b'] obtain m where "sent b' = [((''/t'', ''T''), m)]"
    "built sample_runtime sample_world ''T'' (JObject sample_object) m" by auto
  with b' show ?thesis by blast
qed

theorem session_kept_witness:
  "\<exists>b. published sample_runtime sample_world [(''/t'', None, JObject sample_object)] fresh_backend b \<and>
    opened b = (if session b = None then 0 else 1)"
proof -
  from sample_publish obtain b where
    "publish_message sample_runtime sample_world ''/t'' None (JObject sample_object) fresh_backend = Some (Inr ''T'', b)"
    by blast
  then have "published sample_runtime sample_world [(''/t'', None, JObject sample_object)] fresh_backend b"
    by (auto intro: published.intros)
  with session_kept [OF this] show ?thesis by blast
qed

theorem waits_in_full_witness:
  "wait_for_subscriber sample_world fresh_backend = Some (Inr (), next_call (next_call fresh_backend)) \<and>
   (\<exists>n. calls fresh_backend < n \<and> n < 2 \<and>
     ((\<exists>c > 0. subscription_count sample_world n = Inr c) \<or> clock sample_world (calls fresh_backend) + from_secs 2 \<le> clock sample_world n))"
proof -
  have w: "wait_for_subscriber sample_world fresh_backend = Some (Inr (), next_call (next_call fresh_backend))"
    unfolding wait_for_subscriber_def and_do_def read_clock_def
    by (simp add: wait_loop.simps [of _ _ "next_call fresh_backend"]) (simp add: sample_world_def)
  with waits_in_full [of sample_world fresh_backend "next_call (next_call fresh_backend)" 0] show ?thesis
    by (simp add: fresh_backend_def numeral_2_eq_2)
qed

theorem cache_is_transparent_witness:
  "\<exists>b'. run sample_runtime sample_world ''/t'' None (JObject sample_object) fresh_backend = Some (Inr ''T'', b') \<and>
    sent b' = [((''/t'', ''T''), sample_result)] \<and> created b' = [(''/t'', ''T'')]"
  using cache_is_transparent [OF sample_world_healthy sample_world_passes, of sample_runtime "''/t''" None "JObject sample_object" fresh_backend]
  by (auto simp: sample_spec fresh_backend_def cached_def)

theorem session_outlives_errors_witness:
  "\<exists>r b'. publish_message sample_runtime sample_world ''/t'' None JNull fresh_backend = Some (r, b') \<and>
    session b' \<noteq> None \<and> opened b' = 1"
proof -
  from publish_with_session_returns [OF sample_world_passes, of sample_runtime "''/t''" None JNull] obtain r b' where
    "run sample_runtime sample_world ''/t'' None JNull fresh_backend = Some (r, b')"
    by (fastforce simp: returns_def run_def and_do_def give_def with_session_def ask_def sample_valid sample_world_def
        fresh_backend_def)
  from publish_message_ends [OF this] obtain r where
    p: "publish_message sample_runtime sample_world ''/t'' None JNull fresh_backend = Some (r, b')" by blast
  have "open_session sample_world (calls fresh_backend) = Inr ()" by (simp add: sample_world_def)
  from session_outlives_errors [OF p _ sample_valid this] p show ?thesis by (simp add: fresh_backend_def)
qed

end
