(* ===== verification/Worker.thy ===== *)
theory Worker
  imports Parameters Messages
begin

text \<open>
  The background worker of \<open>src/lib.rs\<close>: \<open>run_session\<close>, \<open>run_observer\<close> and \<open>graph_worker_main\<close>, which
  compose the graph snapshots, the parameter poll and the table-backed subscriptions. One turn of the
  loop of \<open>run_session\<close> is a function of what the turn sees; the database is part of the state, and
  what other sessions commit between the transactions of a turn is part of what the turn sees.
\<close>

section \<open>The state of the worker\<close>

datatype event =
    ContextReady nat string
  | PollerReady i32 nat i32
  | SubscriptionReadFailed string
  | SubscriptionReadRecovered
  | ParameterDiscoveryFailed string
  | DiscoveryFailed string
  | DiscoveryRecovered
  | WaitingForExtension
  | ContextRebuilding nat nat

text \<open>What one reading of the graph told about isolation.\<close>

datatype observation = Absent | Unread | Empty instant | Peers

text \<open>
  The first group survives a ROS context, the second is local to a session. \<open>limits\<close> holds the byte
  limit each subscription was created with. \<open>seen\<close> is a history of the readings of the session, which
  the code does not keep and no operation reads.
\<close>

record worker =
  store :: database
  previous :: "snapshot option"
  extension_oid :: "oid option"
  previous_parameters :: "parameter list option"
  parameter_extension :: "oid option"
  subs :: topics
  limits :: "string \<Rightarrow> nat"
  logged :: "event list"
  dirty :: bool
  startup :: instant
  last_error :: "string option"
  waiting_logged :: bool
  next_parameters :: instant
  parameter_poll :: "poll option"
  empty_since :: "instant option"
  saw_graph :: bool
  next_message_flush :: instant
  next_subscription_poll :: instant
  last_subscription_error :: "string option"
  seen :: "observation list"

definition log_event :: "event \<Rightarrow> worker \<Rightarrow> worker" where
  "log_event e w = w\<lparr>logged := logged w @ [e]\<rparr>"

section \<open>What a turn sees\<close>

text \<open>
  Other sessions may write \<open>ros2.subscriptions\<close>, within its primary key, drop the extension and install
  it again. The other tables belong to the worker; the README calls edits of them unsupported.
\<close>

datatype other =
    Edit "(string \<times> subscription) list \<Rightarrow> (string \<times> subscription) list"
  | Drop
  | Install oid string

fun act :: "other \<Rightarrow> database \<Rightarrow> database" where
  "act (Edit f) d =
     (let t = f (subscriptions_table d)
      in if extension d = None \<or> \<not> distinct (map fst t) then d else d\<lparr>subscriptions_table := t\<rparr>)"
| "act Drop d = no_extension"
| "act (Install i schema) d = (if extension d = None then create_extension i schema else d)"

text \<open>What does not change over the life of the worker.\<close>

record platform =
  strings :: runtime
  numbers :: serde
  interval :: "int \<Rightarrow> json"
  parse_json :: "string \<Rightarrow> string + json"
  my_name :: string
  my_namespace :: string

text \<open>
  One turn. A reload can change the settings at any time: \<open>config\<close> is what the turn finds at its start, where it
  reads the message poll, \<open>ttl_config\<close> what the reconciliation finds at its start, \<open>limit_config\<close> what it finds when it
  subscribes to a topic and \<open>poll_config\<close> what the worker finds after it.
\<close>

record turn =
  latch :: bool
  config :: settings
  ttl_config :: settings
  limit_config :: "string \<Rightarrow> settings"
  poll_config :: settings
  spin_result :: "duration \<Rightarrow> error + unit"
  deliveries :: "(string \<times> message list) list"
  graph_changed :: bool
  spun_at :: instant
  before_flush :: "other list"
  flush_env :: stmt_env
  flushed_at :: instant
  before_reconcile :: "other list"
  within_reconcile :: "other list"
  ros_node :: middleware
  read_failure :: "string option"
  reconcile_env :: stmt_env
  reconcile_write_env :: stmt_env
  reconciled_at :: instant
  tick_sees :: tick_env
  before_parameters :: "other list"
  parameters_env :: stmt_env
  parameters_at :: instant
  checked_at :: instant
  node_names :: "error + node_info list"
  topic_list :: "error + (string \<times> string list) list"
  before_graph :: "other list"
  graph_env :: stmt_env
  emptied_at :: instant
  start_checked_at :: instant
  ros_peers :: discovery
  started_at :: instant
  before_failure :: "other list"
  failure_env :: stmt_env
  failed_at :: instant
  elapsed_at :: instant

text \<open>The transactions of a turn, in their order.\<close>

definition envs :: "turn \<Rightarrow> stmt_env list" where
  "envs t = [flush_env t, reconcile_env t, reconcile_write_env t, parameters_env t, graph_env t, failure_env t]"

section \<open>The steps of a turn\<close>

text \<open>
  The worker fails with an error of the ROS executor, or crashes in a panic, which leaves the database
  as the transactions committed before it left it.
\<close>

datatype stop = ObserverError error (left_behind: database) | Crash fault (left_behind: database)

definition crash_in :: "database \<Rightarrow> 'a res \<Rightarrow> stop + 'a" where
  "crash_in d r = (case r of Inl f \<Rightarrow> Inl (Crash f d) | Inr a \<Rightarrow> Inr a)"

definition message_poll :: "turn \<Rightarrow> duration" where
  "message_poll t = from_millis (i32_as_u64 (message_poll_ms (config t)))"

definition spin_time :: "turn \<Rightarrow> worker \<Rightarrow> duration" where
  "spin_time t w = (if subs w = [] then GRAPH_SPIN else min (message_poll t) GRAPH_SPIN)"

text \<open>While the executor spins, callbacks fill the mailboxes and the graph listener sets the flag.\<close>

definition deliver :: "platform \<Rightarrow> (string \<Rightarrow> nat) \<Rightarrow> string \<times> message list \<Rightarrow> topics \<Rightarrow> topics" where
  "deliver pf limit_of = (\<lambda>(topic, ms) ts.
     (case map_of ts topic of
        None \<Rightarrow> ts
      | Some l \<Rightarrow> AList.update topic
          (l\<lparr>live_mailbox := fold (callback (strings pf) topic (live_type l) (limit_of topic)) ms (live_mailbox l)\<rparr>) ts))"

definition spin_step :: "platform \<Rightarrow> turn \<Rightarrow> worker \<Rightarrow> worker" where
  "spin_step pf t w =
     w\<lparr>subs := fold (deliver pf (limits w)) (deliveries t) (subs w), dirty := dirty w \<or> graph_changed t\<rparr>"

definition flush_step :: "platform \<Rightarrow> turn \<Rightarrow> worker \<Rightarrow> stop + worker" where
  "flush_step pf t w =
     (if subs w \<noteq> [] \<and> next_message_flush w \<le> spun_at t
      then (let d = fold act (before_flush t) (store w)
            in map_res (\<lambda>(d', ts). w\<lparr>store := d', subs := ts, next_message_flush := flushed_at t + message_poll t\<rparr>)
                 (crash_in d (flush (parse_json pf) (flush_env t) d (subs w))))
      else Inr w)"

definition note_read :: "string + unit \<Rightarrow> worker \<Rightarrow> worker" where
  "note_read r w =
     (case r of
        Inl e \<Rightarrow>
          if last_subscription_error w \<noteq> Some e
          then log_event (SubscriptionReadFailed e) (w\<lparr>last_subscription_error := Some e\<rparr>) else w
      | Inr _ \<Rightarrow>
          if last_subscription_error w \<noteq> None
          then log_event SubscriptionReadRecovered (w\<lparr>last_subscription_error := None\<rparr>) else w)"

definition reconcile_step :: "platform \<Rightarrow> turn \<Rightarrow> worker \<Rightarrow> stop + worker" where
  "reconcile_step pf t w =
     (if next_subscription_poll w \<le> spun_at t
      then (case reconcile (ttl_config t) (ros_node t) (interval pf) (reconcile_env t) (reconcile_write_env t) (read_failure t)
                  (fold act (within_reconcile t)) (fold act (before_reconcile t) (store w)) (subs w) of
              Inl (f, d) \<Rightarrow> Inl (Crash f d)
            | Inr (r, d, ts) \<Rightarrow> Inr ((note_read r (w\<lparr>store := d, subs := ts,
                  limits := (\<lambda>x. if contains_key (subs w) x then limits w x else message_max_bytes (limit_config t x))\<rparr>))
                \<lparr>next_subscription_poll := reconciled_at t + from_millis (i32_as_u64 (subscription_poll_ms (poll_config t)))\<rparr>))
      else Inr w)"

text \<open>A poll that delivers or fails is saved and ends; \<open>result.map(Option::unwrap)\<close> is on \<open>Ok(Some(..))\<close>.\<close>

definition parameter_step :: "platform \<Rightarrow> turn \<Rightarrow> worker \<Rightarrow> stop + worker" where
  "parameter_step pf t w =
     (case parameter_poll w of
        None \<Rightarrow> Inr w
      | Some p \<Rightarrow>
          (let d = fold act (before_parameters t) (store w)
           in case tick (numbers pf) (tick_sees t) p of
             Inl (Panic e) \<Rightarrow> Inl (Crash (Panic e) (store w))
           | Inr (None, p') \<Rightarrow> Inr (w\<lparr>parameter_poll := Some p'\<rparr>)
           | Inl (Err e) \<Rightarrow>
               map_res (\<lambda>(i, d'). log_event (ParameterDiscoveryFailed e)
                   (w\<lparr>store := d', parameter_extension := i, parameter_poll := None,
                      next_parameters := parameters_at t + from_secs 5\<rparr>))
                 (crash_in d (transaction (parameters_env t)
                   (persist (parameters_env t) (Inl e) (previous_parameters w) (parameter_extension w) d)))
           | Inr (Some s, p') \<Rightarrow>
               map_res (\<lambda>(i, d').
                   w\<lparr>store := d', parameter_extension := i, previous_parameters := Some s, parameter_poll := None,
                      next_parameters := parameters_at t + from_secs 5\<rparr>)
                 (crash_in d (transaction (parameters_env t)
                   (persist (parameters_env t) (Inr s) (previous_parameters w) (parameter_extension w) d)))))"

definition is_empty_graph :: "snapshot \<Rightarrow> bool" where
  "is_empty_graph s \<longleftrightarrow> snapshot_nodes s = [] \<and> snapshot_topics s = []"

definition note_emptiness :: "turn \<Rightarrow> error + snapshot \<Rightarrow> worker \<Rightarrow> worker" where
  "note_emptiness t snap w =
     (case snap of
        Inr s \<Rightarrow>
          if is_empty_graph s
          then w\<lparr>empty_since := (if empty_since w = None then Some (emptied_at t) else empty_since w),
                 seen := seen w @ [Empty (emptied_at t)]\<rparr>
          else w\<lparr>empty_since := None, saw_graph := True, seen := seen w @ [Peers]\<rparr>
      | Inl _ \<Rightarrow> w\<lparr>empty_since := None, seen := seen w @ [Unread]\<rparr>)"

definition start_step :: "turn \<Rightarrow> snapshot \<Rightarrow> worker \<Rightarrow> stop + worker" where
  "start_step t s w =
     (if parameter_poll w = None \<and> next_parameters w \<le> start_checked_at t
      then (case start (ros_peers t) (started_at t) (snapshot_nodes s) of
              Inr p \<Rightarrow> Inr (w\<lparr>parameter_poll := Some p\<rparr>)
            | Inl (Panic e) \<Rightarrow> Inl (Crash (Panic e) (store w))
            | Inl (Err e) \<Rightarrow>
                (let d = fold act (before_failure t) (store w)
                 in map_res (\<lambda>(i, d'). w\<lparr>store := d', parameter_extension := i, next_parameters := failed_at t + from_secs 5\<rparr>)
                      (crash_in d (transaction (failure_env t)
                        (persist (failure_env t) (Inl e) (previous_parameters w) (parameter_extension w) d)))))
      else Inr w)"

definition forget :: "worker \<Rightarrow> worker" where
  "forget w =
     (let w1 = w\<lparr>empty_since := None, previous := None, previous_parameters := None, parameter_extension := None,
            parameter_poll := None, seen := seen w @ [Absent]\<rparr>
      in if waiting_logged w1 then w1 else log_event WaitingForExtension (w1\<lparr>waiting_logged := True\<rparr>))"

datatype session_outcome = Terminated | Reinitialize bool

definition read_error :: "error + snapshot \<Rightarrow> string option" where
  "read_error snap = (case snap of Inl e \<Rightarrow> Some (describe e) | Inr _ \<Rightarrow> None)"

definition graph_step ::
  "platform \<Rightarrow> duration option \<Rightarrow> turn \<Rightarrow> worker \<Rightarrow> stop + session_outcome option \<times> worker"
where
  "graph_step pf reinit_after t w =
     (let snap = read_graph (my_name pf) (my_namespace pf) (node_names t) (topic_list t);
          w1 = (if read_error snap \<noteq> last_error w
                then log_event (case read_error snap of Some m \<Rightarrow> DiscoveryFailed m | None \<Rightarrow> DiscoveryRecovered) w
                else w);
          d = fold act (before_graph t) (store w1)
      in and_then
           (crash_in d (transaction (graph_env t)
             (Inr (persist_snapshot (graph_env t) (described snap) (previous w1) (extension_oid w1) d))))
           (\<lambda>(installed, d').
         and_then
           (let w2 = w1\<lparr>store := d'\<rparr>
            in if installed \<noteq> None
               then map_res (\<lambda>w. w\<lparr>waiting_logged := False\<rparr>)
                 (case snap of
                    Inl _ \<Rightarrow> Inr (note_emptiness t snap w2)
                  | Inr s \<Rightarrow> map_res (\<lambda>w. w\<lparr>previous := Some s\<rparr>) (start_step t s (note_emptiness t snap w2)))
               else Inr (forget w2))
           (\<lambda>w3. let w4 = w3\<lparr>extension_oid := installed, last_error := read_error snap\<rparr>
              in Inr (case (empty_since w4, reinit_after) of
                   (Some since, Some threshold) \<Rightarrow>
                     (if threshold \<le> elapsed_at t - since then Some (Reinitialize (saw_graph w4)) else None, w4)
                 | _ \<Rightarrow> (None, w4)))))"

text \<open>\<open>Instant::now() < startup || !dirty.swap(false)\<close>: before the startup time the flag is kept.\<close>

definition check_step ::
  "platform \<Rightarrow> duration option \<Rightarrow> turn \<Rightarrow> worker \<Rightarrow> stop + session_outcome option \<times> worker"
where
  "check_step pf reinit_after t w =
     (if checked_at t < startup w then Inr (None, w)
      else if \<not> dirty w then Inr (None, w)
      else graph_step pf reinit_after t (w\<lparr>dirty := False\<rparr>))"

section \<open>Sessions\<close>

text \<open>The steps of a turn before the reading of the graph, then the whole turn.\<close>

definition before_check :: "platform \<Rightarrow> turn \<Rightarrow> worker \<Rightarrow> stop + worker" where
  "before_check pf t w =
     and_then (flush_step pf t (spin_step pf t w)) (\<lambda>w.
     and_then (reconcile_step pf t w) (parameter_step pf t))"

definition turn_step ::
  "platform \<Rightarrow> duration option \<Rightarrow> turn \<Rightarrow> worker \<Rightarrow> stop + session_outcome option \<times> worker"
where
  "turn_step pf reinit_after t w =
     (case spin_result t (spin_time t w) of
        Inl e \<Rightarrow> Inl (ObserverError e (store w))
      | Inr _ \<Rightarrow> and_then (before_check pf t w) (check_step pf reinit_after t))"

fun session_turns ::
  "platform \<Rightarrow> duration option \<Rightarrow> turn list \<Rightarrow> worker \<Rightarrow> stop + session_outcome option \<times> worker"
where
  "session_turns pf reinit_after [] w = Inr (None, w)"
| "session_turns pf reinit_after (t # ts) w =
     (if \<not> latch t then Inr (Some Terminated, w)
      else case turn_step pf reinit_after t w of
        Inl s \<Rightarrow> Inl s
      | Inr (Some q, w') \<Rightarrow> Inr (Some q, w')
      | Inr (None, w') \<Rightarrow> session_turns pf reinit_after ts w')"

text \<open>
  The arguments of \<open>ros_context\<close>, and the identifier of the RMW implementation, which can be null and is
  taken to be UTF-8 otherwise.
\<close>

definition ros_context_args :: "string list" where
  "ros_context_args = [''--ros-args'', ''--disable-external-lib-logs'']"

definition rmw_implementation :: "string option \<Rightarrow> string" where
  "rmw_implementation identifier = (case identifier of None \<Rightarrow> ''unknown'' | Some name \<Rightarrow> name)"

text \<open>What a session sees: \<open>joined\<close> is the creation of its context, \<open>noded\<close> that of its node.\<close>

record participant =
  joined :: "string list \<Rightarrow> error + unit"
  domain_id :: nat
  rmw_identifier :: "string option"
  config_before :: settings
  noded :: "error + unit"
  opened_at :: instant
  first_flush :: instant
  first_poll :: instant
  turns :: "turn list"
  config_after :: settings

text \<open>The local state a session starts with; the live subscriptions of the last one are dropped.\<close>

definition begin_session :: "participant \<Rightarrow> worker \<Rightarrow> worker" where
  "begin_session q w =
     (let begin = opened_at q + from_secs 1
      in w\<lparr>subs := [], dirty := True, startup := begin, last_error := None, waiting_logged := False,
           next_parameters := begin, parameter_poll := None, empty_since := None, saw_graph := False,
           next_message_flush := first_flush q, next_subscription_poll := first_poll q,
           last_subscription_error := None, seen := []\<rparr>)"

definition announce :: "participant \<Rightarrow> worker \<Rightarrow> worker" where
  "announce q w =
     (let s = config_before q
      in log_event (PollerReady (subscription_poll_ms s) (message_max_bytes s) (subscription_ttl_seconds s))
           (log_event (ContextReady (domain_id q) (rmw_implementation (rmw_identifier q))) w))"

definition run_session ::
  "platform \<Rightarrow> duration option \<Rightarrow> participant \<Rightarrow> worker \<Rightarrow> stop + session_outcome option \<times> worker"
where
  "run_session pf reinit_after q w =
     (case joined q ros_context_args of
        Inl e \<Rightarrow> Inl (ObserverError e (store w))
      | Inr _ \<Rightarrow>
          (case noded q of
             Inl e \<Rightarrow> Inl (ObserverError e (store w))
           | Inr _ \<Rightarrow> session_turns pf reinit_after (turns q) (announce q (begin_session q w))))"

definition as_secs :: "duration option \<Rightarrow> nat" where
  "as_secs r = (case r of None \<Rightarrow> 0 | Some x \<Rightarrow> x div 10 ^ 9)"

text \<open>Every session but the last one given ends with a rebuild; the flag says that the worker stopped.\<close>

fun run_observer ::
  "platform \<Rightarrow> participant list \<Rightarrow> duration option \<Rightarrow> worker \<Rightarrow> stop + bool \<times> worker"
where
  "run_observer pf [] reinit_after w = Inr (False, w)"
| "run_observer pf (q # qs) reinit_after w =
     (case run_session pf reinit_after q w of
        Inl s \<Rightarrow> Inl s
      | Inr (None, w') \<Rightarrow> Inr (False, w')
      | Inr (Some Terminated, w') \<Rightarrow> Inr (True, w')
      | Inr (Some (Reinitialize saw), w') \<Rightarrow>
          (case next_reinit_after (config_after q) reinit_after saw of
             Inl f \<Rightarrow> Inl (Crash f (store w'))
           | Inr r \<Rightarrow> run_observer pf qs r (log_event (ContextRebuilding (as_secs reinit_after) (as_secs r)) w')))"

definition initial_worker :: "database \<Rightarrow> worker" where
  "initial_worker d =
     \<lparr>store = d, previous = None, extension_oid = None, previous_parameters = None, parameter_extension = None,
      subs = [], limits = (\<lambda>_. 0), logged = [], dirty = True, startup = 0, last_error = None, waiting_logged = False,
      next_parameters = 0, parameter_poll = None, empty_since = None, saw_graph = False, next_message_flush = 0,
      next_subscription_poll = 0, last_subscription_error = None, seen = []\<rparr>"

text \<open>
  The first transaction sets the search path and the timeouts. An error of the observer is saved in
  \<open>worker_status\<close> before the worker fails; a panic saves nothing. The result comes with the database
  the worker leaves.
\<close>

definition graph_worker_main ::
  "platform \<Rightarrow> participant list \<Rightarrow> settings \<Rightarrow> stmt_env \<Rightarrow> stmt_env \<Rightarrow> database \<Rightarrow>
    (fault + (string + bool)) \<times> database"
where
  "graph_worker_main pf qs s env env' d =
     (case worker_database s of
        Inl f \<Rightarrow> (Inl f, d)
      | Inr name \<Rightarrow>
          (case transaction env (Inr ()) of
             Inl f \<Rightarrow> (Inl f, d)
           | Inr _ \<Rightarrow>
               (case run_observer pf qs (configured_reinit_after s) (initial_worker d) of
                  Inr (stopped, w) \<Rightarrow> (Inr (Inr stopped), store w)
                | Inl (ObserverError e d') \<Rightarrow>
                    (case transaction env' (Inr (persist_snapshot env' (Inl (describe e)) None None d')) of
                       Inl f \<Rightarrow> (Inl f, d')
                     | Inr (i, d'') \<Rightarrow> (Inr (Inl (describe e)), d''))
                | Inl (Crash f d') \<Rightarrow> (Inl f, d'))))"

section \<open>What the steps do to the cached tables\<close>

text \<open>The subscriptions of the worker leave the extension and the two caches alone.\<close>

definition same_caches :: "database \<Rightarrow> database \<Rightarrow> bool" where
  "same_caches d d' \<longleftrightarrow> extension d' = extension d \<and> graph_rows d' = graph_rows d \<and> parameter_rows d' = parameter_rows d"

lemma same_caches_refl [simp]: "same_caches d d"
  by (simp add: same_caches_def)

lemma same_caches_trans: "same_caches d d1 \<Longrightarrow> same_caches d1 d2 \<Longrightarrow> same_caches d d2"
  by (simp add: same_caches_def)

lemma same_caches_updates [simp]:
  "same_caches d ((d :: database)\<lparr>subscriptions_table := s\<rparr>)" "same_caches d ((d :: database)\<lparr>messages_table := m\<rparr>)"
  "same_caches d ((d :: database)\<lparr>messages_table := m, subscriptions_table := s\<rparr>)"
  by (simp_all add: same_caches_def graph_rows_def parameter_rows_def)

lemma same_caches_fold: "(\<And>x d. same_caches d (f x d)) \<Longrightarrow> same_caches d (fold f xs d)"
  by (induction xs arbitrary: d) (auto intro: same_caches_trans)

lemma flush_caches: "flush fs env d ts = Inr (d', ts') \<Longrightarrow> same_caches d d'"
proof (cases "extension d")
  case None
  assume "flush fs env d ts = Inr (d', ts')"
  from flush_absent [OF None this] show ?thesis by simp
next
  case (Some e)
  assume "flush fs env d ts = Inr (d', ts')"
  from flush_tables [OF this Some] Some show ?thesis
    by (simp add: same_caches_def graph_rows_def parameter_rows_def)
qed

lemma flush_raised: "flush fs env d ts = Inl f \<Longrightarrow> raised env f"
  by (auto simp: flush_def Let_def transaction_Inl_iff raised_def dest!: stores_refused split: if_splits option.splits)

lemma reconcile_caches:
  "reconcile s nd ep env env' failure meanwhile d ts = Inr (r, d', ts') \<Longrightarrow> same_caches (meanwhile d) d'"
proof -
  have "same_caches d (reconcile_write p removed d)" for p removed d
    by (auto simp: reconcile_write_def Let_def same_caches_def graph_rows_def parameter_rows_def split: option.split)
  then show "reconcile s nd ep env env' failure meanwhile d ts = Inr (r, d', ts') \<Longrightarrow> same_caches (meanwhile d) d'"
    by (auto simp: reconcile_def Let_def split: sum.splits prod.splits if_splits)
qed

lemma graph_rows_parameters [simp]:
  "graph_rows (parameters_table_update f (db :: database)) = graph_rows db"
  "graph_rows (parameter_status_update g (db :: database)) = graph_rows db"
  by (simp_all add: graph_rows_def)

lemma parameter_rows_graph [simp]:
  "parameter_rows (nodes_table_update f (db :: database)) = parameter_rows db"
  "parameter_rows (topics_table_update g (db :: database)) = parameter_rows db"
  "parameter_rows (worker_status_update h (db :: database)) = parameter_rows db"
  by (simp_all add: parameter_rows_def)

lemma persist_keeps_graph: "persist env r p ext d = Inr (ext', d') \<Longrightarrow> graph_rows d' = graph_rows d \<and> extension d' = extension d"
  by (auto simp: persist_def Let_def split: option.splits sum.splits if_splits)

lemma persist_snapshot_keeps_parameters:
  "persist_snapshot env r p ext d = (ext', d') \<Longrightarrow> parameter_rows d' = parameter_rows d \<and> extension d' = extension d"
  by (auto simp: persist_snapshot_def Let_def split: option.splits sum.splits if_splits)

section \<open>The invariant of the worker\<close>

text \<open>Both caches track what the worker remembers, and a running poll is in order.\<close>

definition caches_ok :: "bool \<Rightarrow> worker \<Rightarrow> database \<Rightarrow> bool" where
  "caches_ok lax w d \<longleftrightarrow> graph_store.tracks lax (previous w) (extension_oid w) d \<and>
     parameter_store.tracks lax (previous_parameters w) (parameter_extension w) d"

definition worker_ok :: "bool \<Rightarrow> worker \<Rightarrow> bool" where
  "worker_ok lax w \<longleftrightarrow> caches_ok lax w (store w) \<and> (\<forall>p. parameter_poll w = Some p \<longrightarrow> poll_ok p)"

definition reinstalls :: "other \<Rightarrow> bool" where
  "reinstalls a \<longleftrightarrow> (case a of Install i schema \<Rightarrow> True | _ \<Rightarrow> False)"

text \<open>A turn in which no other session installs the extension, unless that is allowed for.\<close>

definition turn_ok :: "bool \<Rightarrow> turn \<Rightarrow> bool" where
  "turn_ok lax t \<longleftrightarrow> lax \<or> \<not> list_ex reinstalls (before_flush t @ before_reconcile t @ within_reconcile t @
     before_parameters t @ before_graph t @ before_failure t)"

lemma caches_ok_same: "same_caches d d' \<Longrightarrow> caches_ok lax w d \<Longrightarrow> caches_ok lax w d'"
  by (simp add: caches_ok_def same_caches_def graph_store.tracks_cong [of d' d] parameter_store.tracks_cong [of d' d])

lemma act_ok: "caches_ok lax w d \<Longrightarrow> lax \<or> \<not> reinstalls a \<Longrightarrow> caches_ok lax w (act a d)"
proof (cases a)
  case (Edit f)
  assume "caches_ok lax w d"
  moreover have "same_caches d (act a d)" by (simp add: Edit Let_def)
  ultimately show ?thesis by (rule caches_ok_same [rotated])
next
  case Drop
  then show ?thesis
    by (simp add: caches_ok_def no_extension_def graph_store.tracks_absent parameter_store.tracks_absent)
next
  case (Install i schema)
  assume "caches_ok lax w d" and "lax \<or> \<not> reinstalls a"
  then show ?thesis using Install
    by (simp add: reinstalls_def caches_ok_def graph_store.tracks_installed parameter_store.tracks_installed)
qed

lemma acts_ok: "caches_ok lax w d \<Longrightarrow> lax \<or> \<not> list_ex reinstalls as \<Longrightarrow> caches_ok lax w (fold act as d)"
  by (induction as arbitrary: d) (auto intro: act_ok)

lemma turn_acts:
  assumes "turn_ok lax t" and "caches_ok lax w d"
  shows "caches_ok lax w (fold act (before_flush t) d)" "caches_ok lax w (fold act (before_reconcile t) d)"
    "caches_ok lax w (fold act (within_reconcile t) d)" "caches_ok lax w (fold act (before_parameters t) d)"
    "caches_ok lax w (fold act (before_graph t) d)" "caches_ok lax w (fold act (before_failure t) d)"
  using assms by (auto intro!: acts_ok simp: turn_ok_def)

lemma caches_ok_worker [simp]:
  "caches_ok lax (log_event e w) d = caches_ok lax w d"
  "caches_ok lax (w\<lparr>store := x\<rparr>) d = caches_ok lax w d"
  by (simp_all add: caches_ok_def log_event_def)

lemma log_event_fields [simp]:
  "store (log_event e w) = store w" "parameter_poll (log_event e w) = parameter_poll w" "subs (log_event e w) = subs w"
  "previous (log_event e w) = previous w" "extension_oid (log_event e w) = extension_oid w"
  "empty_since (log_event e w) = empty_since w" "saw_graph (log_event e w) = saw_graph w" "seen (log_event e w) = seen w"
  "previous_parameters (log_event e w) = previous_parameters w"
  "parameter_extension (log_event e w) = parameter_extension w"
  "worker_ok lax (log_event e w) = worker_ok lax w"
  "next_parameters (log_event e w) = next_parameters w"
  by (simp_all add: log_event_def worker_ok_def caches_ok_def)

text \<open>The stops of a turn: a panic that PostgreSQL raised in one of its transactions.\<close>

definition sql_crash :: "turn \<Rightarrow> stop \<Rightarrow> bool" where
  "sql_crash t s \<longleftrightarrow> (case s of ObserverError e d \<Rightarrow> False | Crash f d \<Rightarrow> list_ex (\<lambda>env. raised env f) (envs t))"

lemma sql_crash_raised: "raised env f \<Longrightarrow> env \<in> set (envs t) \<Longrightarrow> sql_crash t (Crash f d)"
  by (auto simp: sql_crash_def list_ex_iff)

lemma envs_members [simp]:
  "flush_env t \<in> set (envs t)" "reconcile_env t \<in> set (envs t)" "reconcile_write_env t \<in> set (envs t)"
  "parameters_env t \<in> set (envs t)" "graph_env t \<in> set (envs t)" "failure_env t \<in> set (envs t)"
  by (simp_all add: envs_def)

lemma crash_in_iff [simp]:
  "crash_in d r = Inr a \<longleftrightarrow> r = Inr a" "crash_in d r = Inl s \<longleftrightarrow> (\<exists>f. r = Inl f \<and> s = Crash f d)"
  by (auto simp: crash_in_def split: sum.splits)

lemma transaction_raised: "transaction env r = Inl f \<Longrightarrow> (r = Inl f \<Longrightarrow> raised env f) \<Longrightarrow> raised env f"
  by (auto simp: transaction_Inl_iff raised_def)

lemma spin_step_ok: "worker_ok lax w \<Longrightarrow> worker_ok lax (spin_step pf t w)"
  by (simp add: spin_step_def worker_ok_def caches_ok_def)

lemma flush_step_ok:
  assumes "worker_ok lax w" and "turn_ok lax t" and "flush_step pf t w = Inr w'"
  shows "worker_ok lax w'"
proof (cases "subs w \<noteq> [] \<and> next_message_flush w \<le> spun_at t")
  case True
  with assms(3) obtain d ts where
    run: "flush (parse_json pf) (flush_env t) (fold act (before_flush t) (store w)) (subs w) = Inr (d, ts)"
    and w': "w' = w\<lparr>store := d, subs := ts, next_message_flush := flushed_at t + message_poll t\<rparr>"
    by (auto simp: flush_step_def Let_def)
  have "caches_ok lax w d"
    using assms(1,2) by (intro caches_ok_same [OF flush_caches [OF run]] turn_acts(1)) (simp_all add: worker_ok_def)
  with assms(1) show ?thesis by (simp add: w' worker_ok_def caches_ok_def)
next
  case False
  with assms(1,3) show ?thesis by (simp only: flush_step_def if_False sum.inject)
qed

lemma flush_step_crash: "flush_step pf t w = Inl s \<Longrightarrow> sql_crash t s"
  by (auto simp: flush_step_def Let_def split: if_splits dest!: flush_raised intro: sql_crash_raised)

lemma note_read_fields [simp]:
  "store (note_read r w) = store w" "previous (note_read r w) = previous w" "extension_oid (note_read r w) = extension_oid w"
  "previous_parameters (note_read r w) = previous_parameters w" "parameter_extension (note_read r w) = parameter_extension w"
  "parameter_poll (note_read r w) = parameter_poll w" "empty_since (note_read r w) = empty_since w"
  "saw_graph (note_read r w) = saw_graph w" "seen (note_read r w) = seen w" "startup (note_read r w) = startup w"
  "dirty (note_read r w) = dirty w" "subs (note_read r w) = subs w" "limits (note_read r w) = limits w"
  by (simp_all add: note_read_def log_event_def split: sum.split)

lemma reconcile_step_ok:
  assumes "worker_ok lax w" and "turn_ok lax t" and "reconcile_step pf t w = Inr w'"
  shows "worker_ok lax w'"
proof (cases "next_subscription_poll w \<le> spun_at t")
  case True
  with assms(3) obtain r d ts where run: "reconcile (ttl_config t) (ros_node t) (interval pf) (reconcile_env t)
      (reconcile_write_env t) (read_failure t) (fold act (within_reconcile t)) (fold act (before_reconcile t) (store w)) (subs w) =
      Inr (r, d, ts)"
    by (auto simp: reconcile_step_def split: sum.splits)
  have "caches_ok lax w (fold act (within_reconcile t) (fold act (before_reconcile t) (store w)))"
    using assms(1,2) by (intro turn_acts) (simp_all add: worker_ok_def)
  from caches_ok_same [OF reconcile_caches [OF run] this] True assms(1,3) show ?thesis
    by (auto simp: reconcile_step_def run worker_ok_def caches_ok_def)
qed (use assms in \<open>simp add: reconcile_step_def\<close>)

lemma reconcile_step_crash: "reconcile_step pf t w = Inl s \<Longrightarrow> sql_crash t s"
proof -
  assume "reconcile_step pf t w = Inl s"
  then obtain f d where run: "reconcile (ttl_config t) (ros_node t) (interval pf) (reconcile_env t)
      (reconcile_write_env t) (read_failure t) (fold act (within_reconcile t)) (fold act (before_reconcile t) (store w)) (subs w) =
      Inl (f, d)" and s: "s = Crash f d"
    by (auto simp: reconcile_step_def split: sum.splits if_splits)
  from reconcile_fails [OF run] have "raised (reconcile_env t) f \<or> raised (reconcile_write_env t) f"
    by (auto simp: raised_def)
  then show "sql_crash t s" unfolding s by (auto intro: sql_crash_raised)
qed

text \<open>Saving a result of the parameter poll.\<close>

lemma persist_caches:
  assumes "caches_ok lax w d" and "persist env r (previous_parameters w) (parameter_extension w) d = Inr (i, d')"
  shows "graph_store.tracks lax (previous w) (extension_oid w) d' \<and>
    parameter_store.tracks lax (case r of Inl e \<Rightarrow> previous_parameters w | Inr s \<Rightarrow> Some s) i d' \<and>
    extension d' = extension d \<and> graph_rows d' = graph_rows d"
proof -
  from persist_keeps_graph [OF assms(2)] assms(1) have "graph_store.tracks lax (previous w) (extension_oid w) d'"
    by (simp add: caches_ok_def graph_store.tracks_cong [of d' d])
  with persist_keeps_graph [OF assms(2)] parameter_store.tracks_persist [OF _ assms(2), of lax] assms(1)
  show ?thesis by (auto simp: caches_ok_def)
qed

lemma persist_raised:
  assumes "transaction env (persist env r p i d) = Inl f" and "\<And>s. r = Inr s \<Longrightarrow> snapshot_ok s"
  shows "raised env f"
  using transaction_raised [OF assms(1)] parameter_store.refused [of env r p i d f] assms(2)
  by (fastforce simp: raised_def)

text \<open>The poll in a turn never panics itself.\<close>

lemma parameter_step_cases:
  assumes "worker_ok lax w"
  obtains (idle) "parameter_poll w = None" "parameter_step pf t w = Inr w"
    | (waiting) p p' where "parameter_poll w = Some p" "poll_ok p'" "parameter_step pf t w = Inr (w\<lparr>parameter_poll := Some p'\<rparr>)"
    | (saving) p r g where "parameter_poll w = Some p" "\<And>s. r = Inr s \<Longrightarrow> snapshot_ok s"
        "\<And>s. r = Inr s \<Longrightarrow> \<exists>p'. tick (numbers pf) (tick_sees t) p = Inr (Some s, p')"
        "parameter_step pf t w = map_res g (crash_in (fold act (before_parameters t) (store w))
          (transaction (parameters_env t) (persist (parameters_env t) r (previous_parameters w) (parameter_extension w)
            (fold act (before_parameters t) (store w)))))"
        "\<And>i d. \<exists>n l. g (i, d) = w\<lparr>store := d, parameter_extension := i, parameter_poll := None, next_parameters := n,
          previous_parameters := (case r of Inl e \<Rightarrow> previous_parameters w | Inr s \<Rightarrow> Some s), logged := l\<rparr>"
proof (cases "parameter_poll w")
  case None
  then show thesis by (intro idle) (simp_all add: parameter_step_def)
next
  case (Some p)
  with assms have p: "poll_ok p" by (simp add: worker_ok_def)
  show thesis
  proof (cases "tick (numbers pf) (tick_sees t) p")
    case (Inl f)
    then obtain e where f: "f = Err e" using tick_no_panic [OF p, of "numbers pf" "tick_sees t"]
      by (cases f) (auto simp: panics_def)
    show thesis
      by (rule saving [where r = "Inl e", OF Some])
        (auto simp: parameter_step_def Some Inl f Let_def log_event_def
          intro!: exI [of _ "parameters_at t + from_secs 5"] exI [of _ "logged w @ [ParameterDiscoveryFailed e]"])
  next
    case (Inr x)
    obtain r p' where x: "x = (r, p')" by (cases x)
    note ok = tick_ok [OF p Inr [unfolded x]]
    show thesis
    proof (cases r)
      case None
      show thesis by (rule waiting [OF Some, of p']) (use ok None in \<open>simp_all add: parameter_step_def Some Inr x\<close>)
    next
      case s: (Some s)
      show thesis
        by (rule saving [where r = "Inr s", OF Some])
          (use ok s in \<open>auto simp: parameter_step_def Some Inr x Let_def
            intro!: exI [of _ "parameters_at t + from_secs 5"] exI [of _ "logged w"]\<close>)
    qed
  qed
qed

lemma parameter_step_ok:
  assumes "worker_ok lax w" and "turn_ok lax t" and "parameter_step pf t w = Inr w'"
  shows "worker_ok lax w'"
  using assms(1)
proof (cases rule: parameter_step_cases [where pf = pf and t = t])
  case (saving p r g)
  have d: "caches_ok lax w (fold act (before_parameters t) (store w))"
    using assms by (intro turn_acts(4)) (simp_all add: worker_ok_def)
  from assms(3) [unfolded saving(4)] obtain i d' where run: "persist (parameters_env t) r (previous_parameters w) (parameter_extension w)
      (fold act (before_parameters t) (store w)) = Inr (i, d')" and w': "w' = g (i, d')" by auto
  from saving(5) [of i d'] persist_caches [OF d run] show ?thesis
    by (auto simp: w' worker_ok_def caches_ok_def)
qed (use assms in \<open>auto simp: worker_ok_def caches_ok_def\<close>)

lemma parameter_step_crash:
  assumes "worker_ok lax w" and "parameter_step pf t w = Inl s"
  shows "sql_crash t s"
  using assms(1)
proof (cases rule: parameter_step_cases [where pf = pf and t = t])
  case (saving p r g)
  from assms(2) [unfolded saving(4)] obtain f d where
    "transaction (parameters_env t) (persist (parameters_env t) r (previous_parameters w) (parameter_extension w)
      (fold act (before_parameters t) (store w))) = Inl f" and s: "s = Crash f d" by auto
  from persist_raised [OF this(1) saving(2)] show ?thesis unfolding s by (auto intro: sql_crash_raised)
qed (use assms in auto)

lemma start_no_panic: "\<not> panics (start ros now nodes)"
  by (auto simp: start_def panics_and_then start_peer_def Let_def intro!: traverse_panics split: prod.splits if_splits)

lemma start_step_cases:
  obtains (idle) q where "start_step t s w = Inr (w\<lparr>parameter_poll := q\<rparr>)" "q = parameter_poll w \<or> (\<exists>p. q = Some p \<and> poll_ok p)"
    | (saving) x where "start_step t s w =
        map_res (\<lambda>(i, d'). w\<lparr>store := d', parameter_extension := i, next_parameters := failed_at t + from_secs 5\<rparr>)
          (crash_in (fold act (before_failure t) (store w)) (transaction (failure_env t)
            (persist (failure_env t) (Inl x) (previous_parameters w) (parameter_extension w) (fold act (before_failure t) (store w)))))"
proof (cases "parameter_poll w = None \<and> next_parameters w \<le> start_checked_at t")
  case True
  show thesis
  proof (cases "start (ros_peers t) (started_at t) (snapshot_nodes s)")
    case (Inl f)
    then obtain x where f: "f = Err x"
      using start_no_panic [of "ros_peers t" "started_at t" "snapshot_nodes s"] by (cases f) (auto simp: panics_def)
    show thesis by (rule saving [of x]) (simp only: start_step_def True Inl f Let_def if_True simp_thms sum.case fault.case)
  next
    case (Inr q)
    show thesis by (rule idle [of "Some q"]) (use True start_ok [OF Inr] in \<open>simp_all add: start_step_def Inr\<close>)
  qed
next
  case False
  then show thesis by (intro idle [of "parameter_poll w"]) (auto simp: start_step_def)
qed

text \<open>Starting a poll, while the worker has not yet noted the snapshot \<open>p\<close> of the extension \<open>e\<close>.\<close>

lemma start_step_ok:
  assumes "worker_ok lax (w\<lparr>previous := p, extension_oid := e\<rparr>)" and "turn_ok lax t" and "start_step t s w = Inr w'"
  shows "worker_ok lax (w'\<lparr>previous := p, extension_oid := e\<rparr>) \<and>
    empty_since w' = empty_since w \<and> saw_graph w' = saw_graph w \<and> seen w' = seen w"
proof (cases rule: start_step_cases [of t s w])
  case (idle q)
  with assms show ?thesis by (auto simp: worker_ok_def caches_ok_def)
next
  case (saving x)
  let ?w = "w\<lparr>previous := p, extension_oid := e\<rparr>"
  have d: "caches_ok lax ?w (fold act (before_failure t) (store w))"
    using assms(1,2) by (intro turn_acts(6)) (simp_all add: worker_ok_def)
  from assms(3) [unfolded saving] obtain i d' where run: "persist (failure_env t) (Inl x) (previous_parameters ?w) (parameter_extension ?w)
      (fold act (before_failure t) (store w)) = Inr (i, d')"
    and w': "w' = w\<lparr>store := d', parameter_extension := i, next_parameters := failed_at t + from_secs 5\<rparr>" by auto
  from persist_caches [OF d run] assms(1) show ?thesis by (simp add: w' worker_ok_def caches_ok_def)
qed

lemma start_step_crash: "start_step t s w = Inl x \<Longrightarrow> sql_crash t x"
  by (cases rule: start_step_cases [of t s w]) (auto dest!: persist_raised intro: sql_crash_raised)

lemma forget_fields [simp]:
  "store (forget w) = store w" "previous (forget w) = None" "previous_parameters (forget w) = None"
  "parameter_poll (forget w) = None" "empty_since (forget w) = None" "seen (forget w) = seen w @ [Absent]"
  "saw_graph (forget w) = saw_graph w"
  by (simp_all add: forget_def Let_def log_event_def)

lemma note_emptiness_fields [simp]:
  "store (note_emptiness t x w) = store w" "previous_parameters (note_emptiness t x w) = previous_parameters w"
  "previous (note_emptiness t x w) = previous w"
  "parameter_extension (note_emptiness t x w) = parameter_extension w"
  "parameter_poll (note_emptiness t x w) = parameter_poll w"
  by (simp_all add: note_emptiness_def split: sum.split)

text \<open>What a reading of the graph does, with its snapshot or error and the observation it makes.\<close>

definition observed :: "turn \<Rightarrow> error + snapshot \<Rightarrow> database \<Rightarrow> observation" where
  "observed t snap d =
     (if extension d = None then Absent
      else case snap of Inl _ \<Rightarrow> Unread
        | Inr s \<Rightarrow> if is_empty_graph s then Empty (emptied_at t) else Peers)"

definition read_by :: "platform \<Rightarrow> turn \<Rightarrow> error + snapshot" where
  "read_by pf t = read_graph (my_name pf) (my_namespace pf) (node_names t) (topic_list t)"

definition blind :: "duration option \<Rightarrow> turn \<Rightarrow> worker \<Rightarrow> session_outcome option" where
  "blind reinit_after t w =
     (case (empty_since w, reinit_after) of
        (Some since, Some threshold) \<Rightarrow> if threshold \<le> elapsed_at t - since then Some (Reinitialize (saw_graph w)) else None
      | _ \<Rightarrow> None)"

text \<open>The history agrees with what the code keeps of it.\<close>

definition ends_empty :: "observation list \<Rightarrow> bool" where
  "ends_empty xs \<longleftrightarrow> (case rev xs of Empty x # _ \<Rightarrow> True | _ \<Rightarrow> False)"

definition empty_from :: "instant \<Rightarrow> observation list \<Rightarrow> bool" where
  "empty_from since obs \<longleftrightarrow> (\<exists>xs rest. obs = xs @ map Empty (since # rest) \<and> \<not> ends_empty xs)"

definition history_ok :: "worker \<Rightarrow> bool" where
  "history_ok w \<longleftrightarrow> (\<forall>since. empty_since w = Some since \<longleftrightarrow> empty_from since (seen w)) \<and>
     (saw_graph w \<longleftrightarrow> Peers \<in> set (seen w))"

lemma ends_empty_snoc [simp]: "ends_empty (xs @ [x]) \<longleftrightarrow> (\<exists>a. x = Empty a)" "\<not> ends_empty []"
  by (cases x) (simp_all add: ends_empty_def)

lemma empty_from_other: "\<forall>a. x \<noteq> Empty a \<Longrightarrow> \<not> empty_from since (xs @ [x])"
proof
  assume x: "\<forall>a. x \<noteq> Empty a" and "empty_from since (xs @ [x])"
  then obtain ys rest where "xs @ [x] = ys @ map Empty (since # rest)" by (auto simp: empty_from_def)
  then have "last (xs @ [x]) = last (map Empty (since # rest))" by (metis last_appendR list.distinct(1) list.map_disc_iff)
  with x show False by (simp add: last_map split: if_splits)
qed

lemma empty_from_empty:
  "empty_from since (xs @ [Empty a]) \<longleftrightarrow> empty_from since xs \<or> \<not> ends_empty xs \<and> since = a"
proof
  assume "empty_from since (xs @ [Empty a])"
  then obtain ys rest where e: "xs @ [Empty a] = ys @ map Empty (since # rest)" "\<not> ends_empty ys"
    by (auto simp: empty_from_def)
  show "empty_from since xs \<or> \<not> ends_empty xs \<and> since = a"
  proof (cases rest rule: rev_cases)
    case Nil
    with e show ?thesis by simp
  next
    case (snoc rest' b)
    with e have "xs = ys @ map Empty (since # rest')" by simp
    with e(2) show ?thesis unfolding empty_from_def by blast
  qed
next
  assume "empty_from since xs \<or> \<not> ends_empty xs \<and> since = a"
  then show "empty_from since (xs @ [Empty a])"
  proof
    assume "empty_from since xs"
    then obtain ys rest where "xs = ys @ map Empty (since # rest)" "\<not> ends_empty ys" by (auto simp: empty_from_def)
    then have "xs @ [Empty a] = ys @ map Empty (since # rest @ [a])" "\<not> ends_empty ys" by simp_all
    then show ?thesis unfolding empty_from_def by blast
  next
    assume "\<not> ends_empty xs \<and> since = a"
    then show ?thesis unfolding empty_from_def by (intro exI [of _ xs] exI [of _ "[]"]) simp
  qed
qed

lemma ends_empty_iff: "ends_empty xs \<longleftrightarrow> (\<exists>since. empty_from since xs)"
proof (induction xs rule: rev_induct)
  case (snoc x xs)
  then show ?case by (cases x) (auto simp: empty_from_empty empty_from_other)
qed (auto simp: empty_from_def)

lemma history_snoc:
  assumes "history_ok w" and "seen w' = seen w @ [x]"
    and "empty_since w' = (case x of Empty a \<Rightarrow> if empty_since w = None then Some a else empty_since w | _ \<Rightarrow> None)"
    and "saw_graph w' = (saw_graph w \<or> x = Peers)"
  shows "history_ok w'"
proof -
  have e: "empty_from since (seen w) \<longleftrightarrow> empty_since w = Some since" for since
    using assms(1) by (simp add: history_ok_def)
  have "ends_empty (seen w) \<longleftrightarrow> empty_since w \<noteq> None" by (auto simp: ends_empty_iff e)
  then have "empty_since w' = Some since \<longleftrightarrow> empty_from since (seen w @ [x])" for since
    using assms(3) by (cases x) (auto simp: empty_from_empty empty_from_other e)
  moreover have "saw_graph w' \<longleftrightarrow> Peers \<in> set (seen w @ [x])"
    using assms(1,4) by (auto simp: history_ok_def)
  ultimately show ?thesis by (simp add: history_ok_def assms(2))
qed

definition noted_error :: "platform \<Rightarrow> turn \<Rightarrow> worker \<Rightarrow> worker" where
  "noted_error pf t w = (if read_error (read_by pf t) \<noteq> last_error w
     then log_event (case read_error (read_by pf t) of Some m \<Rightarrow> DiscoveryFailed m | None \<Rightarrow> DiscoveryRecovered) w else w)"

definition finished :: "platform \<Rightarrow> turn \<Rightarrow> oid option \<Rightarrow> worker \<Rightarrow> worker" where
  "finished pf t i w = w\<lparr>extension_oid := i, last_error := read_error (read_by pf t)\<rparr>"

text \<open>A reading of the graph, when its transaction fails and after it has committed.\<close>

lemma graph_step_fails:
  "sql_error (graph_env t) = Some e \<Longrightarrow>
    graph_step pf reinit_after t w = Inl (Crash (Panic e) (fold act (before_graph t) (store w)))"
  by (simp add: graph_step_def Let_def transaction_def crash_in_def)

lemma graph_step_eq:
  assumes "sql_error (graph_env t) = None"
    and "persist_snapshot (graph_env t) (described (read_by pf t)) (previous w) (extension_oid w)
      (fold act (before_graph t) (store w)) = (i, d)"
  shows "graph_step pf reinit_after t w =
      map_res (\<lambda>w3. (blind reinit_after t (finished pf t i w3), finished pf t i w3))
        (if i \<noteq> None
         then map_res (\<lambda>w. w\<lparr>waiting_logged := False\<rparr>)
           (case read_by pf t of Inl _ \<Rightarrow> Inr (note_emptiness t (read_by pf t) ((noted_error pf t w)\<lparr>store := d\<rparr>))
            | Inr s \<Rightarrow> map_res (\<lambda>w. w\<lparr>previous := Some s\<rparr>)
                (start_step t s (note_emptiness t (read_by pf t) ((noted_error pf t w)\<lparr>store := d\<rparr>))))
         else Inr (forget ((noted_error pf t w)\<lparr>store := d\<rparr>)))"
proof -
  have r: "and_then r (\<lambda>w3. Inr (g w3)) = map_res g r" for r :: "stop + worker" and g :: "worker \<Rightarrow> session_outcome option \<times> worker"
    by (cases r) simp_all
  have b: "(case empty_since x of None \<Rightarrow> (None, x) | Some since \<Rightarrow> (case reinit_after of None \<Rightarrow> (None, x)
      | Some threshold \<Rightarrow> (if threshold \<le> elapsed_at t - since then Some (Reinitialize (saw_graph x)) else None, x))) =
      (blind reinit_after t x, x)" for x
    by (simp add: blind_def split: option.split)
  have "persist_snapshot (graph_env t) (described (read_by pf t)) (previous (noted_error pf t w))
      (extension_oid (noted_error pf t w)) (fold act (before_graph t) (store (noted_error pf t w))) = (i, d)"
    using assms(2) by (simp add: noted_error_def)
  then show ?thesis
    unfolding graph_step_def Let_def read_by_def [symmetric] noted_error_def [symmetric] finished_def
      transaction_commits [OF assms(1)] crash_in_def
    by (simp only: prod.case sum.case and_then.simps b r)
qed

text \<open>One reading of the graph: it keeps the invariant and remembers what it read.\<close>

lemma graph_step_ok:
  assumes "worker_ok lax w" and "turn_ok lax t" and "history_ok w" and "graph_step pf reinit_after t w = Inr (q, w')"
  shows "q = blind reinit_after t w' \<and> worker_ok lax w' \<and> history_ok w' \<and>
    seen w' = seen w @ [observed t (read_by pf t) (fold act (before_graph t) (store w))] \<and>
    (\<forall>s. read_by pf t = Inr s \<longrightarrow> extension (store w') \<noteq> None \<longrightarrow> previous w' = Some s)"
proof -
  let ?snap = "read_by pf t" and ?d = "fold act (before_graph t) (store w)"
  have commits: "sql_error (graph_env t) = None"
    using assms(4) graph_step_fails [of t _ pf reinit_after w] by (cases "sql_error (graph_env t)") auto
  define w1 where "w1 = noted_error pf t w"
  have w1: "worker_ok lax w1" "store w1 = store w" "previous w1 = previous w" "extension_oid w1 = extension_oid w"
    "history_ok w1" "seen w1 = seen w" "parameter_poll w1 = parameter_poll w"
    using assms(1,3) by (simp_all add: w1_def noted_error_def history_ok_def)
  have caches: "caches_ok lax w1 ?d" using assms(2) w1(1,2) by (metis turn_acts(5) worker_ok_def)
  obtain i d where run: "persist_snapshot (graph_env t) (described ?snap) (previous w1) (extension_oid w1) ?d = (i, d)"
    by (rule prod.exhaust)
  then have run': "Inr (persist_snapshot (graph_env t) (described ?snap) (previous w1) (extension_oid w1) ?d) = Inr (i, d)"
    by simp
  note ext = graph_store.persist_extension [OF run']
  define p where "p = (case described ?snap of Inl e \<Rightarrow> previous w1 | Inr s \<Rightarrow> Some s)"
  have tracks: "graph_store.tracks lax p i d"
    unfolding p_def by (rule graph_store.tracks_persist [OF _ run']) (use caches in \<open>simp add: caches_ok_def\<close>)
  have params: "parameter_store.tracks lax (previous_parameters w1) (parameter_extension w1) d"
    using caches persist_snapshot_keeps_parameters [OF run]
    by (simp add: caches_ok_def parameter_store.tracks_cong [of d ?d])
  note step = assms(4) [unfolded graph_step_eq [OF commits run [unfolded w1(3,4)]], folded w1_def]
  show ?thesis
  proof (cases i)
    case None
    with step have w': "w' = finished pf t i (forget (w1\<lparr>store := d\<rparr>))" and q: "q = blind reinit_after t w'" by auto
    have "extension d = None" "extension ?d = None" using ext None by simp_all
    then have "worker_ok lax w'"
      by (simp add: w' finished_def worker_ok_def caches_ok_def graph_store.tracks_forgotten parameter_store.tracks_forgotten)
    moreover have obs: "observed t ?snap ?d = Absent" using \<open>extension ?d = None\<close> by (simp add: observed_def)
    moreover have "history_ok w'"
      by (rule history_snoc [OF w1(5), where x = Absent]) (simp_all add: w' finished_def)
    ultimately show ?thesis using \<open>extension d = None\<close> None q by (simp add: w' finished_def w1(6))
  next
    case (Some j)
    define w2 where "w2 = note_emptiness t ?snap (w1\<lparr>store := d\<rparr>)"
    have installed: "extension ?d \<noteq> None" using ext Some by (cases "extension ?d") simp_all
    have w2: "worker_ok lax (w2\<lparr>previous := p, extension_oid := i\<rparr>)"
      using tracks params w1(1) by (simp add: w2_def worker_ok_def caches_ok_def)
    have seen2: "seen w2 = seen w @ [observed t ?snap ?d]"
      using installed by (simp add: w2_def note_emptiness_def observed_def w1(6) split: sum.split)
    have "history_ok w2"
      by (rule history_snoc [OF w1(5), where x = "observed t ?snap ?d"])
        (use installed in \<open>auto simp: w2_def note_emptiness_def observed_def split: sum.split\<close>)
    show ?thesis
    proof (cases ?snap)
      case (Inl e)
      with step Some have w': "w' = finished pf t i (w2\<lparr>waiting_logged := False\<rparr>)" and q: "q = blind reinit_after t w'"
        by (auto simp: w2_def)
      have "p = previous w2" using Inl by (simp add: p_def w2_def described_def)
      then have "worker_ok lax w'" using w2 by (simp add: w' finished_def worker_ok_def caches_ok_def)
      moreover have "history_ok w'" using \<open>history_ok w2\<close> by (simp add: w' finished_def history_ok_def)
      ultimately show ?thesis using Inl seen2 q by (simp add: w' finished_def)
    next
      case (Inr s)
      with step Some obtain w3 where w3: "start_step t s w2 = Inr w3"
        and w': "w' = finished pf t i (w3\<lparr>previous := Some s, waiting_logged := False\<rparr>)" and q: "q = blind reinit_after t w'"
        by (auto simp: w2_def)
      have p: "p = Some s" using Inr by (simp add: p_def described_def)
      note ok = start_step_ok [OF w2 assms(2) w3]
      then have "worker_ok lax w'" using p by (simp add: w' finished_def worker_ok_def caches_ok_def)
      moreover have "history_ok w'" using \<open>history_ok w2\<close> ok by (simp add: w' finished_def history_ok_def)
      ultimately show ?thesis using Inr seen2 ok q by (simp add: w' finished_def)
    qed
  qed
qed

lemma graph_step_crash:
  assumes "graph_step pf reinit_after t w = Inl x"
  shows "sql_crash t x"
proof (cases "sql_error (graph_env t)")
  case None
  obtain i d where run: "persist_snapshot (graph_env t) (described (read_by pf t)) (previous w) (extension_oid w)
      (fold act (before_graph t) (store w)) = (i, d)" by (rule prod.exhaust)
  from assms show ?thesis unfolding graph_step_eq [OF None run]
    by (auto split: if_splits sum.splits dest: start_step_crash)
next
  case (Some e)
  then have "raised (graph_env t) (Panic e)" by (simp add: raised_def)
  with assms graph_step_fails [OF Some, of pf reinit_after w] show ?thesis by (auto intro: sql_crash_raised)
qed

lemma parameter_step_saves:
  assumes "parameter_step pf t w = Inr w'"
  shows "store w' = store w \<or> (\<exists>r i. persist (parameters_env t) r (previous_parameters w) (parameter_extension w)
    (fold act (before_parameters t) (store w)) = Inr (i, store w'))"
proof (cases "parameter_poll w")
  case (Some p)
  show ?thesis
  proof (cases "tick (numbers pf) (tick_sees t) p")
    case (Inl f)
    with Some assms show ?thesis
      by (cases f) (fastforce simp: parameter_step_def Let_def log_event_def)+
  next
    case (Inr x)
    obtain r p' where "x = (r, p')" by (cases x)
    with Inr Some assms show ?thesis
      by (cases r) (fastforce simp: parameter_step_def Let_def)+
  qed
qed (use assms in \<open>simp add: parameter_step_def\<close>)

lemma graph_step_commits: "graph_step pf reinit_after t w = Inr x \<Longrightarrow> sql_error (graph_env t) = None"
  using graph_step_fails [of t _ pf reinit_after w] by (cases "sql_error (graph_env t)") auto

section \<open>Turns\<close>

text \<open>The steps before the reading of the graph keep its local state.\<close>

definition same_watch :: "worker \<Rightarrow> worker \<Rightarrow> bool" where
  "same_watch w w' \<longleftrightarrow> empty_since w' = empty_since w \<and> saw_graph w' = saw_graph w \<and> seen w' = seen w \<and>
     startup w' = startup w \<and> dirty w' = dirty w \<and> previous w' = previous w \<and> extension_oid w' = extension_oid w"

lemma same_watch_trans: "same_watch w w1 \<Longrightarrow> same_watch w1 w2 \<Longrightarrow> same_watch w w2"
  by (simp add: same_watch_def)

lemma flush_step_watch: "flush_step pf t w = Inr w' \<Longrightarrow> same_watch w w'"
  by (auto simp: flush_step_def same_watch_def Let_def split: if_splits)

lemma reconcile_step_watch: "reconcile_step pf t w = Inr w' \<Longrightarrow> same_watch w w'"
  by (auto simp: reconcile_step_def same_watch_def split: if_splits sum.splits)

lemma parameter_step_watch: "parameter_step pf t w = Inr w' \<Longrightarrow> same_watch w w'"
  by (auto simp: parameter_step_def same_watch_def log_event_def Let_def split: option.splits sum.splits fault.splits prod.splits)

lemma spin_step_fields [simp]:
  "empty_since (spin_step pf t w) = empty_since w" "saw_graph (spin_step pf t w) = saw_graph w"
  "seen (spin_step pf t w) = seen w" "startup (spin_step pf t w) = startup w" "previous (spin_step pf t w) = previous w"
  "extension_oid (spin_step pf t w) = extension_oid w" "store (spin_step pf t w) = store w"
  "dirty (spin_step pf t w) = (dirty w \<or> graph_changed t)"
  by (simp_all add: spin_step_def)

text \<open>Whether a turn reads the graph.\<close>

definition reads_graph :: "turn \<Rightarrow> worker \<Rightarrow> bool" where
  "reads_graph t w \<longleftrightarrow> startup w \<le> checked_at t \<and> (dirty w \<or> graph_changed t)"

lemma before_check_steps:
  assumes "before_check pf t w = Inr w'"
  obtains w1 w2 where "flush_step pf t (spin_step pf t w) = Inr w1" "reconcile_step pf t w1 = Inr w2"
    "parameter_step pf t w2 = Inr w'"
  using assms by (auto simp: before_check_def)

lemma before_check_watch:
  assumes "before_check pf t w = Inr w'"
  shows "empty_since w' = empty_since w \<and> saw_graph w' = saw_graph w \<and> seen w' = seen w \<and> startup w' = startup w \<and>
    dirty w' = (dirty w \<or> graph_changed t) \<and> previous w' = previous w \<and> extension_oid w' = extension_oid w"
proof -
  have "same_watch (spin_step pf t w) w'"
    using assms by (rule before_check_steps)
      (intro same_watch_trans [OF same_watch_trans [OF flush_step_watch reconcile_step_watch] parameter_step_watch])
  then show ?thesis by (simp add: same_watch_def)
qed

lemma before_check_ok:
  assumes "worker_ok lax w" and "turn_ok lax t" and "history_ok w" and "before_check pf t w = Inr w'"
  shows "worker_ok lax w' \<and> history_ok w'"
proof -
  from assms(4) obtain w1 w2 where steps: "flush_step pf t (spin_step pf t w) = Inr w1" "reconcile_step pf t w1 = Inr w2"
    "parameter_step pf t w2 = Inr w'" by (rule before_check_steps)
  note ok = flush_step_ok [OF spin_step_ok [OF assms(1)] assms(2) steps(1)]
  have "worker_ok lax w'"
    by (rule parameter_step_ok [OF reconcile_step_ok [OF ok assms(2) steps(2)] assms(2) steps(3)])
  with before_check_watch [OF assms(4)] assms(3) show ?thesis by (auto simp: history_ok_def)
qed

lemma before_check_crash:
  assumes "worker_ok lax w" and "turn_ok lax t" and "before_check pf t w = Inl s"
  shows "sql_crash t s"
proof -
  have "sql_crash t s" if "parameter_step pf t w2 = Inl s" "reconcile_step pf t w1 = Inr w2"
    "flush_step pf t (spin_step pf t w) = Inr w1" for w1 w2
    using parameter_step_crash [OF _ that(1)] reconcile_step_ok [OF _ assms(2) that(2)] flush_step_ok [OF _ assms(2) that(3)]
      spin_step_ok [OF assms(1)] by blast
  with assms(3) show ?thesis
    by (auto simp: before_check_def and_then_Inl_iff dest: flush_step_crash reconcile_step_crash)
qed

lemma turn_step_cases:
  assumes "turn_step pf reinit_after t w = Inr (q, w')"
  obtains (idle) "before_check pf t w = Inr w'" "\<not> reads_graph t w" "q = None"
    | (reading) w1 where "before_check pf t w = Inr w1" "reads_graph t w"
        "graph_step pf reinit_after t (w1\<lparr>dirty := False\<rparr>) = Inr (q, w')"
proof -
  from assms obtain w1 where w1: "before_check pf t w = Inr w1" "check_step pf reinit_after t w1 = Inr (q, w')"
    by (auto simp: turn_step_def split: sum.splits)
  from before_check_watch [OF w1(1)] w1 that show thesis
    by (cases "reads_graph t w") (auto simp: check_step_def reads_graph_def split: if_splits)
qed

lemma turn_step_crash:
  assumes "worker_ok lax w" and "turn_ok lax t" and "turn_step pf reinit_after t w = Inl s"
  shows "(\<exists>e. spin_result t (spin_time t w) = Inl e \<and> s = ObserverError e (store w)) \<or> sql_crash t s"
proof (cases "spin_result t (spin_time t w)")
  case (Inr u)
  with assms(3) show ?thesis using before_check_crash [OF assms(1,2)]
    by (auto simp: turn_step_def and_then_Inl_iff check_step_def split: if_splits dest: graph_step_crash)
qed (use assms(3) in \<open>auto simp: turn_step_def\<close>)

lemma turn_cases:
  assumes "worker_ok lax w" and "turn_ok lax t" and "history_ok w"
    and "turn_step pf reinit_after t w = Inr (q, w')"
  obtains (idle) "q = None" "\<not> reads_graph t w" "worker_ok lax w'" "history_ok w'" "seen w' = seen w"
    | (reading) w1 where "q = blind reinit_after t w'" "reads_graph t w"
        "worker_ok lax w'" "history_ok w'" "before_check pf t w = Inr w1"
        "seen w' = seen w @ [observed t (read_by pf t) (fold act (before_graph t) (store w1))]"
        "\<forall>s. read_by pf t = Inr s \<longrightarrow> extension (store w') \<noteq> None \<longrightarrow> previous w' = Some s"
  using assms(4)
proof (cases rule: turn_step_cases)
  case i: idle
  from before_check_ok [OF assms(1-3) i(1)] before_check_watch [OF i(1)] i(2,3) show thesis by (intro idle) simp_all
next
  case (reading w1)
  note ok = before_check_ok [OF assms(1-3) reading(1)]
  have "worker_ok lax (w1\<lparr>dirty := False\<rparr>)" "history_ok (w1\<lparr>dirty := False\<rparr>)"
    using ok by (simp_all add: worker_ok_def caches_ok_def history_ok_def)
  from graph_step_ok [OF this(1) assms(2) this(2) reading(3)] before_check_watch [OF reading(1)] reading(1,2)
  show thesis by (intro that(2) [of w1]) simp_all
qed

lemma turn_step_ok:
  assumes "worker_ok lax w" and "turn_ok lax t" and "history_ok w" and "turn_step pf reinit_after t w = Inr (q, w')"
  shows "worker_ok lax w' \<and> history_ok w'"
  using assms by (cases rule: turn_cases) auto

section \<open>Runs\<close>

text \<open>
  An invariant of the turns is one of every run, and a crash of a run is the crash of a turn that the
  invariant holds before.
\<close>

lemma session_turns_invariant:
  assumes "P w" and "\<And>t w q w'. t \<in> set ts \<Longrightarrow> P w \<Longrightarrow> turn_step pf reinit_after t w = Inr (q, w') \<Longrightarrow> P w'"
  shows "case session_turns pf reinit_after ts w of
      Inr (q, w') \<Rightarrow> P w'
    | Inl s \<Rightarrow> \<exists>t \<in> set ts. \<exists>w. P w \<and> turn_step pf reinit_after t w = Inl s"
  using assms
proof (induction ts arbitrary: w)
  case (Cons t ts)
  show ?case
  proof (cases "turn_step pf reinit_after t w")
    case (Inl s)
    with Cons.prems(1) show ?thesis by auto
  next
    case (Inr x)
    obtain q w1 where x: "x = (q, w1)" by (cases x)
    have w1: "P w1" using Cons.prems(2) [OF _ Cons.prems(1) Inr [unfolded x]] by simp
    show ?thesis
    proof (cases q)
      case None
      have "case session_turns pf reinit_after ts w1 of Inr (q, w') \<Rightarrow> P w'
        | Inl s \<Rightarrow> \<exists>t \<in> set ts. \<exists>w. P w \<and> turn_step pf reinit_after t w = Inl s"
        by (rule Cons.IH [OF w1]) (use Cons.prems(2) in auto)
      with Inr x None Cons.prems(1) show ?thesis by (auto split: sum.splits)
    next
      case (Some y)
      with Inr x w1 Cons.prems(1) show ?thesis by simp
    qed
  qed
qed simp

locale worker_invariant =
  fixes P :: "worker \<Rightarrow> bool" and ok :: "turn \<Rightarrow> bool" and pf :: platform
  assumes turn: "P w \<Longrightarrow> ok t \<Longrightarrow> turn_step pf reinit_after t w = Inr (q, w') \<Longrightarrow> P w'"
    and session: "P w \<Longrightarrow> P (begin_session p w)" and event: "P w \<Longrightarrow> P (log_event e w)"
begin

lemma session_keeps:
  assumes "P w" and "list_all ok (turns p)"
  shows "case run_session pf reinit_after p w of
      Inr (q, w') \<Rightarrow> P w'
    | Inl (ObserverError e d) \<Rightarrow> (\<exists>w. P w \<and> d = store w) \<or>
        (\<exists>t \<in> set (turns p). \<exists>w. P w \<and> turn_step pf reinit_after t w = Inl (ObserverError e d))
    | Inl (Crash f d) \<Rightarrow> \<exists>t \<in> set (turns p). \<exists>w. P w \<and> turn_step pf reinit_after t w = Inl (Crash f d)"
proof -
  have "case session_turns pf reinit_after (turns p) (announce p (begin_session p w)) of
      Inr (q, w') \<Rightarrow> P w' | Inl s \<Rightarrow> \<exists>t \<in> set (turns p). \<exists>w. P w \<and> turn_step pf reinit_after t w = Inl s"
    by (rule session_turns_invariant) (use assms turn session event in \<open>auto simp: list_all_iff announce_def Let_def\<close>)
  then show ?thesis using assms(1) by (auto simp: run_session_def split: sum.splits stop.splits)
qed

lemma run_keeps:
  assumes "P w" and "list_all (\<lambda>p. list_all ok (turns p)) ps" and "run_observer pf ps reinit_after w = Inr (b, w')"
  shows "P w'"
  using assms
proof (induction ps arbitrary: w reinit_after)
  case (Cons p ps)
  then have "list_all ok (turns p)" by simp
  note ok = session_keeps [OF Cons.prems(1) this, of reinit_after]
  from Cons.prems(3) obtain o' w1 where s: "run_session pf reinit_after p w = Inr (o', w1)"
    by (auto split: sum.splits)
  with ok have w1: "P w1" by simp
  show ?case
  proof (cases "\<exists>saw. o' = Some (Reinitialize saw)")
    case False
    with Cons.prems(3) s w1 show ?thesis by (auto split: option.splits session_outcome.splits)
  next
    case True
    then obtain saw where o': "o' = Some (Reinitialize saw)" by blast
    with Cons.prems(3) s obtain r where
      run: "run_observer pf ps r (log_event (ContextRebuilding (as_secs reinit_after) (as_secs r)) w1) = Inr (b, w')"
      by (auto split: sum.splits)
    from Cons.IH [OF event [OF w1] _ run] Cons.prems(2) show ?thesis by simp
  qed
qed simp

lemma run_crashes:
  assumes "P w" and "list_all (\<lambda>p. list_all ok (turns p)) ps" and "list_all (\<lambda>p. settings_in_range (config_after p)) ps"
    and "\<And>r. reinit_after = Some r \<Longrightarrow> r \<le> REINIT_CEILING" and "run_observer pf ps reinit_after w = Inl (Crash f d)"
  shows "\<exists>p \<in> set ps. \<exists>t \<in> set (turns p). \<exists>w r. P w \<and> turn_step pf r t w = Inl (Crash f d)"
  using assms
proof (induction ps arbitrary: w reinit_after)
  case (Cons p ps)
  then have "list_all ok (turns p)" by simp
  note ok = session_keeps [OF Cons.prems(1) this, of reinit_after]
  show ?case
  proof (cases "run_session pf reinit_after p w")
    case (Inl s)
    with ok Cons.prems(5) show ?thesis by auto
  next
    case (Inr x)
    obtain o' w1 where x: "x = (o', w1)" by (cases x)
    with ok Inr have w1: "P w1" by simp
    show ?thesis
    proof (cases "\<exists>saw. o' = Some (Reinitialize saw)")
      case False
      with Inr x Cons.prems(5) show ?thesis by (auto split: option.splits session_outcome.splits)
    next
      case True
      then obtain saw where o': "o' = Some (Reinitialize saw)" by blast
      from next_reinit_after_bounded [of "config_after p" reinit_after saw] Cons.prems(3,4) obtain r where
        r: "next_reinit_after (config_after p) reinit_after saw = Inr r" "\<forall>d. r = Some d \<longrightarrow> d \<le> REINIT_CEILING"
        by auto
      with Inr x o' Cons.prems(5) have
        "run_observer pf ps r (log_event (ContextRebuilding (as_secs reinit_after) (as_secs r)) w1) = Inl (Crash f d)" by simp
      from Cons.IH [OF event [OF w1] _ _ _ this] Cons.prems(2,3) r(2) show ?thesis by auto
    qed
  qed
qed simp

text \<open>A run that stops leaves the database as a turn left it, or as one of its turns did that stopped.\<close>

lemma run_ends:
  assumes "P w" and "list_all (\<lambda>p. list_all ok (turns p)) ps" and "run_observer pf ps reinit_after w = Inl s"
  shows "(\<exists>w. P w \<and> left_behind s = store w) \<or>
    (\<exists>p \<in> set ps. \<exists>t \<in> set (turns p). \<exists>w r. P w \<and> turn_step pf r t w = Inl s)"
  using assms
proof (induction ps arbitrary: w reinit_after)
  case (Cons p ps)
  then have "list_all ok (turns p)" by simp
  note ok = session_keeps [OF Cons.prems(1) this, of reinit_after]
  show ?case
  proof (cases "run_session pf reinit_after p w")
    case (Inl x)
    with ok Cons.prems(3) show ?thesis by (cases x) auto
  next
    case session: (Inr x)
    obtain o' w1 where x: "x = (o', w1)" by (cases x)
    with ok session have w1: "P w1" by simp
    from Cons.prems(3) session x obtain saw where o': "o' = Some (Reinitialize saw)"
      by (auto split: option.splits session_outcome.splits)
    show ?thesis
    proof (cases "next_reinit_after (config_after p) reinit_after saw")
      case (Inl f)
      with Cons.prems(3) session x o' w1 show ?thesis by auto
    next
      case (Inr r)
      with Cons.prems(3) session x o' have
        "run_observer pf ps r (log_event (ContextRebuilding (as_secs reinit_after) (as_secs r)) w1) = Inl s" by simp
      from Cons.IH [OF event [OF w1] _ this] Cons.prems(2) show ?thesis by auto
    qed
  qed
qed simp

end

lemma begin_session_ok: "worker_ok lax w \<Longrightarrow> worker_ok lax (begin_session q w) \<and> history_ok (begin_session q w)"
  by (simp add: begin_session_def Let_def worker_ok_def caches_ok_def history_ok_def empty_from_def)

lemma history_ok_log [simp]: "history_ok (log_event e w) = history_ok w"
  by (simp add: history_ok_def)

interpretation worker_runs: worker_invariant "\<lambda>w. worker_ok lax w \<and> history_ok w" "turn_ok lax" pf for lax pf
proof unfold_locales
  fix w t reinit_after q w'
  assume w: "worker_ok lax w \<and> history_ok w" and "turn_ok lax t" and "turn_step pf reinit_after t w = Inr (q, w')"
  then show "worker_ok lax w' \<and> history_ok w'" by (intro turn_step_ok [of lax w t pf reinit_after q]) simp_all
qed (use begin_session_ok [of lax] in simp_all)

definition turns_ok :: "bool \<Rightarrow> participant list \<Rightarrow> bool" where
  "turns_ok lax qs \<longleftrightarrow> list_all (\<lambda>q. list_all (turn_ok lax) (turns q)) qs"

lemma run_observer_ok:
  assumes "worker_ok lax w" and "history_ok w" and "turns_ok lax qs"
    and "run_observer pf qs reinit_after w = Inr (b, w')"
  shows "worker_ok lax w' \<and> history_ok w'"
  using worker_runs.run_keeps [of lax w qs pf reinit_after b w'] assms by (simp add: turns_ok_def)

lemma initial_worker_ok: "worker_ok lax (initial_worker d)" "history_ok (initial_worker d)"
  by (simp_all add: initial_worker_def worker_ok_def caches_ok_def graph_store.tracks_forgotten
      parameter_store.tracks_forgotten history_ok_def empty_from_def)

text \<open>
  C13. The worker panics only for the name of its database and for what PostgreSQL raises in one of its
  transactions: whatever ROS answers, whatever other sessions do to the extension and its tables between
  transactions, and however often the context is rebuilt, no lookup, conversion, primary key or duration
  makes it panic. An error of ROS is saved and reported. A bad name always makes it panic.
\<close>

theorem worker_panics_only_by_sql:
  assumes "settings_in_range s" and "list_all (\<lambda>q. settings_in_range (config_after q)) qs"
  shows "(fst (graph_worker_main pf qs s env env' d) = Inl f \<longrightarrow> worker_database s = Inl f \<or> raised env f \<or> raised env' f \<or>
      (\<exists>q \<in> set qs. \<exists>t \<in> set (turns q). \<exists>e \<in> set (envs t). raised e f)) \<and>
    (worker_database s = Inl f \<longrightarrow> graph_worker_main pf qs s env env' d = (Inl f, d))"
proof -
  have crash: "\<exists>q \<in> set qs. \<exists>t \<in> set (turns q). \<exists>e \<in> set (envs t). raised e f"
    if run: "run_observer pf qs (configured_reinit_after s) (initial_worker d) = Inl (Crash f d')" for d'
  proof -
    have "list_all (\<lambda>p. list_all (turn_ok True) (turns p)) qs" by (simp add: list_all_iff turn_ok_def)
    from worker_runs.run_crashes [OF _ this assms(2) configured_bounded [OF assms(1)] run] initial_worker_ok
    obtain q t w r where t: "q \<in> set qs" "t \<in> set (turns q)" and w: "worker_ok True w"
      and "turn_step pf r t w = Inl (Crash f d')" by blast
    with turn_step_crash [OF w _ this(4)] have "sql_crash t (Crash f d')" by (simp add: turn_ok_def)
    then show ?thesis using t by (auto simp: sql_crash_def list_ex_iff)
  qed
  have "fst (graph_worker_main pf qs s env env' d) = Inl f \<Longrightarrow> worker_database s \<noteq> Inl f \<Longrightarrow> \<not> raised env f \<Longrightarrow>
      \<not> raised env' f \<Longrightarrow> \<exists>d'. run_observer pf qs (configured_reinit_after s) (initial_worker d) = Inl (Crash f d')"
    by (auto simp: graph_worker_main_def raised_def transaction_def split: sum.splits stop.splits option.splits)
  with crash show ?thesis by (auto simp: graph_worker_main_def)
qed

text \<open>
  C3. The tables mirror ROS. After any history of the worker, a turn that reads the graph leaves the rows
  of \<open>ros2.nodes\<close> and \<open>ros2.topics\<close> equal to what it read, and at any time the rows of \<open>ros2.parameters\<close> are
  those of the last delivered poll, provided no other session has reinstalled the extension; after
  a reinstallation (\<open>lax\<close>) the tables can instead still be empty, and nothing else. The history starts
  from any database, so a worker that is restarted after a crash repairs what it finds.
\<close>

theorem tables_mirror_ros:
  assumes "run_observer pf qs reinit_after (initial_worker d) = Inr (stopped, w)" and "turns_ok lax qs"
    and "turn_ok lax t" and "turn_step pf reinit_after' t w = Inr (q, w')"
    and "extension (store w') \<noteq> None"
  shows "(\<forall>s. reads_graph t w \<longrightarrow> read_by pf t = Inr s \<longrightarrow>
      graph_rows (store w') = graph_image s \<or> lax \<and> graph_rows (store w') = []) \<and>
    (\<forall>s. previous_parameters w' = Some s \<longrightarrow>
      parameter_rows (store w') = parameter_image s \<or> lax \<and> parameter_rows (store w') = [])"
proof -
  from run_observer_ok [OF initial_worker_ok assms(2,1)] have w: "worker_ok lax w" "history_ok w" by simp_all
  obtain i schema where ext: "extension (store w') = Some (i, schema)" using assms(5) by auto
  have w': "worker_ok lax w'" using turn_step_ok [OF w(1) assms(3) w(2) assms(4)] by simp
  then have "previous w' = Some s \<Longrightarrow> graph_rows (store w') = graph_image s \<or> lax \<and> graph_rows (store w') = []" for s
    using ext by (auto simp: worker_ok_def caches_ok_def graph_store.tracks_def)
  moreover have "previous_parameters w' = Some s \<Longrightarrow>
      parameter_rows (store w') = parameter_image s \<or> lax \<and> parameter_rows (store w') = []" for s
    using w' ext by (auto simp: worker_ok_def caches_ok_def parameter_store.tracks_def)
  moreover have "previous w' = Some s" if "reads_graph t w" "read_by pf t = Inr s" for s
    using w(1) assms(3) w(2) assms(4) by (cases rule: turn_cases) (use assms(5) that in auto)
  ultimately show ?thesis by blast
qed

section \<open>Turns for the witnesses\<close>

definition sample_platform :: platform where
  "sample_platform = \<lparr>strings = sample_runtime, numbers = sample_serde, interval = sample_epoch,
     parse_json = (\<lambda>x. Inr (JString x)), my_name = ''w'', my_namespace = ''/''\<rparr>"

text \<open>A turn at a given instant that finds some nodes, before which other sessions act.\<close>

definition sample_turn :: "instant \<Rightarrow> error + node_info list \<Rightarrow> other list \<Rightarrow> turn" where
  "sample_turn now nodes others =
     \<lparr>latch = True, config = default_settings, ttl_config = default_settings, limit_config = (\<lambda>_. default_settings),
      poll_config = default_settings, spin_result = (\<lambda>_. Inr ()), deliveries = [], graph_changed = True,
      spun_at = 0, before_flush = [], flush_env = sample_env, flushed_at = 0, before_reconcile = [],
      within_reconcile = [], ros_node = sample_ros, read_failure = None, reconcile_env = sample_env,
      reconcile_write_env = sample_env,
      reconciled_at = 0, tick_sees = sample_tick 1, before_parameters = [], parameters_env = sample_env,
      parameters_at = now, checked_at = now, node_names = nodes, topic_list = Inr [], before_graph = others,
      graph_env = sample_env, emptied_at = now, start_checked_at = 0, ros_peers = sample_discovery,
      started_at = now, before_failure = [], failure_env = sample_env, failed_at = now, elapsed_at = now\<rparr>"

definition sample_nodes :: "error + node_info list" where
  "sample_nodes = Inr [\<lparr>info_name = ''n'', info_namespace = ''/''\<rparr>]"

definition sample_participant :: "turn list \<Rightarrow> participant" where
  "sample_participant ts = \<lparr>joined = (\<lambda>args. Inr ()), domain_id = 0,
     rmw_identifier = Some ''rmw_fastrtps_cpp'', config_before = default_settings, noded = Inr (), opened_at = 0, first_flush = 1, first_poll = 1,
     turns = ts, config_after = default_settings\<rparr>"

lemma announce_fields [simp]:
  "store (announce q w) = store w" "subs (announce q w) = subs w" "startup (announce q w) = startup w"
  "empty_since (announce q w) = empty_since w" "next_message_flush (announce q w) = next_message_flush w"
  "next_subscription_poll (announce q w) = next_subscription_poll w" "limits (announce q w) = limits w"
  by (simp_all add: announce_def Let_def log_event_def)

text \<open>What each of these sessions logs when it begins.\<close>

definition sample_log :: "event list" where
  "sample_log = [ContextReady 0 ''rmw_fastrtps_cpp'', PollerReady (subscription_poll_ms default_settings)
     (message_max_bytes default_settings) (subscription_ttl_seconds default_settings)]"

lemmas worker_defs = run_session_def begin_session_def announce_def rmw_implementation_def turn_step_def before_check_def
  crash_in_def transaction_def spin_time_def spin_step_def flush_step_def
  reconcile_step_def parameter_step_def check_step_def graph_step_def persist_snapshot_def read_graph_def
  note_emptiness_def is_empty_graph_def start_step_def forget_def read_error_def log_event_def described_def Let_def

lemmas sample_defs = sample_log_def sample_platform_def sample_turn_def sample_nodes_def sample_participant_def initial_worker_def
  create_extension_def no_extension_def sample_env_def from_secs_def upsert_status_def

definition sample_first :: worker where
  "sample_first = (initial_worker ((create_extension 1 ''ros2'')\<lparr>nodes_table := [(''n'', ''/'', 100)],
       worker_status := Some \<lparr>st_worker_pid = 1, st_last_checked = 100, st_last_refreshed = Some 100, st_last_error = None\<rparr>\<rparr>))
     \<lparr>previous := Some \<lparr>snapshot_nodes = [(''n'', ''/'')], snapshot_topics = []\<rparr>, extension_oid := Some 1,
      dirty := False, startup := 10 ^ 9, next_parameters := 10 ^ 9, saw_graph := True, next_message_flush := 1,
      next_subscription_poll := 1, seen := [Peers], logged := sample_log\<rparr>"

lemma sample_run:
  "run_observer sample_platform [sample_participant [sample_turn (10 ^ 9) sample_nodes []]] (Some 30000000000)
     (initial_worker (create_extension 1 ''ros2'')) = Inr (False, sample_first)"
  by (simp add: worker_defs sample_defs sample_first_def)

lemma sample_turn_ok: "turn_ok lax (sample_turn now nodes [])"
  by (simp add: turn_ok_def sample_turn_def)

lemma sample_reads: "reads_graph (sample_turn now nodes others) w \<longleftrightarrow> startup w \<le> now"
  by (simp add: reads_graph_def sample_turn_def)

text \<open>A turn whose transaction for the graph runs into the lock timeout.\<close>

definition sample_timeout :: turn where
  "sample_timeout = (sample_turn (10 ^ 9) sample_nodes [])
     \<lparr>graph_env := sample_env\<lparr>sql_error := Some ''canceling statement due to lock timeout''\<rparr>\<rparr>"

theorem worker_panics_only_by_sql_witness:
  "\<exists>f. graph_worker_main sample_platform [sample_participant [sample_timeout]] default_settings sample_env sample_env
      (create_extension 1 ''ros2'') = (Inl f, create_extension 1 ''ros2'') \<and>
    (raised sample_env f \<or> (\<exists>e \<in> set (envs sample_timeout). raised e f))"
proof -
  have run: "graph_worker_main sample_platform [sample_participant [sample_timeout]] default_settings sample_env sample_env
      (create_extension 1 ''ros2'') = (Inl (Panic ''canceling statement due to lock timeout''), create_extension 1 ''ros2'')"
    by (simp add: graph_worker_main_def default_database worker_defs sample_defs sample_timeout_def)
  have "list_all (\<lambda>q. settings_in_range (config_after q)) [sample_participant [sample_timeout]]"
    by (simp add: default_settings_in_range sample_participant_def)
  from worker_panics_only_by_sql [OF default_settings_in_range this, of sample_platform sample_env sample_env
      "create_extension 1 ''ros2''"] run
  show ?thesis by (auto simp: default_database sample_participant_def)
qed

theorem tables_mirror_ros_witness:
  "\<exists>w'. turn_step sample_platform None (sample_turn (2 * 10 ^ 9) (Inr [\<lparr>info_name = ''m'', info_namespace = ''/''\<rparr>]) []) sample_first =
      Inr (None, w') \<and> graph_rows (store w') = [Inl (''m'', ''/'')]"
proof -
  let ?t = "sample_turn (2 * 10 ^ 9) (Inr [\<lparr>info_name = ''m'', info_namespace = ''/''\<rparr>]) []"
  have "\<exists>w'. turn_step sample_platform None ?t sample_first = Inr (None, w') \<and> extension (store w') = Some (1, ''ros2'')"
    by (simp add: worker_defs sample_defs sample_first_def)
  then obtain w' where w': "turn_step sample_platform None ?t sample_first = Inr (None, w')"
    "extension (store w') = Some (1, ''ros2'')" by blast
  have ok: "turns_ok False [sample_participant [sample_turn (10 ^ 9) sample_nodes []]]"
    by (simp add: turns_ok_def sample_participant_def sample_turn_ok)
  have read: "read_by sample_platform ?t = Inr \<lparr>snapshot_nodes = [(''m'', ''/'')], snapshot_topics = []\<rparr>"
    by (simp add: read_by_def read_graph_def sample_defs)
  have "reads_graph ?t sample_first" by (simp add: sample_reads sample_first_def)
  with tables_mirror_ros [OF sample_run ok sample_turn_ok w'(1)] read w' show ?thesis
    by (auto simp: graph_image_def)
qed

end
