(* ===== verification/Isolation.thy ===== *)
theory Isolation
  imports Worker
begin

text \<open>
  When the worker of \<open>src/lib.rs\<close> takes itself for isolated and rebuilds its ROS context, that an isolated
  session ends, and how a failed reading hides a reinstallation of the extension.
\<close>

section \<open>Rebuilding\<close>

lemma blind_iff:
  assumes "history_ok w"
  shows "(blind reinit_after t w \<noteq> None \<longleftrightarrow> (\<exists>threshold since. reinit_after = Some threshold \<and>
      empty_from since (seen w) \<and> threshold \<le> elapsed_at t - since)) \<and>
    (blind reinit_after t w \<noteq> None \<longrightarrow> blind reinit_after t w = Some (Reinitialize (Peers \<in> set (seen w))))"
proof -
  have e: "empty_from since (seen w) \<longleftrightarrow> empty_since w = Some since" for since
    using assms by (simp add: history_ok_def)
  have "saw_graph w \<longleftrightarrow> Peers \<in> set (seen w)" using assms by (simp add: history_ok_def)
  then show ?thesis unfolding e by (auto simp: blind_def split: option.split)
qed

text \<open>
  C18. The context is rebuilt exactly for isolation: a turn ends its session exactly when it read the
  graph and the readings since some time were all successful, empty and of an installed extension, for at
  least the interval in force; a failed reading, a peer or a missing extension starts the count over. The
  outcome says whether the session ever saw a peer.
\<close>

theorem rebuilds_exactly_when_blind:
  assumes "run_observer pf qs reinit_after' (initial_worker d) = Inr (stopped, w)"
    and "turn_step pf reinit_after t w = Inr (q, w')"
  shows "(q \<noteq> None \<longleftrightarrow> reads_graph t w \<and> (\<exists>threshold since. reinit_after = Some threshold \<and>
      empty_from since (seen w') \<and> threshold \<le> elapsed_at t - since)) \<and>
    (q \<noteq> None \<longrightarrow> q = Some (Reinitialize (Peers \<in> set (seen w')))) \<and>
    (reads_graph t w \<longrightarrow> (\<exists>w1. before_check pf t w = Inr w1 \<and>
      seen w' = seen w @ [observed t (read_by pf t) (fold act (before_graph t) (store w1))]))"
proof -
  have "turns_ok True qs" by (simp add: turns_ok_def turn_ok_def list_all_iff)
  from run_observer_ok [OF initial_worker_ok this assms(1)] have w: "worker_ok True w" "history_ok w" by simp_all
  have t: "turn_ok True t" by (simp add: turn_ok_def)
  from w(1) t w(2) assms(2) show ?thesis
  proof (cases rule: turn_cases)
    case (reading w1)
    show ?thesis unfolding reading(1)
      using reading(2,5,6) blind_iff [OF reading(4), of reinit_after t] by blast
  qed auto
qed

section \<open>A failed reading after a reinstallation\<close>

text \<open>No other session acts during the turn.\<close>

definition alone :: "turn \<Rightarrow> bool" where
  "alone t \<longleftrightarrow> before_flush t = [] \<and> before_reconcile t = [] \<and> within_reconcile t = [] \<and> before_parameters t = [] \<and>
     before_graph t = [] \<and> before_failure t = []"

lemma start_step_keeps:
  assumes "start_step t s w = Inr w'" and "before_failure t = []"
  shows "graph_rows (store w') = graph_rows (store w) \<and> extension (store w') = extension (store w) \<and>
    startup w' = startup w"
proof (cases rule: start_step_cases [of t s w])
  case (saving x)
  from assms(1) [unfolded saving] assms(2) obtain i d where
    "persist (failure_env t) (Inl x) (previous_parameters w) (parameter_extension w) (store w) = Inr (i, d)"
    "w' = w\<lparr>store := d, parameter_extension := i, next_parameters := failed_at t + from_secs 5\<rparr>" by auto
  with persist_keeps_graph [OF this(1)] show ?thesis by simp
qed (use assms in auto)

lemma before_check_keeps:
  assumes "before_check pf t w = Inr w'" and "alone t"
  shows "graph_rows (store w') = graph_rows (store w) \<and> extension (store w') = extension (store w)"
proof -
  have acts: "before_flush t = []" "before_reconcile t = []" "within_reconcile t = []" "before_parameters t = []"
    using assms(2) by (simp_all add: alone_def)
  from assms(1) obtain w1 w2 where steps: "flush_step pf t (spin_step pf t w) = Inr w1" "reconcile_step pf t w1 = Inr w2"
    "parameter_step pf t w2 = Inr w'" by (rule before_check_steps)
  have "same_caches (store w) (store w1)"
    using steps(1) flush_caches [of "parse_json pf" "flush_env t" "store w"] acts
    by (auto simp: flush_step_def Let_def split: if_splits)
  moreover have "same_caches (store w1) (store w2)"
    using steps(2) reconcile_caches [of "ttl_config t" "ros_node t" "interval pf" "reconcile_env t" "reconcile_write_env t"
        "read_failure t" "\<lambda>d. d" "store w1" "subs w1"] acts
    by (auto simp: reconcile_step_def id_def split: if_splits sum.splits)
  ultimately show ?thesis using parameter_step_saves [OF steps(3)] persist_keeps_graph acts(4)
    by (fastforce simp: same_caches_def)
qed

lemma graph_step_keeps:
  assumes "graph_step pf reinit_after t w = Inr (q, w')" and "before_failure t = []"
    and "persist_snapshot (graph_env t) (described (read_by pf t)) (previous w) (extension_oid w)
      (fold act (before_graph t) (store w)) = (Some j, d)"
  shows "graph_rows (store w') = graph_rows d \<and> extension (store w') = extension d \<and> extension_oid w' = Some j \<and>
    previous w' = (case read_by pf t of Inl e \<Rightarrow> previous w | Inr s \<Rightarrow> Some s) \<and> startup w' = startup w"
proof -
  define w2 where "w2 = note_emptiness t (read_by pf t) ((noted_error pf t w)\<lparr>store := d\<rparr>)"
  note step = graph_step_eq [OF graph_step_commits [OF assms(1)] assms(3), of reinit_after, folded w2_def]
  show ?thesis
  proof (cases "read_by pf t")
    case (Inl e)
    with assms(1) have "w' = finished pf t (Some j) (w2\<lparr>waiting_logged := False\<rparr>)" by (simp add: step)
    then show ?thesis by (simp add: Inl w2_def finished_def noted_error_def note_emptiness_def log_event_def)
  next
    case (Inr s)
    with assms(1) obtain w3 where w3: "start_step t s w2 = Inr w3"
      "w' = finished pf t (Some j) (w3\<lparr>previous := Some s, waiting_logged := False\<rparr>)" by (auto simp: step)
    have "startup w2 = startup w"
      by (simp add: w2_def noted_error_def note_emptiness_def log_event_def split: sum.split)
    with start_step_keeps [OF w3(1) assms(2)] w3(2) show ?thesis by (simp add: Inr w2_def finished_def)
  qed
qed

definition stuck :: "oid \<Rightarrow> string \<Rightarrow> snapshot \<Rightarrow> worker \<Rightarrow> bool" where
  "stuck j schema s w \<longleftrightarrow> previous w = Some s \<and> extension_oid w = Some j \<and> extension (store w) = Some (j, schema) \<and>
     graph_rows (store w) = []"

lemma stuck_step:
  assumes "stuck j schema s w" and "alone t" and "\<And>s'. read_by pf t = Inr s' \<Longrightarrow> s' = s"
    and "turn_step pf reinit_after t w = Inr (q, w')"
  shows "stuck j schema s w'"
  using assms(4)
proof (cases rule: turn_step_cases)
  case idle
  with assms(1) before_check_keeps [OF idle(1) assms(2)] before_check_watch [OF idle(1)] show ?thesis
    by (simp add: stuck_def)
next
  case (reading w1)
  let ?w = "w1\<lparr>dirty := False\<rparr>"
  have w: "stuck j schema s ?w"
    using assms(1) before_check_keeps [OF reading(1) assms(2)] before_check_watch [OF reading(1)] by (simp add: stuck_def)
  have "\<exists>d. persist_snapshot (graph_env t) (described (read_by pf t)) (previous ?w) (extension_oid ?w)
      (fold act (before_graph t) (store ?w)) = (Some j, d) \<and> graph_rows d = [] \<and> extension d = Some (j, schema)"
    using w assms(2,3) by (cases "read_by pf t")
      (simp_all add: persist_snapshot_def Let_def stuck_def alone_def described_def)
  then obtain d where d: "persist_snapshot (graph_env t) (described (read_by pf t)) (previous ?w) (extension_oid ?w)
      (fold act (before_graph t) (store ?w)) = (Some j, d)" "graph_rows d = []" "extension d = Some (j, schema)" by blast
  have "before_failure t = []" using assms(2) by (simp add: alone_def)
  from graph_step_keeps [OF reading(3) this d(1)] d(2,3) w assms(3) show ?thesis
    by (auto simp: stuck_def split: sum.splits)
qed

lemma stuck_turns:
  assumes "stuck j schema s w" and "list_all (\<lambda>t. alone t \<and> (\<forall>s'. read_by pf t = Inr s' \<longrightarrow> s' = s)) ts"
    and "session_turns pf reinit_after ts w = Inr (q, w')"
  shows "stuck j schema s w'"
  using assms
proof (induction ts arbitrary: w)
  case (Cons t ts)
  show ?case
  proof (cases "latch t")
    case True
    with Cons.prems(3) obtain q1 w1 where step: "turn_step pf reinit_after t w = Inr (q1, w1)"
      by (auto split: sum.splits)
    have "stuck j schema s w1" using stuck_step [OF Cons.prems(1) _ _ step] Cons.prems(2) by auto
    with Cons True step show ?thesis by (cases q1) auto
  qed (use Cons.prems in simp)
qed simp

text \<open>
  C35. A failed reading can hide a reinstallation for good. When the extension is dropped and installed
  again between two readings and the first reading after it fails, the worker takes over the new
  extension but keeps the old snapshot as the one it wrote; as long as ROS still shows that snapshot the
  new, empty tables are never filled, however many turns read it successfully.
\<close>

theorem reinstall_hidden_by_failure:
  assumes "previous w = Some s" and "reads_graph t w" and "read_by pf t = Inl e"
    and "before_graph t = [Drop, Install j schema]" and "before_failure t = []"
    and "turn_step pf reinit_after t w = Inr (q, w1)"
    and "list_all (\<lambda>t. alone t \<and> read_by pf t = Inr s) ts"
    and "session_turns pf reinit_after ts w1 = Inr (q', w2)"
  shows "extension (store w2) = Some (j, schema) \<and> nodes_table (store w2) = [] \<and> topics_table (store w2) = []"
proof -
  have "stuck j schema s w1"
    using assms(6)
  proof (cases rule: turn_step_cases)
    case idle
    with assms(2) show ?thesis by simp
  next
    case (reading w0)
    let ?w = "w0\<lparr>dirty := False\<rparr>"
    have p: "previous ?w = Some s" using before_check_watch [OF reading(1)] assms(1) by simp
    obtain d where d: "persist_snapshot (graph_env t) (described (read_by pf t)) (previous ?w) (extension_oid ?w)
        (fold act (before_graph t) (store ?w)) = (Some j, d)" "graph_rows d = []" "extension d = Some (j, schema)"
      by (auto simp: persist_snapshot_def assms(3,4) described_def no_extension_def create_extension_def graph_rows_def)
    from graph_step_keeps [OF reading(3) assms(5) d(1)] d(2,3) p show ?thesis by (simp add: stuck_def assms(3))
  qed
  moreover have "list_all (\<lambda>t. alone t \<and> (\<forall>s'. read_by pf t = Inr s' \<longrightarrow> s' = s)) ts"
    using assms(7) by (auto simp: list_all_iff)
  ultimately have "stuck j schema s w2" using assms(8) by (rule stuck_turns)
  then show ?thesis by (simp add: stuck_def graph_rows_def)
qed

section \<open>A blind session ends\<close>

text \<open>A turn that finds nothing in ROS while the extension is installed and nobody interferes.\<close>

definition blind_turn :: "platform \<Rightarrow> worker \<Rightarrow> turn \<Rightarrow> bool" where
  "blind_turn pf w t \<longleftrightarrow> latch t \<and> alone t \<and> (\<forall>d. spin_result t d = Inr ()) \<and> graph_changed t \<and>
     startup w \<le> checked_at t \<and> (\<exists>s. read_by pf t = Inr s \<and> is_empty_graph s)"

lemma blind_turn_step:
  assumes "worker_ok True w" and "history_ok w" and "extension (store w) \<noteq> None" and "blind_turn pf w t"
  shows "(\<exists>w'. turn_step pf reinit_after t w = Inr (blind reinit_after t w', w') \<and> worker_ok True w' \<and> history_ok w' \<and>
      extension (store w') \<noteq> None \<and> startup w' = startup w \<and>
      empty_since w' = Some (case empty_since w of None \<Rightarrow> emptied_at t | Some since \<Rightarrow> since)) \<or>
    (\<exists>f d. turn_step pf reinit_after t w = Inl (Crash f d) \<and> sql_crash t (Crash f d))"
proof -
  have alone: "alone t" and read: "reads_graph t w" using assms(4) by (simp_all add: blind_turn_def reads_graph_def)
  have t: "turn_ok True t" by (simp add: turn_ok_def)
  have spin: "spin_result t (spin_time t w) = Inr ()" using assms(4) by (simp add: blind_turn_def)
  from assms(4) obtain s where s: "read_by pf t = Inr s" "is_empty_graph s" by (auto simp: blind_turn_def)
  show ?thesis
  proof (cases "turn_step pf reinit_after t w")
    case (Inl x)
    with turn_step_crash [OF assms(1) t Inl] spin show ?thesis
      by (cases x) (auto simp: sql_crash_def)
  next
    case (Inr x)
    obtain q w' where x: "x = (q, w')" by (cases x)
    note step = Inr [unfolded x]
    from assms(1) t assms(2) step show ?thesis
    proof (cases rule: turn_cases)
      case (reading w1)
      have ext: "extension (store w1) \<noteq> None" using before_check_keeps [OF reading(5) alone] assms(3) by simp
      have acts: "before_graph t = []" "before_failure t = []" using alone by (simp_all add: alone_def)
      with reading(6) s ext have seen: "seen w' = seen w @ [Empty (emptied_at t)]" by (simp add: observed_def)
      have e: "empty_from since (seen w) \<longleftrightarrow> empty_since w = Some since" for since
        using assms(2) by (simp add: history_ok_def)
      have "ends_empty (seen w) \<longleftrightarrow> empty_since w \<noteq> None" by (auto simp: ends_empty_iff e)
      then have "empty_from (case empty_since w of None \<Rightarrow> emptied_at t | Some since \<Rightarrow> since) (seen w')"
        by (simp add: seen empty_from_empty e split: option.split)
      with reading(4) have since: "empty_since w' = Some (case empty_since w of None \<Rightarrow> emptied_at t | Some since \<Rightarrow> since)"
        by (simp add: history_ok_def)
      let ?w1 = "w1\<lparr>dirty := False\<rparr>"
      have graph: "graph_step pf reinit_after t ?w1 = Inr (q, w')"
        using step reading(2,5) by (cases rule: turn_step_cases) auto
      from ext obtain j schema where j: "extension (store w1) = Some (j, schema)" by auto
      obtain i d where d: "persist_snapshot (graph_env t) (described (read_by pf t)) (previous ?w1)
          (extension_oid ?w1) (fold act (before_graph t) (store ?w1)) = (i, d)" by (rule prod.exhaust)
      then have "Inr (persist_snapshot (graph_env t) (described (read_by pf t)) (previous ?w1)
          (extension_oid ?w1) (fold act (before_graph t) (store ?w1))) = Inr (i, d)" by simp
      from graph_store.persist_extension [OF this] j have i: "i = Some j" "extension d = Some (j, schema)"
        by (simp_all add: acts)
      from graph_step_keeps [OF graph acts(2) d [unfolded i]] i(2) before_check_watch [OF reading(5)] reading since step
      show ?thesis by (intro disjI1 exI [of _ w']) simp
    qed (use read in simp)
  qed
qed

text \<open>
  C27. An isolated participant does not stay: when every turn of a session finds an empty graph and the
  last one comes at least the interval in force after the first, the session ends with a rebuild, or
  earlier with a crash that PostgreSQL raised, after which the worker is started afresh.
\<close>

theorem blind_session_ends:
  assumes "run_observer pf qs r0 (initial_worker d) = Inr (stopped, w)" and "extension (store w) \<noteq> None"
    and "list_all (blind_turn pf w) (ts @ [t])" and "threshold + emptied_at (hd (ts @ [t])) \<le> elapsed_at t"
    and "empty_since w = None"
  shows "(\<exists>saw w'. session_turns pf (Some threshold) (ts @ [t]) w = Inr (Some (Reinitialize saw), w')) \<or>
    (\<exists>f d. session_turns pf (Some threshold) (ts @ [t]) w = Inl (Crash f d) \<and>
      list_ex (\<lambda>t. list_ex (\<lambda>env. raised env f) (envs t)) (ts @ [t]))"
proof -
  have "turns_ok True qs" by (simp add: turns_ok_def turn_ok_def list_all_iff)
  from run_observer_ok [OF initial_worker_ok this assms(1)] have w: "worker_ok True w" "history_ok w" by simp_all
  define begun where "begun = emptied_at (hd (ts @ [t]))"
  have "(case empty_since w of None \<Rightarrow> emptied_at (hd (ts @ [t])) | Some since \<Rightarrow> since) \<le> begun"
    by (simp add: assms(5) begun_def)
  moreover have "threshold + begun \<le> elapsed_at t" using assms(4) by (simp add: begun_def)
  ultimately show ?thesis using w assms(2,3)
  proof (induction ts arbitrary: w)
    case Nil
    then have t: "blind_turn pf w t" by simp
    then have latch: "latch t" by (simp add: blind_turn_def)
    from blind_turn_step [OF Nil(3,4,5) t, of "Some threshold"] show ?case
    proof (elim disjE exE conjE)
      fix w' assume w': "turn_step pf (Some threshold) t w = Inr (blind (Some threshold) t w', w')"
        "empty_since w' = Some (case empty_since w of None \<Rightarrow> emptied_at t | Some since \<Rightarrow> since)"
      with Nil(1,2) have "blind (Some threshold) t w' = Some (Reinitialize (saw_graph w'))"
        by (cases "empty_since w") (simp_all add: blind_def)
      with w' latch show ?thesis by simp
    qed (use latch in \<open>simp add: sql_crash_def\<close>)
  next
    case (Cons u ts)
    from Cons.prems(6) have u: "blind_turn pf w u" by simp
    have latch: "latch u" using u by (simp add: blind_turn_def)
    from blind_turn_step [OF Cons.prems(3,4,5) u, of "Some threshold"] show ?case
    proof (elim disjE exE conjE)
      fix w1 assume w1: "turn_step pf (Some threshold) u w = Inr (blind (Some threshold) u w1, w1)" "worker_ok True w1"
        "history_ok w1" "extension (store w1) \<noteq> None" "startup w1 = startup w"
        "empty_since w1 = Some (case empty_since w of None \<Rightarrow> emptied_at u | Some since \<Rightarrow> since)"
      show ?thesis
      proof (cases "blind (Some threshold) u w1")
        case None
        have "list_all (blind_turn pf w1) (ts @ [t])" using Cons.prems(6) w1(5) by (simp add: blind_turn_def list_all_iff)
        moreover have "(case empty_since w1 of None \<Rightarrow> emptied_at (hd (ts @ [t])) | Some since \<Rightarrow> since) \<le> begun"
          using Cons.prems(1) w1(6) by (cases "empty_since w") simp_all
        ultimately show ?thesis using Cons.IH [OF _ Cons.prems(2) w1(2-4)] w1(1) None latch by auto
      next
        case (Some q)
        then obtain saw where "q = Reinitialize saw" by (auto simp: blind_def split: option.splits if_splits)
        with Some w1(1) latch show ?thesis by simp
      qed
    qed (use latch in \<open>simp add: sql_crash_def\<close>)
  qed
qed

definition sample_blind :: worker where
  "sample_blind = (initial_worker ((create_extension 1 ''ros2'')
       \<lparr>worker_status := Some \<lparr>st_worker_pid = 1, st_last_checked = 100, st_last_refreshed = Some 100, st_last_error = None\<rparr>\<rparr>))
     \<lparr>previous := Some \<lparr>snapshot_nodes = [], snapshot_topics = []\<rparr>, extension_oid := Some 1,
      dirty := False, startup := 10 ^ 9, next_parameters := 10 ^ 9, empty_since := Some (10 ^ 9), next_message_flush := 1,
      next_subscription_poll := 1, seen := [Empty (10 ^ 9)], logged := sample_log\<rparr>"

lemma sample_blind_run:
  "run_observer sample_platform [sample_participant [sample_turn (10 ^ 9) (Inr []) []]] (Some 30000000000)
     (initial_worker (create_extension 1 ''ros2'')) = Inr (False, sample_blind)"
  by (simp add: worker_defs sample_defs sample_blind_def)

theorem rebuilds_exactly_when_blind_witness:
  "\<exists>w'. turn_step sample_platform (Some 30000000000) (sample_turn 31000000000 (Inr []) []) sample_blind =
      Inr (Some (Reinitialize False), w') \<and> (\<exists>since. empty_from since (seen w') \<and> 30000000000 \<le> 31000000000 - since)"
proof -
  let ?t = "sample_turn 31000000000 (Inr []) []"
  have "\<exists>w'. turn_step sample_platform (Some 30000000000) ?t sample_blind = Inr (Some (Reinitialize False), w')"
    by (simp add: worker_defs sample_defs sample_blind_def)
  then obtain w' where w': "turn_step sample_platform (Some 30000000000) ?t sample_blind =
      Inr (Some (Reinitialize False), w')" by blast
  have "elapsed_at ?t = 31000000000" by (simp add: sample_turn_def)
  with rebuilds_exactly_when_blind [OF sample_blind_run w'] w' show ?thesis by auto
qed

theorem reinstall_hidden_by_failure_witness:
  "\<exists>q w1 w2. turn_step sample_platform None (sample_turn (2 * 10 ^ 9) (Inl (Error ''e'' None)) [Drop, Install 2 ''ros2'']) sample_first =
      Inr (q, w1) \<and>
    session_turns sample_platform None [sample_turn (3 * 10 ^ 9) sample_nodes [], sample_turn (4 * 10 ^ 9) sample_nodes []] w1 =
      Inr (None, w2) \<and> nodes_table (store w2) = []"
proof -
  let ?t = "sample_turn (2 * 10 ^ 9) (Inl (Error ''e'' None)) [Drop, Install 2 ''ros2'']"
  let ?ts = "[sample_turn (3 * 10 ^ 9) sample_nodes [], sample_turn (4 * 10 ^ 9) sample_nodes []]"
  let ?s = "\<lparr>snapshot_nodes = [(''n'', ''/'')], snapshot_topics = []\<rparr>"
  have "\<exists>w1. turn_step sample_platform None ?t sample_first = Inr (None, w1) \<and>
      (\<exists>w2. session_turns sample_platform None ?ts w1 = Inr (None, w2))"
    by (simp add: worker_defs sample_defs sample_first_def)
  then obtain w1 w2 where w: "turn_step sample_platform None ?t sample_first = Inr (None, w1)"
    "session_turns sample_platform None ?ts w1 = Inr (None, w2)" by blast
  have p: "previous sample_first = Some ?s" by (simp add: sample_first_def)
  have r: "reads_graph ?t sample_first" by (simp add: sample_reads sample_first_def)
  have e: "read_by sample_platform ?t = Inl (Error ''e'' None)" "before_graph ?t = [Drop, Install 2 ''ros2'']"
    "before_failure ?t = []" by (simp_all add: read_by_def read_graph_def sample_turn_def)
  have ts: "list_all (\<lambda>t. alone t \<and> read_by sample_platform t = Inr ?s) ?ts"
    by (simp add: alone_def read_by_def read_graph_def sample_defs)
  from reinstall_hidden_by_failure [OF p r e w(1) ts w(2)] w show ?thesis by blast
qed

definition sample_opened :: worker where
  "sample_opened = announce (sample_participant []) (begin_session (sample_participant []) (initial_worker (create_extension 1 ''ros2'')))"

lemma sample_opened_run:
  "run_observer sample_platform [sample_participant []] None (initial_worker (create_extension 1 ''ros2'')) =
    Inr (False, sample_opened)"
  by (simp add: run_session_def sample_participant_def sample_opened_def)

theorem blind_session_ends_witness:
  "\<exists>saw w'. session_turns sample_platform (Some 30000000000)
     ([sample_turn 2000000000 (Inr []) []] @ [sample_turn 40000000000 (Inr []) []]) sample_opened =
   Inr (Some (Reinitialize saw), w')"
proof -
  let ?s = "sample_turn 2000000000 (Inr []) []" and ?t = "sample_turn 40000000000 (Inr []) []"
  have "blind_turn sample_platform w (sample_turn now (Inr []) [])" if "startup w \<le> now" for w now
    using that by (simp add: blind_turn_def alone_def read_by_def read_graph_def is_empty_graph_def sample_turn_def)
  then have blind: "list_all (blind_turn sample_platform sample_opened) ([?s] @ [?t])"
    by (simp add: sample_opened_def log_event_def begin_session_def sample_participant_def from_secs_def)
  have facts: "extension (store sample_opened) \<noteq> None" "empty_since sample_opened = None"
    "30000000000 + emptied_at (hd ([?s] @ [?t])) \<le> elapsed_at ?t"
    by (simp_all add: sample_opened_def begin_session_def Let_def initial_worker_def create_extension_def sample_turn_def)
  have "\<exists>w1. turn_step sample_platform (Some 30000000000) ?s sample_opened = Inr (None, w1) \<and>
      (\<exists>q w2. turn_step sample_platform (Some 30000000000) ?t w1 = Inr (Some q, w2))"
    by (simp add: worker_defs sample_defs sample_opened_def)
  moreover have "latch ?s" "latch ?t" by (simp_all add: sample_turn_def)
  ultimately have "\<exists>x. session_turns sample_platform (Some 30000000000) ([?s] @ [?t]) sample_opened = Inr x" by auto
  with blind_session_ends [OF sample_opened_run facts(1) blind facts(3,2)] show ?thesis
    by (auto simp del: session_turns.simps)
qed

end
