(* ===== verification/Delivery.thy ===== *)
theory Delivery
  imports Worker
begin

text \<open>
  The table-backed subscriptions in the turns of the worker: the keys of \<open>ros2.subscriptions\<close> and of the live
  subscriptions, a message on its way from the callback over the mailbox and the flush into
  \<open>ros2.messages\<close>, the values that stop the worker, and how the live subscriptions follow the table.
\<close>

section \<open>Mailboxes\<close>

text \<open>The messages a turn delivers on a topic, in order, and how they reach its mailbox.\<close>

definition delivered :: "turn \<Rightarrow> string \<Rightarrow> message list" where
  "delivered t topic = concat (map snd (filter (\<lambda>(k, ms). k = topic) (deliveries t)))"

lemma deliver_keys: "map fst (fold (deliver pf limit_of) ds ts) = map fst ts"
proof (induction ds arbitrary: ts)
  case (Cons d ds)
  have "map fst (deliver pf limit_of d ts) = map fst ts"
    by (auto simp: deliver_def update_keys dest: map_of_SomeD split: prod.split option.split intro!: image_eqI)
  then show ?case using Cons.IH by simp
qed simp

lemma spin_step_poll [simp]: "next_subscription_poll (spin_step pf t w) = next_subscription_poll w"
  by (simp add: spin_step_def)

lemma deliver_one:
  "map_of (deliver pf limit_of (k, ms) ts) topic =
     (if k = topic
      then map_option (\<lambda>l. l\<lparr>live_mailbox := fold (callback (strings pf) topic (live_type l) (limit_of topic)) ms (live_mailbox l)\<rparr>) (map_of ts topic)
      else map_of ts topic)"
  by (auto simp: deliver_def update_conv split: option.split)

lemma deliver_all:
  "map_of ts topic = Some l \<Longrightarrow> map_of (fold (deliver pf limit_of) ds ts) topic =
     Some (l\<lparr>live_mailbox := fold (callback (strings pf) topic (live_type l) (limit_of topic))
       (concat (map snd (filter (\<lambda>(k, ms). k = topic) ds))) (live_mailbox l)\<rparr>)"
proof (induction ds arbitrary: ts l)
  case (Cons d ds)
  obtain k ms where d: "d = (k, ms)" by (cases d)
  show ?case
  proof (cases "k = topic")
    case True
    then have "map_of (deliver pf limit_of d ts) topic =
        Some (l\<lparr>live_mailbox := fold (callback (strings pf) topic (live_type l) (limit_of topic)) ms (live_mailbox l)\<rparr>)"
      using Cons.prems by (simp add: d deliver_one)
    from Cons.IH [OF this] True show ?thesis by (simp add: d)
  next
    case False
    then have "map_of (deliver pf limit_of d ts) topic = Some l" using Cons.prems by (simp add: d deliver_one)
    from Cons.IH [OF this] False show ?thesis by (simp add: d)
  qed
qed simp

lemma spin_delivers:
  assumes "map_of (subs w) topic = Some l" and "delivered t topic = ms @ [m]"
    and "n = mb_sequence (live_mailbox l) + of_nat (length ms) + 1"
    and "payload (strings pf) topic (live_type l) n m (limits w topic) = Inr x" and "from_str x = Inr v"
  shows "deliverable from_str (subs (spin_step pf t w)) topic = Some (n, v)"
proof -
  let ?c = "callback (strings pf) topic (live_type l) (limits w topic)"
  let ?s = "fold ?c ms (live_mailbox l)"
  have n: "n = mb_sequence ?s + 1" by (simp add: assms(3) callbacks_sequence)
  have "mb_pending (?c m ?s) = Some (mb_sequence ?s + 1, x)"
    by (rule callback_pending) (use assms(4) n in simp)
  moreover have "map_of (subs (spin_step pf t w)) topic = Some (l\<lparr>live_mailbox := fold ?c (delivered t topic) (live_mailbox l)\<rparr>)"
    unfolding spin_step_def delivered_def using deliver_all [OF assms(1)] by simp
  ultimately show ?thesis by (simp add: deliverable_def assms(2,5) n)
qed

section \<open>The keys of the subscriptions\<close>

text \<open>A topic has one row in \<open>ros2.subscriptions\<close> and one live subscription, at any time.\<close>

definition keyed :: "worker \<Rightarrow> bool" where
  "keyed w \<longleftrightarrow> distinct (map fst (subs w)) \<and> distinct (map fst (subscriptions_table (store w)))"

lemma act_keys: "distinct (map fst (subscriptions_table d)) \<Longrightarrow> distinct (map fst (subscriptions_table (act a d)))"
  by (cases a) (simp_all add: Let_def no_extension_def create_extension_def)

lemma acts_keys: "distinct (map fst (subscriptions_table d)) \<Longrightarrow> distinct (map fst (subscriptions_table (fold act as d)))"
  by (induction as arbitrary: d) (simp_all add: act_keys)

lemma spin_step_keyed: "keyed w \<Longrightarrow> keyed (spin_step pf t w)"
  by (simp add: keyed_def spin_step_def deliver_keys)

lemma flush_step_keyed:
  assumes "keyed w" and "flush_step pf t w = Inr w'"
  shows "keyed w'"
proof (cases "subs w \<noteq> [] \<and> next_message_flush w \<le> spun_at t")
  case True
  let ?d = "fold act (before_flush t) (store w)"
  from True assms(2) obtain d ts where run: "flush (parse_json pf) (flush_env t) ?d (subs w) = Inr (d, ts)"
    and w': "store w' = d" "subs w' = ts" by (auto simp: flush_step_def Let_def)
  have "distinct (map fst (subscriptions_table ?d))" using assms(1) by (simp add: keyed_def acts_keys)
  moreover have "map fst (subscriptions_table d) = map fst (subscriptions_table ?d)"
    using flush_tables(1) [OF run] flush_absent [OF _ run] by (cases "extension ?d") auto
  moreover have "map fst ts = map fst (subs w)" using flush_topics [OF run] by (simp add: case_prod_unfold comp_def)
  ultimately show ?thesis using assms(1) by (simp add: keyed_def w')
qed (use assms in \<open>simp only: flush_step_def if_False sum.inject\<close>)

lemma apply_metadata_keys [simp]: "map fst (apply_metadata m t) = map fst t"
  by (simp add: apply_metadata_def split: prod.split option.split)

lemma reconcile_write_keys:
  assumes "distinct (map fst (subscriptions_table d))"
  shows "distinct (map fst (subscriptions_table (reconcile_write p removed d)))"
proof -
  have keys: "map fst (fold apply_metadata ms rows) = map fst rows" for ms rows
    by (induction ms arbitrary: rows) simp_all
  show ?thesis
    using topic_table.keyed_remove_all [of "fold apply_metadata (plan_metadata p) (subscriptions_table d)" "plan_expired p"]
      assms by (auto simp: reconcile_write_def Let_def keys topic_table.remove_all_def split: option.split)
qed

lemma reconcile_keys:
  assumes "reconcile s nd ep env env' failure meanwhile d ts = Inr (r, d', ts')" and "distinct (map fst ts)"
    and "distinct (map fst (subscriptions_table d))" and "distinct (map fst (subscriptions_table (meanwhile d)))"
  shows "distinct (map fst ts') \<and> distinct (map fst (subscriptions_table d'))"
proof (cases "read_desired ep env failure d")
  case (Inl e)
  with assms show ?thesis by (auto simp: reconcile_def split: sum.splits)
next
  case (Inr wishes)
  have "wishes = [] \<or> (\<exists>e. extension d = Some e)" using Inr by (auto simp: read_desired_def split: option.splits)
  then have "distinct (map desired_topic wishes)"
    using rows_as_wishes(1) [OF assms(3) read_rows [OF _ Inr]] by auto
  from make_plan_eq [OF this assms(2), of s nd] obtain p removed
    where mp: "make_plan s nd wishes ts = (p, removed)" and pl: "planned s nd ts wishes p removed" by blast
  have "ts' = plan_topics p \<and> (d' = meanwhile d \<or> d' = reconcile_write p removed (meanwhile d))"
    using assms(1) by (auto simp: reconcile_def Inr mp split: sum.splits if_splits)
  with pl reconcile_write_keys [OF assms(4), of p removed] assms(4) show ?thesis by (auto simp: planned_def)
qed

lemma reconcile_step_keyed:
  assumes "keyed w" and "reconcile_step pf t w = Inr w'"
  shows "keyed w'"
proof (cases "next_subscription_poll w \<le> spun_at t")
  case True
  from assms(2) True obtain r d ts where run: "reconcile (ttl_config t) (ros_node t) (interval pf) (reconcile_env t)
      (reconcile_write_env t) (read_failure t) (fold act (within_reconcile t)) (fold act (before_reconcile t) (store w))
      (subs w) = Inr (r, d, ts)" and w': "store w' = d" "subs w' = ts"
    by (auto simp: reconcile_step_def split: sum.splits)
  from reconcile_keys [OF run] assms(1) show ?thesis by (simp add: keyed_def w' acts_keys)
qed (use assms in \<open>simp add: reconcile_step_def\<close>)

lemma persist_subscriptions:
  "persist env r p ext d = Inr (ext', d') \<Longrightarrow> subscriptions_table d' = subscriptions_table d"
  "persist_snapshot env r' p' ext d = (ext', d') \<Longrightarrow> subscriptions_table d' = subscriptions_table d"
  by (auto simp: persist_def persist_snapshot_def Let_def split: option.splits sum.splits if_splits)

lemma parameter_step_subs: "parameter_step pf t w = Inr w' \<Longrightarrow> subs w' = subs w"
  by (auto simp: parameter_step_def log_event_def Let_def split: option.splits sum.splits fault.splits)

lemma parameter_step_keyed:
  assumes "keyed w" and "parameter_step pf t w = Inr w'"
  shows "keyed w'"
  using parameter_step_saves [OF assms(2)] parameter_step_subs [OF assms(2)] assms(1)
  by (auto simp: keyed_def acts_keys dest!: persist_subscriptions(1))

lemma start_step_keyed:
  assumes "keyed w" and "start_step t s w = Inr w'"
  shows "keyed w'"
proof (cases rule: start_step_cases [of t s w])
  case (saving x)
  with assms(2) obtain i d where
    "persist (failure_env t) (Inl x) (previous_parameters w) (parameter_extension w) (fold act (before_failure t) (store w)) = Inr (i, d)"
    "store w' = d" "subs w' = subs w" by auto
  with persist_subscriptions(1) [OF this(1)] assms(1) show ?thesis by (simp add: keyed_def acts_keys)
qed (use assms in \<open>auto simp: keyed_def\<close>)

lemma forget_subs [simp]: "subs (forget w) = subs w"
  by (simp add: forget_def Let_def log_event_def)

lemma note_emptiness_subs [simp]: "subs (note_emptiness t x w) = subs w"
  by (simp add: note_emptiness_def split: sum.split)

lemma noted_error_fields [simp]: "subs (noted_error pf t w) = subs w" "store (noted_error pf t w) = store w"
  by (simp_all add: noted_error_def)

lemma graph_step_keyed:
  assumes "keyed w" and "graph_step pf reinit_after t w = Inr (q, w')"
  shows "keyed w'"
proof -
  obtain i d where run: "persist_snapshot (graph_env t) (described (read_by pf t)) (previous w) (extension_oid w)
      (fold act (before_graph t) (store w)) = (i, d)" by (rule prod.exhaust)
  have d: "keyed (note_emptiness t x ((noted_error pf t w)\<lparr>store := d\<rparr>))" "keyed (forget ((noted_error pf t w)\<lparr>store := d\<rparr>))" for x
    using assms(1) persist_subscriptions(2) [OF run] by (simp_all add: keyed_def acts_keys)
  from assms(2) [unfolded graph_step_eq [OF graph_step_commits [OF assms(2)] run]] d show ?thesis
    by (auto simp: finished_def keyed_def [of "_\<lparr>extension_oid := _, last_error := _\<rparr>"]
        keyed_def [of "_\<lparr>waiting_logged := _\<rparr>"] keyed_def [of "_\<lparr>previous := _\<rparr>"]
        dest!: start_step_keyed [OF d(1)] split: if_splits sum.splits) (simp_all add: keyed_def)
qed

lemma before_check_keyed:
  assumes "keyed w" and "before_check pf t w = Inr w'"
  shows "keyed w'"
  using assms(2) by (rule before_check_steps)
    (intro parameter_step_keyed [OF reconcile_step_keyed [OF flush_step_keyed [OF spin_step_keyed [OF assms(1)]]]])

lemma turn_step_keyed:
  assumes "keyed w" and "turn_step pf reinit_after t w = Inr (q, w')"
  shows "keyed w'"
  using assms(2)
proof (cases rule: turn_step_cases)
  case idle
  with before_check_keyed [OF assms(1)] show ?thesis by blast
next
  case (reading w1)
  have "keyed (w1\<lparr>dirty := False\<rparr>)" using before_check_keyed [OF assms(1) reading(1)] by (simp add: keyed_def)
  from graph_step_keyed [OF this reading(3)] show ?thesis .
qed

interpretation worker_keys: worker_invariant keyed "\<lambda>t. True" pf for pf
proof unfold_locales
  fix w t reinit_after q w'
  assume "keyed w" and "turn_step pf reinit_after t w = Inr (q, w')"
  then show "keyed w'" by (rule turn_step_keyed)
qed (simp_all add: keyed_def begin_session_def Let_def)

lemma run_keyed:
  assumes "run_observer pf qs reinit_after (initial_worker d) = Inr (stopped, w)"
    and "distinct (map fst (subscriptions_table d))"
  shows "keyed w"
  using worker_keys.run_keeps [OF _ _ assms(1)] assms(2) by (simp add: keyed_def initial_worker_def list_all_iff)

section \<open>A message reaches its table\<close>

text \<open>A flush that is due, in a worker with a live topic.\<close>

lemma flush_step_due:
  assumes "map_of (subs w) topic = Some l" and "next_message_flush w \<le> spun_at t"
  shows "flush_step pf t (spin_step pf t w) =
    (let d = fold act (before_flush t) (store w)
     in map_res (\<lambda>(d', ts). (spin_step pf t w)\<lparr>store := d', subs := ts, next_message_flush := flushed_at t + message_poll t\<rparr>)
          (crash_in d (flush (parse_json pf) (flush_env t) d (subs (spin_step pf t w)))))"
proof -
  have "map fst (subs (spin_step pf t w)) = map fst (subs w)" by (simp add: spin_step_def deliver_keys)
  then have "subs (spin_step pf t w) \<noteq> []" using assms(1) by auto
  moreover have "next_message_flush (spin_step pf t w) \<le> spun_at t" using assms(2) by (simp add: spin_step_def)
  ultimately show ?thesis by (simp add: flush_step_def)
qed

text \<open>Nothing but a flush, a reconciliation and dropping the extension touches \<open>ros2.messages\<close>.\<close>

definition drops :: "other \<Rightarrow> bool" where
  "drops a \<longleftrightarrow> (case a of Drop \<Rightarrow> True | _ \<Rightarrow> False)"

definition undropped :: "turn \<Rightarrow> bool" where
  "undropped t \<longleftrightarrow> \<not> list_ex drops (before_flush t @ before_reconcile t @ within_reconcile t @
     before_parameters t @ before_graph t @ before_failure t)"

definition same_messages :: "database \<Rightarrow> database \<Rightarrow> bool" where
  "same_messages d d' \<longleftrightarrow> extension d' = extension d \<and> messages_table d' = messages_table d"

lemma same_messages_refl [simp]: "same_messages d d"
  by (simp add: same_messages_def)

lemma same_messages_trans: "same_messages d d1 \<Longrightarrow> same_messages d1 d2 \<Longrightarrow> same_messages d d2"
  by (simp add: same_messages_def)

lemma act_messages: "extension d \<noteq> None \<Longrightarrow> \<not> drops a \<Longrightarrow> same_messages d (act a d)"
  by (cases a) (auto simp: same_messages_def drops_def Let_def)

lemma acts_messages: "extension d \<noteq> None \<Longrightarrow> \<not> list_ex drops as \<Longrightarrow> same_messages d (fold act as d)"
proof (induction as arbitrary: d)
  case (Cons a as)
  then have "same_messages d (act a d)" by (auto intro: act_messages)
  moreover from this Cons.prems have "same_messages (act a d) (fold act as (act a d))"
    by (intro Cons.IH) (auto simp: same_messages_def)
  ultimately show ?case by (auto intro: same_messages_trans)
qed simp

lemma undropped_acts:
  assumes "undropped t" and "extension d \<noteq> None"
  shows "same_messages d (fold act (before_flush t) d)" "same_messages d (fold act (before_reconcile t) d)"
    "same_messages d (fold act (within_reconcile t) d)" "same_messages d (fold act (before_parameters t) d)"
    "same_messages d (fold act (before_graph t) d)" "same_messages d (fold act (before_failure t) d)"
  using assms by (auto intro!: acts_messages simp: undropped_def)

lemma persist_messages: "persist env r p ext d = Inr (ext', d') \<Longrightarrow> same_messages d d'"
  by (auto simp: persist_def Let_def same_messages_def split: option.splits sum.splits if_splits)

lemma persist_snapshot_messages: "persist_snapshot env r p ext d = (ext', d') \<Longrightarrow> same_messages d d'"
  by (auto simp: persist_snapshot_def Let_def same_messages_def split: option.splits sum.splits if_splits)

lemma parameter_step_messages:
  assumes "parameter_step pf t w = Inr w'" and "undropped t" and "extension (store w) \<noteq> None"
  shows "same_messages (store w) (store w')"
  using parameter_step_saves [OF assms(1)] undropped_acts(4) [OF assms(2,3)] persist_messages same_messages_trans
  by fastforce

lemma start_step_messages:
  assumes "start_step t s w = Inr w'" and "undropped t" and "extension (store w) \<noteq> None"
  shows "same_messages (store w) (store w')"
proof (cases rule: start_step_cases [of t s w])
  case (saving x)
  from assms(1) [unfolded saving] obtain i d where
    "persist (failure_env t) (Inl x) (previous_parameters w) (parameter_extension w) (fold act (before_failure t) (store w)) = Inr (i, d)"
    "store w' = d" by auto
  with persist_messages [OF this(1)] undropped_acts(6) [OF assms(2,3)] show ?thesis by (auto intro: same_messages_trans)
qed (use assms in auto)

lemma graph_step_messages:
  assumes "graph_step pf reinit_after t w = Inr (q, w')" and "undropped t" and "extension (store w) \<noteq> None"
  shows "same_messages (store w) (store w')"
proof -
  obtain i d where run: "persist_snapshot (graph_env t) (described (read_by pf t)) (previous w) (extension_oid w)
      (fold act (before_graph t) (store w)) = (i, d)" by (rule prod.exhaust)
  have d: "same_messages (store w) d"
    using undropped_acts(5) [OF assms(2,3)] persist_snapshot_messages [OF run] by (rule same_messages_trans)
  then have ext: "extension d \<noteq> None" using assms(3) by (simp add: same_messages_def)
  have start: "same_messages (store w) (store w3)"
    if "start_step t s (note_emptiness t (read_by pf t) ((noted_error pf t w)\<lparr>store := d\<rparr>)) = Inr w3" for s w3
    using start_step_messages [OF that assms(2)] ext by (auto intro: same_messages_trans [OF d])
  from assms(1) [unfolded graph_step_eq [OF graph_step_commits [OF assms(1)] run]] d start show ?thesis
    by (auto simp: finished_def split: if_splits sum.splits)
qed

text \<open>What a reconciliation reads, if one is due, and that it finds the topic wanted.\<close>

definition kept :: "platform \<Rightarrow> turn \<Rightarrow> worker \<Rightarrow> string \<Rightarrow> bool" where
  "kept pf t w topic \<longleftrightarrow> read_failure t \<noteq> None \<or>
     (case map_of (subscriptions_table (fold act (before_reconcile t) (store w))) topic of
        None \<Rightarrow> False
      | Some row \<Rightarrow> \<not> row_expired (ttl_config t) (interval pf) (statement_timestamp (reconcile_env t)) row)"

lemma reconcile_step_messages:
  assumes "reconcile_step pf t w = Inr w'" and "undropped t" and "extension (store w) \<noteq> None"
    and "keyed w" and "next_subscription_poll w \<le> spun_at t \<Longrightarrow> kept pf t w topic"
  shows "map_of (messages_table (store w')) topic = map_of (messages_table (store w)) topic \<and>
    extension (store w') = extension (store w)"
proof (cases "next_subscription_poll w \<le> spun_at t")
  case True
  let ?d = "fold act (before_reconcile t) (store w)"
  from assms(1) True obtain r d ts where run: "reconcile (ttl_config t) (ros_node t) (interval pf) (reconcile_env t)
      (reconcile_write_env t) (read_failure t) (fold act (within_reconcile t)) ?d (subs w) = Inr (r, d, ts)"
    and w': "store w' = d"
    by (auto simp: reconcile_step_def split: sum.splits)
  have d1: "same_messages (store w) ?d" by (rule undropped_acts(2) [OF assms(2,3)])
  then have "extension ?d \<noteq> None" using assms(3) by (simp add: same_messages_def)
  note d2 = undropped_acts(3) [OF assms(2) this]
  obtain e where e: "extension ?d = Some e" "extension (fold act (within_reconcile t) ?d) = Some e"
    using \<open>extension ?d \<noteq> None\<close> d2 by (auto simp: same_messages_def)
  have "extension d = extension (fold act (within_reconcile t) ?d)"
    using reconcile_caches [OF run] by (simp add: same_caches_def)
  moreover have "map_of (messages_table d) topic = map_of (messages_table (fold act (within_reconcile t) ?d)) topic"
  proof (cases "read_failure t")
    case None
    with assms(5) [OF True] obtain row where row: "map_of (subscriptions_table ?d) topic = Some row"
      "\<not> row_expired (ttl_config t) (interval pf) (statement_timestamp (reconcile_env t)) row"
      by (auto simp: kept_def split: option.splits)
    have "distinct (map fst (subscriptions_table ?d))" "distinct (map fst (subs w))"
      using assms(4) by (simp_all add: keyed_def acts_keys)
    from tables_after(1) [where meanwhile = "fold act (within_reconcile t)", OF e this run [unfolded None], of topic] row
    show ?thesis by simp
  next
    case (Some x)
    with run e(1) show ?thesis by (auto simp: reconcile_def read_desired_def transaction_def split: option.splits)
  qed
  ultimately show ?thesis using d1 d2 by (simp add: w' same_messages_def)
qed (use assms(1) in \<open>simp add: reconcile_step_def\<close>)

text \<open>A turn that starts with unique keys.\<close>

lemma delivered_stored:
  assumes "keyed w" and "turn_step pf reinit_after t w = Inr (q, w')"
    and "map_of (subs w) topic = Some l" and "delivered t topic = ms @ [m]"
    and "n = mb_sequence (live_mailbox l) + of_nat (length ms) + 1"
    and "payload (strings pf) topic (live_type l) n m (limits w topic) = Inr x" and "parse_json pf x = Inr v"
    and "next_message_flush w \<le> spun_at t" and "extension (store w) \<noteq> None" and "undropped t"
    and "next_subscription_poll w \<le> spun_at t \<longrightarrow>
      (\<exists>w2. flush_step pf t (spin_step pf t w) = Inr w2 \<and> kept pf t w2 topic)"
  shows "map_of (messages_table (store w')) topic =
    Some \<lparr>cached_sequence = n, received_at = statement_timestamp (flush_env t), cached_body = v\<rparr>"
proof -
  let ?row = "Some \<lparr>cached_sequence = n, received_at = statement_timestamp (flush_env t), cached_body = v\<rparr>"
  note w = assms(1)
  obtain w4 where w4: "before_check pf t w = Inr w4"
    and w': "w' = w4 \<or> graph_step pf reinit_after t (w4\<lparr>dirty := False\<rparr>) = Inr (q, w')"
    using assms(2) by (cases rule: turn_step_cases) auto
  from w4 obtain w2 w3 where steps: "flush_step pf t (spin_step pf t w) = Inr w2" "reconcile_step pf t w2 = Inr w3"
    "parameter_step pf t w3 = Inr w4" by (rule before_check_steps)
  have d0: "same_messages (store w) (fold act (before_flush t) (store w))" by (rule undropped_acts(1) [OF assms(10,9)])
  then obtain e where e: "extension (fold act (before_flush t) (store w)) = Some e"
    using assms(9) by (auto simp: same_messages_def)
  from steps(1) [unfolded flush_step_due [OF assms(3,8)] Let_def] obtain d ts where
    run: "flush (parse_json pf) (flush_env t) (fold act (before_flush t) (store w)) (subs (spin_step pf t w)) = Inr (d, ts)"
    and w2: "store w2 = d" "next_subscription_poll w2 = next_subscription_poll w"
    by auto
  note n = spin_delivers [OF assms(3-6), of "parse_json pf" v, OF assms(7)]
  have row: "map_of (messages_table (store w2)) topic = ?row" "extension (store w2) \<noteq> None"
    using flush_finds [OF _ e run, of topic] spin_step_keyed [OF w] flush_tables(2) [OF run e] e
    by (simp_all add: w2 n keyed_def)
  have "keyed w2" by (rule flush_step_keyed [OF spin_step_keyed [OF w] steps(1)])
  from reconcile_step_messages [OF steps(2) assms(10) row(2) this, of topic] assms(11) steps(1) w2(2) row
  have w3: "map_of (messages_table (store w3)) topic = ?row" "extension (store w3) \<noteq> None" by auto
  have m: "same_messages (store w3) (store w4)" by (rule parameter_step_messages [OF steps(3) assms(10) w3(2)])
  with w3(2) have "extension (store (w4\<lparr>dirty := False\<rparr>)) \<noteq> None" by (simp add: same_messages_def)
  from w' graph_step_messages [OF _ assms(10) this] have "same_messages (store w4) (store w')" by fastforce
  with m w3(1) show ?thesis by (simp add: same_messages_def)
qed

text \<open>
  C2. The cache from end to end. In a turn that delivers messages on a live topic and flushes, the last
  message, once encoded and parsed, is in \<open>ros2.messages\<close> when the turn ends, numbered after all
  messages of the topic before it: unless another session drops the extension, and provided a
  reconciliation of the same turn finds the row of the topic neither deleted nor expired, no other
  step of the turn and no other session disturbs it.
\<close>

theorem message_becomes_visible:
  assumes "run_observer pf qs r0 (initial_worker db) = Inr (stopped, w)" and "distinct (map fst (subscriptions_table db))"
    and "turn_step pf reinit_after t w = Inr (q, w')"
    and "map_of (subs w) topic = Some l" and "delivered t topic = ms @ [m]"
    and "n = mb_sequence (live_mailbox l) + of_nat (length ms) + 1"
    and "payload (strings pf) topic (live_type l) n m (limits w topic) = Inr x" and "parse_json pf x = Inr v"
    and "next_message_flush w \<le> spun_at t" and "extension (store w) \<noteq> None" and "undropped t"
    and "next_subscription_poll w \<le> spun_at t \<longrightarrow>
      (\<exists>w2. flush_step pf t (spin_step pf t w) = Inr w2 \<and> kept pf t w2 topic)"
  shows "map_of (messages_table (store w')) topic =
    Some \<lparr>cached_sequence = n, received_at = statement_timestamp (flush_env t), cached_body = v\<rparr>"
  by (rule delivered_stored [OF run_keyed [OF assms(1,2)] assms(3-12)])

section \<open>A refused value stops the worker\<close>

text \<open>
  C33. A message that \<open>jsonb\<close> refuses stops the worker. PostgreSQL refuses a value with a string that holds
  U+0000, which a ROS string may hold and the encoder passes on as an escape: the flush that stores the last
  message of a topic then panics instead of noting an error for the topic, none of the messages
  drained with it is stored, and the database is left as the other sessions left it.
\<close>

theorem nul_message_stops_worker:
  assumes "run_observer pf qs r0 (initial_worker db) = Inr (stopped, w)" and "distinct (map fst (subscriptions_table db))"
    and "map_of (subs w) topic = Some l" and "delivered t topic = ms @ [m]"
    and "n = mb_sequence (live_mailbox l) + of_nat (length ms) + 1"
    and "payload (strings pf) topic (live_type l) n m (limits w topic) = Inr x" and "parse_json pf x = Inr v"
    and "next_message_flush w \<le> spun_at t" and "extension (fold act (before_flush t) (store w)) \<noteq> None"
    and "spin_result t (spin_time t w) = Inr ()" and "refuses_nul (flush_env t)" and "holds_nul v"
  shows "\<exists>f. turn_step pf reinit_after t w = Inl (Crash f (fold act (before_flush t) (store w)))"
proof -
  note n = spin_delivers [OF assms(3-6), of "parse_json pf" v, OF assms(7)]
  have "jsonb_error (flush_env t) v \<noteq> None" using assms(11,12) by (simp add: refuses_nul_def)
  from flush_refused [OF _ assms(9) n this] spin_step_keyed [OF run_keyed [OF assms(1,2)]] obtain f where
    f: "flush (parse_json pf) (flush_env t) (fold act (before_flush t) (store w)) (subs (spin_step pf t w)) = Inl f"
    by (auto simp: keyed_def)
  with flush_step_due [OF assms(3,8), of pf] assms(10) show ?thesis
    by (simp add: turn_step_def before_check_def crash_in_def)
qed

text \<open>
  C34. A parameter value that \<open>jsonb\<close> refuses stops the worker: when a poll delivers a new list of parameters in
  which the value of one holds U+0000, saving the list panics instead of reporting an error, the
  tables of parameters stay as they were, and the same list is polled again by the next worker.
\<close>

theorem nul_parameter_stops_worker:
  assumes "spin_result t (spin_time t w) = Inr ()" and "flush_step pf t (spin_step pf t w) = Inr w1"
    and "reconcile_step pf t w1 = Inr w2" and "parameter_poll w2 = Some p"
    and "tick (numbers pf) (tick_sees t) p = Inr (Some s, p')" and "previous_parameters w2 \<noteq> Some s"
    and "extension (fold act (before_parameters t) (store w2)) \<noteq> None"
    and "refuses_nul (parameters_env t)" and "x \<in> set s" and "holds_nul (param_value x)"
  shows "\<exists>f. turn_step pf reinit_after t w = Inl (Crash f (fold act (before_parameters t) (store w2)))"
proof -
  have "jsonb_error (parameters_env t) (param_value x) \<noteq> None" using assms(8,10) by (simp add: refuses_nul_def)
  from persist_refuses [OF assms(7,6,9) this] obtain f where
    "persist (parameters_env t) (Inr s) (previous_parameters w2) (parameter_extension w2)
      (fold act (before_parameters t) (store w2)) = Inl f" by blast
  then have "\<exists>f. parameter_step pf t w2 = Inl (Crash f (fold act (before_parameters t) (store w2)))"
    using assms(4,5) by (auto simp: parameter_step_def crash_in_def transaction_def Let_def split: option.split)
  with assms(1-3) show ?thesis by (auto simp: turn_step_def before_check_def)
qed

section \<open>The worker follows the table\<close>

text \<open>What the steps after a reconciliation leave of its result.\<close>

definition same_topics :: "worker \<Rightarrow> worker \<Rightarrow> bool" where
  "same_topics w w' \<longleftrightarrow> subs w' = subs w \<and> limits w' = limits w \<and>
     next_subscription_poll w' = next_subscription_poll w \<and> last_subscription_error w' = last_subscription_error w"

lemma parameter_step_topics: "parameter_step pf t w = Inr w' \<Longrightarrow> same_topics w w'"
  by (auto simp: parameter_step_def same_topics_def log_event_def Let_def split: option.splits sum.splits fault.splits)

lemma start_step_topics: "start_step t s w = Inr w' \<Longrightarrow> same_topics w w'"
  by (auto simp: start_step_def same_topics_def Let_def split: sum.splits fault.splits if_splits)

lemma graph_step_topics:
  assumes "graph_step pf reinit_after t w = Inr (q, w')"
  shows "same_topics w w'"
proof -
  obtain i d where run: "persist_snapshot (graph_env t) (described (read_by pf t)) (previous w) (extension_oid w)
      (fold act (before_graph t) (store w)) = (i, d)" by (rule prod.exhaust)
  have local: "same_topics w (note_emptiness t x ((noted_error pf t w)\<lparr>store := d\<rparr>))"
    "same_topics w (forget ((noted_error pf t w)\<lparr>store := d\<rparr>))" for x
    by (simp_all add: same_topics_def note_emptiness_def noted_error_def forget_def log_event_def Let_def split: sum.split)
  have start: "same_topics w w3" if "start_step t s (note_emptiness t x ((noted_error pf t w)\<lparr>store := d\<rparr>)) = Inr w3" for s x w3
    using start_step_topics [OF that] local(1) [of x] by (simp add: same_topics_def)
  from assms [unfolded graph_step_eq [OF graph_step_commits [OF assms] run]] local start show ?thesis
    by (auto simp: finished_def same_topics_def [of w "_\<lparr>extension_oid := _, last_error := _\<rparr>"]
        same_topics_def [of w "note_emptiness t _ _"] same_topics_def [of w "forget _"]
        dest!: start split: if_splits sum.splits) (simp_all add: same_topics_def)
qed

lemma flush_step_fields:
  "flush_step pf t w = Inr w' \<Longrightarrow> limits w' = limits w \<and> next_subscription_poll w' = next_subscription_poll w \<and>
    map fst (subs w') = map fst (subs w)"
  by (auto simp: flush_step_def Let_def case_prod_unfold comp_def split: if_splits dest!: flush_topics)

text \<open>The live subscription of a topic after a turn in which the table is read.\<close>

lemma follows_table:
  assumes "keyed w" and "turn_step pf reinit_after t w = Inr (q, w')" and "flush_step pf t (spin_step pf t w) = Inr w1"
    and "next_subscription_poll w \<le> spun_at t" and "read_failure t = None"
    and "extension (fold act (before_reconcile t) (store w1)) \<noteq> None"
  shows "map_of (subs w') topic =
      (case map_of (subscriptions_table (fold act (before_reconcile t) (store w1))) topic of
         None \<Rightarrow> None
       | Some row \<Rightarrow>
           if row_expired (ttl_config t) (interval pf) (statement_timestamp (reconcile_env t)) row then None
           else case map_of (subs w1) topic of Some l \<Rightarrow> Some l
             | None \<Rightarrow> (case Messages.subscribe (ros_node t) topic (requested_type row) of Inr l \<Rightarrow> Some l | Inl _ \<Rightarrow> None)) \<and>
    contains_key (subs w1) topic = contains_key (subs w) topic \<and>
    limits w' topic = (if contains_key (subs w) topic then limits w topic else message_max_bytes (limit_config t topic)) \<and>
    last_subscription_error w' = None"
proof -
  let ?d = "fold act (before_reconcile t) (store w1)"
  have w1: "keyed w1" by (rule flush_step_keyed [OF spin_step_keyed [OF assms(1)] assms(3)])
  have fields: "limits w1 = limits w \<and> next_subscription_poll w1 = next_subscription_poll w \<and> map fst (subs w1) = map fst (subs w)"
    using flush_step_fields [OF assms(3)] by (simp add: spin_step_def deliver_keys)
  have live: "contains_key (subs w1) x = contains_key (subs w) x" for x
    using fields by (metis contains_key_def map_of_eq_None_iff set_map)
  obtain w2 where w2: "reconcile_step pf t w1 = Inr w2" "same_topics w2 w'"
  proof -
    from assms(2) obtain w4 where w4: "before_check pf t w = Inr w4"
      and w': "w' = w4 \<or> graph_step pf reinit_after t (w4\<lparr>dirty := False\<rparr>) = Inr (q, w')"
      by (cases rule: turn_step_cases) auto
    from w4 assms(3) obtain w2 where steps: "reconcile_step pf t w1 = Inr w2" "parameter_step pf t w2 = Inr w4"
      by (auto simp: before_check_def)
    with parameter_step_topics [OF steps(2)] w' graph_step_topics [of pf reinit_after t "w4\<lparr>dirty := False\<rparr>" q w']
    show thesis by (intro that [OF steps(1)]) (auto simp: same_topics_def)
  qed
  from w2(1) assms(4,5) fields obtain r d ts where run: "reconcile (ttl_config t) (ros_node t) (interval pf) (reconcile_env t)
      (reconcile_write_env t) None (fold act (within_reconcile t)) ?d (subs w1) = Inr (r, d, ts)"
    and eq: "w2 = (note_read r (w1\<lparr>store := d, subs := ts, limits := (\<lambda>x. if contains_key (subs w1) x then limits w1 x
      else message_max_bytes (limit_config t x))\<rparr>))\<lparr>next_subscription_poll := reconciled_at t + from_millis (i32_as_u64 (subscription_poll_ms (poll_config t)))\<rparr>"
    by (auto simp: reconcile_step_def split: sum.splits)
  obtain e where e: "extension ?d = Some e" using assms(6) by auto
  have keys: "distinct (map fst (subscriptions_table ?d))" "distinct (map fst (subs w1))"
    using w1 by (simp_all add: keyed_def acts_keys)
  note after = live_after [where meanwhile = "fold act (within_reconcile t)", OF e keys run, of topic]
  have "last_subscription_error w2 = None" using after by (simp add: eq note_read_def log_event_def)
  with after w2(2) fields live show ?thesis by (simp add: same_topics_def eq)
qed

text \<open>
  C9. Subscribing is a matter of the table. At the end of any turn in which the subscriptions are polled,
  in any history of the worker, a topic is live exactly when the table that was read holds a row for it
  that has not expired, and it was live already or ROS could subscribe to it now. It keeps the byte limit
  it was subscribed with, and an error of an earlier reading is forgotten.
\<close>

theorem worker_follows_table:
  assumes "run_observer pf qs r0 (initial_worker db) = Inr (stopped, w)" and "distinct (map fst (subscriptions_table db))"
    and "turn_step pf reinit_after t w = Inr (q, w')" and "flush_step pf t (spin_step pf t w) = Inr w1"
    and "next_subscription_poll w \<le> spun_at t" and "read_failure t = None"
    and "extension (fold act (before_reconcile t) (store w1)) \<noteq> None"
  shows "(contains_key (subs w') topic \<longleftrightarrow>
      (\<exists>row. map_of (subscriptions_table (fold act (before_reconcile t) (store w1))) topic = Some row \<and>
        \<not> row_expired (ttl_config t) (interval pf) (statement_timestamp (reconcile_env t)) row \<and>
        (contains_key (subs w) topic \<or> (\<exists>l. Messages.subscribe (ros_node t) topic (requested_type row) = Inr l)))) \<and>
    limits w' topic = (if contains_key (subs w) topic then limits w topic else message_max_bytes (limit_config t topic)) \<and>
    last_subscription_error w' = None"
  using follows_table [OF run_keyed [OF assms(1,2)] assms(3-7), of topic]
  by (auto simp: contains_key_def split: option.splits sum.splits)

section \<open>Turns for the witnesses\<close>

text \<open>A worker that has subscribed to a topic, while ROS delivers two messages on it.\<close>

definition sample_wanted :: database where
  "sample_wanted = (create_extension 1 ''ros2'')\<lparr>subscriptions_table := [(''/t'', sample_row)]\<rparr>"

definition sample_listening :: worker where
  "sample_listening = (initial_worker (sample_wanted\<lparr>subscriptions_table :=
       [(''/t'', sample_row\<lparr>subscribed_type := Some ''T''\<rparr>)]\<rparr>))
     \<lparr>subs := [(''/t'', \<lparr>live_type = ''T'', live_mailbox = empty_mailbox\<rparr>)],
      limits := (\<lambda>x. message_max_bytes default_settings),
      startup := 10 ^ 9, next_parameters := 10 ^ 9, next_message_flush := 1, logged := sample_log,
      next_subscription_poll := from_millis (i32_as_u64 (subscription_poll_ms default_settings))\<rparr>"

lemma sample_keeps_row: "\<not> expired default_settings idle"
  by (simp add: expired_def subscription_ttl_seconds_def default_settings_def i32_max_def f64_of_i32_def Let_def)

lemma sample_subscribes:
  "reconcile default_settings sample_ros sample_epoch sample_env sample_env None id sample_wanted [] =
    Inr (Inr (), sample_wanted\<lparr>subscriptions_table := [(''/t'', sample_row\<lparr>subscribed_type := Some ''T''\<rparr>)]\<rparr>,
      [(''/t'', \<lparr>live_type = ''T'', live_mailbox = empty_mailbox\<rparr>)])"
proof -
  have read: "read_desired sample_epoch sample_env None sample_wanted = Inr [\<lparr>desired_topic = ''/t'',
      desired_type = Some ''T'', idle_seconds = row_idle sample_epoch 100 sample_row\<rparr>]"
    by (simp add: read_desired_def sample_wanted_def create_extension_def List.map_filter_def desired_of_row)
      (simp add: sample_row_def)
  have "plan_entry default_settings sample_ros \<lparr>desired_topic = ''/t'', desired_type = Some ''T'', idle_seconds = idle\<rparr> p =
      p\<lparr>plan_wanted := plan_wanted p @ [''/t''], plan_metadata := plan_metadata p @ [(''/t'', Some ''T'', None)],
        plan_topics := AList.update ''/t'' \<lparr>live_type = ''T'', live_mailbox = empty_mailbox\<rparr> (plan_topics p)\<rparr>"
    if "plan_topics p = []" for idle p
    using sample_keeps_row [of idle] that
    by (simp add: plan_entry_def expired_def Let_def contains_key_def subscribe_def sample_ros_def described_def)
  then show ?thesis
    by (simp add: reconcile_def transaction_def read make_plan_def reconcile_write_def apply_metadata_def update_where_def
        Let_def) (simp add: sample_wanted_def create_extension_def sample_row_def apply_metadata_def update_where_def)
qed

lemma sample_listening_run:
  "run_observer (sample_platform\<lparr>parse_json := p\<rparr>) [sample_participant [(sample_turn 0 sample_nodes [])\<lparr>graph_changed := False, spun_at := 1\<rparr>]]
     None (initial_worker sample_wanted) = Inr (False, sample_listening)"
  by (simp add: worker_defs sample_participant_def sample_turn_def sample_listening_def sample_log_def sample_subscribes
      initial_worker_def from_secs_def sample_platform_def note_read_def contains_key_def)

lemma sample_listening_facts:
  "map_of (subs sample_listening) ''/t'' = Some \<lparr>live_type = ''T'', live_mailbox = empty_mailbox\<rparr>"
  "distinct (map fst (subscriptions_table sample_wanted))" "extension (store sample_listening) = Some (1, ''ros2'')"
  "subscriptions_table (store sample_listening) = [(''/t'', sample_row\<lparr>subscribed_type := Some ''T''\<rparr>)]"
  "next_message_flush sample_listening = 1" "limits sample_listening topic = message_max_bytes default_settings"
  by (simp_all add: sample_listening_def sample_wanted_def create_extension_def initial_worker_def)

lemma sample_payload:
  obtains x where "payload sample_runtime ''/t'' ''T'' 2 sample_message (message_max_bytes default_settings) = Inr x"
proof -
  have "length (render (quote sample_runtime) (envelope ''/t'' ''T'' 2 (tree_message sample_runtime sample_message))) = 81"
    by (simp add: sample_message_def envelope_def sample_runtime_def sample_escape_def DQUOTE_def
        tree_int_def show_int_def show_nat.simps digit_def)
  moreover have "81 \<le> message_max_bytes default_settings" by (simp add: message_max_bytes_def default_settings_def i32_max_def i32_as_u64_def)
  ultimately show thesis using that by (simp add: payload_Inr_iff [OF sample_quote_ok] sample_message_def)
qed

definition lenient_env :: stmt_env where
  "lenient_env = sample_env\<lparr>jsonb_error := (\<lambda>v. None)\<rparr>"

definition sample_delivery :: turn where
  "sample_delivery = (sample_turn (10 ^ 10) sample_nodes [])\<lparr>deliveries := [(''/t'', [sample_message, sample_message])],
     spun_at := 10 ^ 10, flush_env := lenient_env, reconcile_env := lenient_env, reconcile_write_env := lenient_env,
     parameters_env := lenient_env, graph_env := lenient_env, failure_env := lenient_env\<rparr>"

lemma lenient_raises: "\<not> raised lenient_env f"
  by (simp add: raised_def lenient_env_def sample_env_def)

lemma sample_delivery_facts:
  "spin_result sample_delivery (spin_time sample_delivery w) = Inr ()" "before_flush sample_delivery = []"
  "before_reconcile sample_delivery = []" "undropped sample_delivery" "flush_env sample_delivery = lenient_env"
  "ttl_config sample_delivery = default_settings" "spun_at sample_delivery = 10 ^ 10"
  "delivered sample_delivery ''/t'' = [sample_message] @ [sample_message]"
  by (simp_all add: sample_delivery_def sample_turn_def undropped_def delivered_def)

lemma sample_platform_parse: "sample_platform\<lparr>parse_json := parse_json sample_platform\<rparr> = sample_platform"
  by simp

lemma sample_delivers:
  obtains q w' w2 where "turn_step sample_platform None sample_delivery sample_listening = Inr (q, w')"
    "flush_step sample_platform sample_delivery (spin_step sample_platform sample_delivery sample_listening) = Inr w2"
    "kept sample_platform sample_delivery w2 ''/t''"
proof -
  let ?w = sample_listening and ?t = sample_delivery and ?pf = sample_platform
  note t = sample_delivery_facts
  have ok: "turns_ok True [sample_participant [(sample_turn 0 sample_nodes [])\<lparr>graph_changed := False, spun_at := 1\<rparr>]]" "turn_ok True ?t"
    by (simp_all add: turns_ok_def turn_ok_def sample_participant_def)
  from run_observer_ok [OF initial_worker_ok ok(1) sample_listening_run [of "parse_json ?pf", unfolded sample_platform_parse]]
  have w: "worker_ok True ?w" by simp
  have "\<not> sql_crash ?t s" for s
    using lenient_raises by (simp add: sql_crash_def envs_def sample_delivery_def split: stop.split)
  with turn_step_crash [OF w ok(2)] t(1) obtain q w' where step: "turn_step ?pf None ?t ?w = Inr (q, w')"
    by (cases "turn_step ?pf None ?t ?w") auto
  obtain w2 where w2: "flush_step ?pf ?t (spin_step ?pf ?t ?w) = Inr w2"
    using step by (auto simp: turn_step_def before_check_def split: sum.splits)
  have due: "next_message_flush ?w \<le> spun_at ?t" by (simp add: sample_listening_facts t)
  from w2 [unfolded flush_step_due [OF sample_listening_facts(1) due] Let_def] obtain d ts where
    f: "flush (parse_json ?pf) (flush_env ?t) (fold act (before_flush ?t) (store ?w)) (subs (spin_step ?pf ?t ?w)) = Inr (d, ts)"
    and d: "store w2 = d" by auto
  from flush_tables(1) [OF f] have "map fst (subscriptions_table d) = [''/t'']"
    by (simp add: t sample_listening_facts)
  then have "kept ?pf ?t w2 ''/t''"
    using sample_keeps_row by (auto simp: kept_def t d row_expired_def split: option.split)
  with that step w2 show thesis .
qed

lemma sample_stores:
  obtains x where "payload (strings sample_platform) ''/t'' ''T'' 2 sample_message (message_max_bytes default_settings) = Inr x"
    "parse_json sample_platform x = Inr (JString x)"
  using sample_payload by (auto simp: sample_platform_def)

theorem message_becomes_visible_witness:
  "\<exists>q w' x. turn_step sample_platform None sample_delivery sample_listening = Inr (q, w') \<and>
     map_of (messages_table (store w')) ''/t'' = Some \<lparr>cached_sequence = 2, received_at = 100, cached_body = JString x\<rparr>"
proof -
  let ?w = sample_listening and ?t = sample_delivery and ?pf = sample_platform
  note t = sample_delivery_facts and run = sample_listening_run [of "parse_json ?pf", unfolded sample_platform_parse]
  obtain q w' w2 where step: "turn_step ?pf None ?t ?w = Inr (q, w')"
    and w2: "flush_step ?pf ?t (spin_step ?pf ?t ?w) = Inr w2" "kept ?pf ?t w2 ''/t''" by (rule sample_delivers)
  obtain x where x: "payload (strings ?pf) ''/t'' ''T'' 2 sample_message (message_max_bytes default_settings) = Inr x"
    "parse_json ?pf x = Inr (JString x)" by (rule sample_stores)
  have due: "next_message_flush ?w \<le> spun_at ?t" by (simp add: sample_listening_facts t)
  have "map_of (messages_table (store w')) ''/t'' =
      Some \<lparr>cached_sequence = 2, received_at = statement_timestamp (flush_env ?t), cached_body = JString x\<rparr>"
    by (rule message_becomes_visible [OF run sample_listening_facts(2) step sample_listening_facts(1) t(8) _ _ _ due _ t(4)])
      (use x w2 in \<open>auto simp: sample_listening_facts empty_mailbox_def\<close>)
  with step show ?thesis by (auto simp: t lenient_env_def sample_env_def)
qed

theorem nul_message_stops_worker_witness:
  "\<exists>f. turn_step (sample_platform\<lparr>parse_json := (\<lambda>x. Inr (JString [CHR 0x00]))\<rparr>) None
     (sample_delivery\<lparr>flush_env := sample_env\<rparr>) sample_listening = Inl (Crash f (store sample_listening))"
proof -
  let ?w = sample_listening and ?t = "sample_delivery\<lparr>flush_env := sample_env\<rparr>"
    and ?pf = "sample_platform\<lparr>parse_json := (\<lambda>x. Inr (JString [CHR 0x00]))\<rparr>"
  have t: "spin_result ?t (spin_time ?t ?w) = Inr ()" "before_flush ?t = []" "flush_env ?t = sample_env" "spun_at ?t = 10 ^ 10"
    "delivered ?t ''/t'' = [sample_message] @ [sample_message]"
    by (simp_all add: sample_delivery_def sample_turn_def delivered_def)
  obtain x where x: "payload (strings ?pf) ''/t'' ''T'' 2 sample_message (limits ?w ''/t'') = Inr x"
    using sample_payload by (auto simp: sample_platform_def sample_listening_facts)
  have "\<exists>f. turn_step ?pf None ?t ?w = Inl (Crash f (fold act (before_flush ?t) (store ?w)))"
    by (rule nul_message_stops_worker [OF sample_listening_run sample_listening_facts(2,1) t(5) _ _ _ _ _ t(1)])
      (use x in \<open>auto simp: t sample_listening_facts empty_mailbox_def sample_refuses\<close>)
  then show ?thesis by (simp add: t)
qed

text \<open>A poll that receives a string parameter with U+0000 in its last stage.\<close>

definition sample_asking :: worker where
  "sample_asking = sample_listening\<lparr>subs := [], next_subscription_poll := 10 ^ 11, parameter_poll :=
     Some (sample_poll\<lparr>stage := Getting [1] [None] [[''a'', ''b'']]\<rparr>)\<rparr>"

definition sample_answer :: turn where
  "sample_answer = (sample_turn 0 sample_nodes [])\<lparr>tick_sees := (sample_tick 1)\<lparr>recv_get :=
     (\<lambda>p. Inr (Some [sample_value, sample_value\<lparr>type_of_parameter := 4, string_value := [CHR 0x00]\<rparr>]))\<rparr>\<rparr>"

theorem nul_parameter_stops_worker_witness:
  "\<exists>f. turn_step sample_platform None sample_answer sample_asking = Inl (Crash f (store sample_asking))"
proof -
  let ?w = sample_asking and ?t = sample_answer and ?pf = sample_platform
  let ?x = "\<lparr>param_node = ''n'', param_namespace = ''/'', param_name = ''b'', param_kind = ''string'',
    param_value = JString [CHR 0x00]\<rparr>"
  have steps: "flush_step ?pf ?t (spin_step ?pf ?t ?w) = Inr (spin_step ?pf ?t ?w)"
    "reconcile_step ?pf ?t (spin_step ?pf ?t ?w) = Inr (spin_step ?pf ?t ?w)"
    by (simp_all add: flush_step_def reconcile_step_def spin_step_def sample_asking_def sample_answer_def sample_turn_def)
  have w: "store (spin_step ?pf ?t ?w) = store ?w" "previous_parameters (spin_step ?pf ?t ?w) = None"
    "parameter_poll (spin_step ?pf ?t ?w) = Some (sample_poll\<lparr>stage := Getting [1] [None] [[''a'', ''b'']]\<rparr>)"
    by (simp_all add: spin_step_def sample_asking_def sample_listening_def initial_worker_def)
  have "\<exists>s p'. tick (numbers ?pf) (tick_sees ?t) (sample_poll\<lparr>stage := Getting [1] [None] [[''a'', ''b'']]\<rparr>) =
      Inr (Some s, p') \<and> ?x \<in> set s"
    by (simp add: tick_def sample_poll_def sample_answer_def sample_turn_def sample_tick_def as_text_def unwrap_def
        node_parameters_def kind_and_value_def sample_value_def)
  then obtain s p' where tick: "tick (numbers ?pf) (tick_sees ?t) (sample_poll\<lparr>stage := Getting [1] [None] [[''a'', ''b'']]\<rparr>) =
      Inr (Some s, p')" "?x \<in> set s" by blast
  have t: "spin_result ?t (spin_time ?t ?w) = Inr ()" "before_parameters ?t = []" "parameters_env ?t = sample_env"
    by (simp_all add: sample_answer_def sample_turn_def)
  have "\<exists>f. turn_step ?pf None ?t ?w = Inl (Crash f (fold act (before_parameters ?t) (store (spin_step ?pf ?t ?w))))"
    by (rule nul_parameter_stops_worker [OF t(1) steps w(3) tick(1) _ _ _ tick(2)])
      (simp_all add: t w sample_refuses, simp add: sample_asking_def sample_listening_facts)
  then show ?thesis by (simp add: t w)
qed

definition sample_polling :: turn where
  "sample_polling = (sample_turn 0 sample_nodes [])\<lparr>graph_changed := False, spun_at := 1\<rparr>"

definition sample_begun :: worker where
  "sample_begun = announce (sample_participant []) (begin_session (sample_participant []) (initial_worker sample_wanted))"

lemma sample_begun_run:
  "run_observer sample_platform [sample_participant []] None (initial_worker sample_wanted) = Inr (False, sample_begun)"
  by (simp add: run_session_def sample_participant_def sample_begun_def)

lemma sample_polls: "turn_step sample_platform None sample_polling sample_begun = Inr (None, sample_listening)"
  by (simp add: worker_defs sample_participant_def sample_turn_def sample_listening_def sample_subscribes sample_polling_def
      sample_log_def sample_begun_def initial_worker_def from_secs_def sample_platform_def note_read_def contains_key_def)

theorem worker_follows_table_witness:
  "contains_key (subs sample_listening) ''/t'' \<and> \<not> contains_key (subs sample_listening) ''/u'' \<and>
    limits sample_listening ''/t'' = message_max_bytes default_settings"
proof -
  let ?w1 = "spin_step sample_platform sample_polling sample_begun"
  have flush: "flush_step sample_platform sample_polling ?w1 = Inr ?w1"
    by (simp add: flush_step_def spin_step_def sample_begun_def begin_session_def Let_def log_event_def sample_polling_def
        sample_turn_def)
  have w: "store sample_begun = sample_wanted" "subs sample_begun = []" "next_subscription_poll sample_begun = 1"
    by (simp_all add: sample_begun_def begin_session_def Let_def initial_worker_def log_event_def sample_participant_def)
  have t: "spun_at sample_polling = 1" "read_failure sample_polling = None" "before_reconcile sample_polling = []"
    "ttl_config sample_polling = default_settings" "limit_config sample_polling k = default_settings" "ros_node sample_polling = sample_ros" for k
    by (simp_all add: sample_polling_def sample_turn_def)
  have due: "next_subscription_poll sample_begun \<le> spun_at sample_polling"
    and ext: "extension (fold act (before_reconcile sample_polling) (store ?w1)) \<noteq> None"
    by (simp_all add: w t) (simp add: sample_wanted_def create_extension_def)
  have "Messages.subscribe sample_ros ''/t'' (Some ''T'') = Inr \<lparr>live_type = ''T'', live_mailbox = empty_mailbox\<rparr>"
    by (simp add: subscribe_def sample_ros_def described_def)
  moreover have "subscriptions_table sample_wanted = [(''/t'', sample_row)]" "requested_type sample_row = Some ''T''"
    by (simp_all add: sample_wanted_def create_extension_def sample_row_def)
  ultimately show ?thesis
    using worker_follows_table [OF sample_begun_run sample_listening_facts(2) sample_polls flush due t(2) ext, of "''/t''"]
      worker_follows_table [OF sample_begun_run sample_listening_facts(2) sample_polls flush due t(2) ext, of "''/u''"]
      sample_keeps_row by (simp add: w t row_expired_def contains_key_def)
qed

end
