(* ===== verification/Restart.thy ===== *)
theory Restart
  imports Delivery
begin

text \<open>
  The lives of the worker. \<open>_PG_init\<close> of \<open>src/lib.rs\<close> asks the postmaster to start a worker that failed again,
  so the database goes through one \<open>graph_worker_main\<close> after the other, each of which may stop in any of
  its transactions. An invariant of the database is a locale, whose laws are about the single writes of
  the worker; its lemmas lift them to turns, to runs with any crash, and to all lives.
\<close>

section \<open>Invariants of the database\<close>

text \<open>What a turn can read from ROS: the snapshots of the graph, and the lists of parameters a poll delivers.\<close>

definition reads_within :: "(snapshot \<Rightarrow> bool) \<Rightarrow> (parameter list \<Rightarrow> bool) \<Rightarrow> platform \<Rightarrow> turn \<Rightarrow> bool" where
  "reads_within graph_ok params_ok pf t \<longleftrightarrow> (\<forall>s. read_by pf t = Inr s \<longrightarrow> graph_ok s) \<and>
     (\<forall>p s p'. tick (numbers pf) (tick_sees t) p = Inr (Some s, p') \<longrightarrow> params_ok s)"

text \<open>A property of the database that a step leaves, whether it stops the worker or not.\<close>

definition leaves :: "(database \<Rightarrow> bool) \<Rightarrow> ('a \<Rightarrow> database) \<Rightarrow> stop + 'a \<Rightarrow> bool" where
  "leaves Q db r \<longleftrightarrow> (case r of Inl s \<Rightarrow> Q (left_behind s) | Inr a \<Rightarrow> Q (db a))"

lemma leaves_simps [simp]: "leaves Q db (Inl s) = Q (left_behind s)" "leaves Q db (Inr a) = Q (db a)"
  by (simp_all add: leaves_def)

lemma leaves_and_then: "leaves Q db r \<Longrightarrow> (\<And>a. r = Inr a \<Longrightarrow> Q (db a) \<Longrightarrow> leaves Q db' (f a)) \<Longrightarrow> leaves Q db' (and_then r f)"
  by (cases r) simp_all

lemma leaves_map_res: "leaves Q db (map_res f r) = leaves Q (db \<circ> f) r"
  by (cases r) simp_all

locale database_invariant =
  fixes Q :: "database \<Rightarrow> bool" and graph_ok :: "snapshot \<Rightarrow> bool" and params_ok :: "parameter list \<Rightarrow> bool"
    and pf :: platform
  assumes acts: "Q d \<Longrightarrow> Q (act a d)"
    and flushes: "Q d \<Longrightarrow> flush from_str env d ts = Inr (d', ts') \<Longrightarrow> Q d'"
    and reconciles: "Q d \<Longrightarrow> Q (reconcile_write p removed d)"
    and saves_graph: "Q d \<Longrightarrow> (\<And>s. r = Inr s \<Longrightarrow> graph_ok s) \<Longrightarrow> persist_snapshot env r old ext d = (i, d') \<Longrightarrow> Q d'"
    and saves_parameters: "Q d \<Longrightarrow> (\<And>s. r' = Inr s \<Longrightarrow> params_ok s) \<Longrightarrow>
      persist env r' old' ext d = Inr (i, d') \<Longrightarrow> Q d'"
begin

lemma acts_all: "Q d \<Longrightarrow> Q (fold act as d)"
  by (induction as arbitrary: d) (simp_all add: acts)

lemma flush_leaves:
  assumes "Q (store w)"
  shows "leaves Q store (flush_step pf t w)"
proof -
  let ?d = "fold act (before_flush t) (store w)"
  have d: "Q ?d" by (rule acts_all [OF assms])
  show ?thesis
  proof (cases "flush (parse_json pf) (flush_env t) ?d (subs w)")
    case (Inl f)
    then show ?thesis using assms d by (simp add: flush_step_def crash_in_def Let_def)
  next
    case (Inr x)
    obtain d' ts where x: "x = (d', ts)" by (cases x)
    show ?thesis using assms flushes [OF d Inr [unfolded x]] by (simp add: flush_step_def Inr x crash_in_def Let_def)
  qed
qed

lemma reconcile_leaves:
  assumes "Q (store w)"
  shows "leaves Q store (reconcile_step pf t w)"
proof -
  let ?d = "fold act (before_reconcile t) (store w)" and ?m = "fold act (within_reconcile t)"
  have d: "Q ?d" "Q (?m ?d)" using acts_all [OF assms] by (simp_all add: acts_all)
  show ?thesis
  proof (cases "reconcile (ttl_config t) (ros_node t) (interval pf) (reconcile_env t) (reconcile_write_env t) (read_failure t)
      ?m ?d (subs w)")
    case (Inl x)
    obtain f d' where x: "x = (f, d')" by (cases x)
    from reconcile_fails [OF Inl [unfolded x]] d have "Q d'" by auto
    then show ?thesis using assms by (simp add: reconcile_step_def Inl x)
  next
    case (Inr x)
    obtain r d' ts where x: "x = (r, d', ts)" by (rule prod_cases3)
    have "d' = ?m ?d \<or> (\<exists>p removed. d' = reconcile_write p removed (?m ?d))"
      using Inr [unfolded x] by (auto simp: reconcile_def Let_def split: sum.splits prod.splits if_splits)
    with d reconciles have "Q d'" by auto
    then show ?thesis using assms by (simp add: reconcile_step_def Inr x)
  qed
qed

text \<open>Saving the result of a poll, in a transaction.\<close>

lemma persist_leaves:
  assumes "Q d" and "\<And>s. r = Inr s \<Longrightarrow> params_ok s" and "\<And>i d'. Q d' \<Longrightarrow> Q (store (g (i, d')))"
  shows "leaves Q store (map_res g (crash_in d (transaction env (persist env r old ext d))))"
proof (cases "transaction env (persist env r old ext d)")
  case (Inr x)
  obtain i d' where x: "x = (i, d')" by (cases x)
  from Inr x have "persist env r old ext d = Inr (i, d')" by simp
  from saves_parameters [OF assms(1,2) this] assms(3) show ?thesis by (simp add: Inr x crash_in_def)
qed (use assms(1) in \<open>simp add: crash_in_def\<close>)

lemma parameter_leaves:
  assumes "Q (store w)" and "reads_within graph_ok params_ok pf t"
  shows "leaves Q store (parameter_step pf t w)"
proof (cases "parameter_poll w")
  case (Some p)
  have d: "Q (fold act (before_parameters t) (store w))" by (rule acts_all [OF assms(1)])
  show ?thesis
  proof (cases "tick (numbers pf) (tick_sees t) p")
    case (Inl f)
    show ?thesis
    proof (cases f)
      case (Err e)
      show ?thesis unfolding parameter_step_def Some Inl Err Let_def option.case sum.case fault.case
        by (rule persist_leaves [OF d]) simp_all
    qed (simp add: parameter_step_def Some Inl assms(1) Let_def)
  next
    case (Inr x)
    obtain r p' where x: "x = (r, p')" by (cases x)
    show ?thesis
    proof (cases r)
      case (Some s)
      have "params_ok s" using assms(2) Inr x Some by (auto simp: reads_within_def)
      then show ?thesis unfolding parameter_step_def \<open>parameter_poll w = Some p\<close> Inr x Some Let_def option.case sum.case prod.case
        by (intro persist_leaves [OF d]) simp_all
    qed (simp add: parameter_step_def Some Inr x assms(1) Let_def)
  qed
qed (simp add: parameter_step_def assms(1))

lemma start_leaves:
  assumes "Q (store w)"
  shows "leaves Q store (start_step t s w)"
proof (cases rule: start_step_cases [of t s w])
  case (saving x)
  show ?thesis unfolding saving by (rule persist_leaves) (simp_all add: acts_all assms)
qed (simp add: assms)

lemma graph_leaves:
  assumes "Q (store w)" and "reads_within graph_ok params_ok pf t"
  shows "leaves Q (store \<circ> snd) (graph_step pf reinit_after t w)"
proof (cases "sql_error (graph_env t)")
  case None
  obtain i d where run: "persist_snapshot (graph_env t) (described (read_by pf t)) (previous w) (extension_oid w)
      (fold act (before_graph t) (store w)) = (i, d)" by (rule prod.exhaust)
  have "graph_ok s" if "described (read_by pf t) = Inr s" for s
    using that assms(2) by (auto simp: described_def reads_within_def split: sum.splits)
  from saves_graph [OF acts_all [OF assms(1)] this run] have d: "Q d" .
  have "leaves Q store (map_res (\<lambda>w. w\<lparr>previous := p\<rparr>) (start_step t s (note_emptiness t x ((noted_error pf t w)\<lparr>store := d\<rparr>))))" for s x p
    using start_leaves [of "note_emptiness t x ((noted_error pf t w)\<lparr>store := d\<rparr>)" t s] d by (simp add: leaves_map_res comp_def)
  then show ?thesis unfolding graph_step_eq [OF None run]
    using d by (auto simp: leaves_map_res comp_def finished_def split: sum.split)
next
  case (Some e)
  show ?thesis by (simp add: graph_step_fails [OF Some] acts_all assms(1))
qed

lemma turn_leaves:
  assumes "Q (store w)" and "reads_within graph_ok params_ok pf t"
  shows "leaves Q (store \<circ> snd) (turn_step pf reinit_after t w)"
proof -
  have "leaves Q store (before_check pf t w)"
    unfolding before_check_def
    by (rule leaves_and_then [OF flush_leaves], simp add: assms(1))
      (rule leaves_and_then [OF reconcile_leaves], assumption, rule parameter_leaves [OF _ assms(2)])
  then show ?thesis using assms(1) graph_leaves [OF _ assms(2)]
    by (auto simp: turn_step_def check_step_def split: sum.split intro!: leaves_and_then)
qed

end

sublocale database_invariant \<subseteq> runs: worker_invariant "\<lambda>w. Q (store w)" "reads_within graph_ok params_ok pf" pf
proof unfold_locales
  fix w t reinit_after q w'
  assume "Q (store w)" and "reads_within graph_ok params_ok pf t" and "turn_step pf reinit_after t w = Inr (q, w')"
  with turn_leaves [of w t reinit_after] show "Q (store w')" by simp
qed (simp_all add: begin_session_def Let_def)

section \<open>The lives of the worker\<close>

text \<open>
  A life: what other sessions do before it starts, the settings it starts with, the transaction that sets
  it up, its sessions, and the transaction that reports its error.
\<close>

record life =
  meantime :: "other list"
  config_at_start :: settings
  setup_env :: stmt_env
  lived :: "participant list"
  report_env :: stmt_env

text \<open>
  \<open>set_restart_time\<close>: whatever ended a life, a panic, a reported error or a shutdown of the server, the next
  one starts from the database it left.
\<close>

fun worker_lives :: "platform \<Rightarrow> life list \<Rightarrow> database \<Rightarrow> database" where
  "worker_lives pf [] d = d"
| "worker_lives pf (l # ls) d =
     worker_lives pf ls
       (snd (graph_worker_main pf (lived l) (config_at_start l) (setup_env l) (report_env l) (fold act (meantime l) d)))"

definition turns_of :: "life list \<Rightarrow> turn set" where
  "turns_of ls = (\<Union>l \<in> set ls. \<Union>q \<in> set (lived l). set (turns q))"

context database_invariant
begin

lemma main_leaves:
  assumes "Q d" and "list_all (\<lambda>q. list_all (reads_within graph_ok params_ok pf) (turns q)) qs"
  shows "Q (snd (graph_worker_main pf qs s env env' d))"
proof (cases "run_observer pf qs (configured_reinit_after s) (initial_worker d)")
  case (Inl x)
  have "Q (store (initial_worker d))" using assms(1) by (simp add: initial_worker_def)
  from runs.run_ends [OF this assms(2) Inl] have d: "Q (left_behind x)"
  proof (elim disjE exE bexE conjE)
    fix q t w r
    assume "q \<in> set qs" and "t \<in> set (turns q)" and "Q (store w)" and "turn_step pf r t w = Inl x"
    with turn_leaves [of w t r] assms(2) show ?thesis by (auto simp: list_all_iff)
  qed simp
  show ?thesis
  proof (cases x)
    case (ObserverError e d')
    obtain i d'' where run: "persist_snapshot env' (Inl (describe e)) None None d' = (i, d'')" by (rule prod.exhaust)
    have "Q d''" by (rule saves_graph [OF _ _ run]) (use d ObserverError in simp_all)
    with d assms(1) Inl run ObserverError show ?thesis by (simp add: graph_worker_main_def transaction_def split: sum.split option.split)
  next
    case (Crash f d')
    with d assms(1) Inl show ?thesis by (simp add: graph_worker_main_def split: sum.split)
  qed
next
  case (Inr x)
  obtain b w where x: "x = (b, w)" by (cases x)
  have "Q (store w)"
    by (rule runs.run_keeps [OF _ assms(2) Inr [unfolded x]]) (simp add: assms(1) initial_worker_def)
  then show ?thesis using assms(1) Inr x by (simp add: graph_worker_main_def split: sum.split)
qed

lemma lives_leave: "Q d \<Longrightarrow> \<forall>t \<in> turns_of ls. reads_within graph_ok params_ok pf t \<Longrightarrow> Q (worker_lives pf ls d)"
proof (induction ls arbitrary: d)
  case (Cons l ls)
  have "Q (snd (graph_worker_main pf (lived l) (config_at_start l) (setup_env l) (report_env l) (fold act (meantime l) d)))"
    by (rule main_leaves [OF acts_all [OF Cons.prems(1)]]) (use Cons.prems(2) in \<open>auto simp: turns_of_def list_all_iff\<close>)
  from Cons.IH [OF this] Cons.prems(2) show ?case by (simp add: turns_of_def)
qed simp

end

section \<open>Tables are never torn\<close>

definition graph_within :: "(snapshot \<Rightarrow> bool) \<Rightarrow> (string \<times> string + string \<times> string) list \<Rightarrow> database \<Rightarrow> bool" where
  "graph_within graph_ok old d \<longleftrightarrow> graph_rows d = old \<or> graph_rows d = [] \<or> (\<exists>s. graph_ok s \<and> graph_rows d = graph_image s)"

definition parameters_within ::
  "(parameter list \<Rightarrow> bool) \<Rightarrow> (string \<times> string \<times> string \<times> string \<times> json) list \<Rightarrow> database \<Rightarrow> bool"
where
  "parameters_within params_ok old d \<longleftrightarrow>
     parameter_rows d = old \<or> parameter_rows d = [] \<or> (\<exists>s. params_ok s \<and> parameter_rows d = parameter_image s)"

lemma act_caches:
  "graph_rows (act a d) = graph_rows d \<and> parameter_rows (act a d) = parameter_rows d \<or>
   graph_rows (act a d) = [] \<and> parameter_rows (act a d) = []"
  by (cases a) (simp_all add: Let_def graph_rows_def parameter_rows_def no_extension_def create_extension_def)

lemma reconcile_write_caches: "same_caches d (reconcile_write p removed d)"
  by (auto simp: reconcile_write_def Let_def same_caches_def graph_rows_def parameter_rows_def split: option.split)

lemma persist_snapshot_graph:
  "persist_snapshot env r old ext d = (i, d') \<Longrightarrow> graph_rows d' = graph_rows d \<or> (\<exists>s. r = Inr s \<and> graph_rows d' = graph_image s)"
  by (auto simp: persist_snapshot_def Let_def split: option.splits sum.splits if_splits)

lemma persist_parameters:
  assumes "persist env r old ext d = Inr (i, d')"
  shows "parameter_rows d' = parameter_rows d \<or> (\<exists>s. r = Inr s \<and> parameter_rows d' = parameter_image s)"
proof (cases "extension d")
  case (Some e)
  obtain j schema where "e = (j, schema)" by (cases e)
  with parameter_store.saved [OF _ assms] Some show ?thesis by (auto split: sum.splits if_splits)
qed (use assms parameter_store.absent in auto)

interpretation graph_kept: database_invariant "graph_within graph_ok old" graph_ok "\<lambda>s. True" pf for graph_ok old pf
proof unfold_locales
  show "graph_within graph_ok old d \<Longrightarrow> graph_within graph_ok old (act a d)" for d a
    using act_caches [of a d] by (auto simp: graph_within_def)
  show "graph_within graph_ok old d \<Longrightarrow> graph_within graph_ok old (reconcile_write p removed d)" for d p removed
    using reconcile_write_caches [of d p removed] by (simp add: graph_within_def same_caches_def)
next
  fix d d' :: database and env from_str ts ts'
  assume "graph_within graph_ok old d" and "flush from_str env d ts = Inr (d', ts')"
  with flush_caches [OF this(2)] show "graph_within graph_ok old d'" by (simp add: graph_within_def same_caches_def)
next
  fix d d' :: database and env r old' ext i
  assume "graph_within graph_ok old d" and "\<And>s. r = Inr s \<Longrightarrow> graph_ok s"
    and "persist_snapshot env r old' ext d = (i, d')"
  with persist_snapshot_graph [OF this(3)] show "graph_within graph_ok old d'" by (auto simp: graph_within_def)
next
  fix d d' :: database and env r old' ext i
  assume "graph_within graph_ok old d" and "persist env r old' ext d = Inr (i, d')"
  with persist_keeps_graph [OF this(2)] show "graph_within graph_ok old d'" by (simp add: graph_within_def)
qed

interpretation parameters_kept: database_invariant "parameters_within params_ok old" "\<lambda>s. True" params_ok pf for params_ok old pf
proof unfold_locales
  show "parameters_within params_ok old d \<Longrightarrow> parameters_within params_ok old (act a d)" for d a
    using act_caches [of a d] by (auto simp: parameters_within_def)
  show "parameters_within params_ok old d \<Longrightarrow> parameters_within params_ok old (reconcile_write p removed d)" for d p removed
    using reconcile_write_caches [of d p removed] by (simp add: parameters_within_def same_caches_def)
next
  fix d d' :: database and env from_str ts ts'
  assume "parameters_within params_ok old d" and "flush from_str env d ts = Inr (d', ts')"
  with flush_caches [OF this(2)] show "parameters_within params_ok old d'" by (simp add: parameters_within_def same_caches_def)
next
  fix d d' :: database and env r old' ext i
  assume "parameters_within params_ok old d" and "persist_snapshot env r old' ext d = (i, d')"
  with persist_snapshot_keeps_parameters [OF this(2)] show "parameters_within params_ok old d'"
    by (simp add: parameters_within_def)
next
  fix d d' :: database and env r old' ext i
  assume "parameters_within params_ok old d" and "\<And>s. r = Inr s \<Longrightarrow> params_ok s"
    and "persist env r old' ext d = Inr (i, d')"
  with persist_parameters [OF this(3)] show "parameters_within params_ok old d'" by (auto simp: parameters_within_def)
qed

text \<open>
  C4. No crash tears a table. After any number of lives of the worker, each ended by a panic in any of its
  transactions or an error of ROS at any point, \<open>ros2.nodes\<close> and \<open>ros2.topics\<close> together hold their first
  rows, nothing, or exactly one snapshot that one turn read, never parts of two; \<open>ros2.parameters\<close>
  holds its first rows, nothing, or exactly one list that one poll could deliver.
\<close>

theorem tables_never_torn:
  "(graph_rows (worker_lives pf ls d) = graph_rows d \<or> graph_rows (worker_lives pf ls d) = [] \<or>
      (\<exists>t \<in> turns_of ls. \<exists>s. read_by pf t = Inr s \<and> graph_rows (worker_lives pf ls d) = graph_image s)) \<and>
    (parameter_rows (worker_lives pf ls d) = parameter_rows d \<or> parameter_rows (worker_lives pf ls d) = [] \<or>
      (\<exists>t \<in> turns_of ls. \<exists>p s p'. tick (numbers pf) (tick_sees t) p = Inr (Some s, p') \<and>
        parameter_rows (worker_lives pf ls d) = parameter_image s))"
proof -
  let ?g = "\<lambda>s. \<exists>t \<in> turns_of ls. read_by pf t = Inr s"
  let ?p = "\<lambda>s. \<exists>t \<in> turns_of ls. \<exists>p p'. tick (numbers pf) (tick_sees t) p = Inr (Some s, p')"
  have "graph_within ?g (graph_rows d) (worker_lives pf ls d)"
    by (rule graph_kept.lives_leave) (auto simp: graph_within_def reads_within_def)
  moreover have "parameters_within ?p (parameter_rows d) (worker_lives pf ls d)"
    by (rule parameters_kept.lives_leave) (auto simp: parameters_within_def reads_within_def)
  ultimately show ?thesis by (auto simp: graph_within_def parameters_within_def)
qed

section \<open>Primary keys\<close>

text \<open>The tables obey their primary keys, and without the extension there is no table.\<close>

definition tables_ok :: "database \<Rightarrow> bool" where
  "tables_ok d \<longleftrightarrow> distinct (map fst (subscriptions_table d)) \<and> distinct (map fst (messages_table d)) \<and>
     distinct (map row_key (parameters_table d)) \<and> (extension d = None \<longrightarrow> d = no_extension)"

lemma act_tables: "tables_ok d \<Longrightarrow> tables_ok (act a d)"
  by (cases a) (auto simp: tables_ok_def Let_def no_extension_def create_extension_def)

lemma put_all_keyed: "distinct (map fst t) \<Longrightarrow> distinct (map fst (topic_table.put_all rs t))"
  by (induction rs arbitrary: t) (auto simp: topic_table.put_all_def topic_table.keyed_put split: prod.splits)

lemma flush_tables_ok:
  assumes "tables_ok d" and "flush from_str env d ts = Inr (d', ts')"
  shows "tables_ok d'"
proof (cases "extension d")
  case None
  with flush_absent [OF None assms(2)] assms(1) show ?thesis by simp
next
  case (Some e)
  from flush_tables [OF assms(2) Some] Some assms(1) show ?thesis by (simp add: tables_ok_def put_all_keyed)
qed

lemma reconcile_write_tables: "tables_ok d \<Longrightarrow> tables_ok (reconcile_write p removed d)"
  using reconcile_write_keys [of d p removed] topic_table.keyed_remove_all [of "messages_table d" "removed @ plan_expired p"]
  by (auto simp: tables_ok_def reconcile_write_def Let_def topic_table.remove_all_def split: option.splits)

lemma persist_snapshot_tables: "tables_ok d \<Longrightarrow> persist_snapshot env r old ext d = (i, d') \<Longrightarrow> tables_ok d'"
  by (auto simp: tables_ok_def persist_snapshot_def Let_def split: option.splits sum.splits if_splits)

lemma insert_parameter_keyed:
  "distinct (map row_key t) \<Longrightarrow> insert_parameter env p t = Inr t' \<Longrightarrow> distinct (map row_key t')"
  by (auto simp: insert_parameter_eq split: option.splits if_splits)

lemma insert_parameters_keyed:
  "distinct (map row_key t) \<Longrightarrow> fold_res (insert_parameter env) ps t = Inr t' \<Longrightarrow> distinct (map row_key t')"
  by (induction ps arbitrary: t) (auto dest: insert_parameter_keyed split: sum.splits)

lemma persist_tables: "tables_ok d \<Longrightarrow> persist env r old ext d = Inr (i, d') \<Longrightarrow> tables_ok d'"
  using insert_parameters_keyed [of "[]"]
  by (auto simp: tables_ok_def persist_def Let_def split: option.splits sum.splits if_splits)

interpretation keys_kept: database_invariant tables_ok "\<lambda>s. True" "\<lambda>s. True" pf for pf
  by unfold_locales
    (blast intro: act_tables flush_tables_ok reconcile_write_tables persist_snapshot_tables persist_tables)+

text \<open>
  C14. The primary keys hold through every crash: over any lives of the worker no topic gets a second row
  in \<open>ros2.subscriptions\<close> or \<open>ros2.messages\<close>, no parameter a second row in \<open>ros2.parameters\<close>, and the
  worker never writes a row while the extension is not installed.
\<close>

theorem keys_survive_crashes:
  assumes "tables_ok d"
  shows "tables_ok (worker_lives pf ls d)"
  using assms by (rule keys_kept.lives_leave) (simp add: reads_within_def)

text \<open>A life that ends when the transaction for the graph runs into the lock timeout.\<close>

definition sample_life :: life where
  "sample_life = \<lparr>meantime = [], config_at_start = default_settings, setup_env = sample_env,
     lived = [sample_participant [sample_timeout]], report_env = sample_env\<rparr>"

theorem keys_survive_crashes_witness:
  "tables_ok (worker_lives sample_platform [sample_life, sample_life] sample_wanted)"
  by (rule keys_survive_crashes) (simp add: tables_ok_def sample_wanted_def create_extension_def)

section \<open>The report of an error\<close>

text \<open>
  An error of ROS is reported before the worker fails: \<open>worker_status\<close> then holds its text with all
  its causes and keeps the time of the last refresh, and the tables of the graph stay as they were.
\<close>

lemma observer_error_reported:
  assumes "worker_database s = Inr name" and "sql_error env = None" and "sql_error env' = None"
    and "run_observer pf qs (configured_reinit_after s) (initial_worker d) = Inl (ObserverError e d')"
    and "extension d' = Some (i, schema)"
  shows "\<exists>d''. graph_worker_main pf qs s env env' d = (Inr (Inl (describe e)), d'') \<and>
    worker_status d'' = Some \<lparr>st_worker_pid = backend_pid env', st_last_checked = statement_timestamp env',
      st_last_refreshed = Option.bind (worker_status d') st_last_refreshed, st_last_error = Some (describe e)\<rparr> \<and>
    graph_rows d'' = graph_rows d' \<and> parameter_rows d'' = parameter_rows d' \<and>
    subscriptions_table d'' = subscriptions_table d' \<and> messages_table d'' = messages_table d'"
  using assms(1-3,5)
  by (cases "worker_status d'")
    (simp_all add: graph_worker_main_def assms(4) transaction_def persist_snapshot_def upsert_status_def Let_def parameter_rows_def)

end
