(* ===== verification/Clients.thy ===== *)
theory Clients
  imports Delivery
begin

text \<open>
  The statements by which a client uses \<open>ros2.subscriptions\<close>, with the column defaults of \<open>src/lib.rs\<close>, as
  actions of other sessions in the turns of the worker, and the way from the \<open>INSERT\<close> of a topic to its
  messages.
\<close>

section \<open>The statements\<close>

text \<open>
  \<open>INSERT INTO ros2.subscriptions (topic_name, requested_type) .. ON CONFLICT (topic_name) DO NOTHING\<close>,
  \<open>UPDATE .. SET keepalive_at = statement_timestamp() WHERE topic_name = ..\<close> and
  \<open>DELETE .. WHERE topic_name = ..\<close>.
\<close>

datatype client =
    Register string "string option"
  | Renew string
  | Unregister string

text \<open>
  The row of an \<open>INSERT\<close>: both times default to \<open>statement_timestamp()\<close>, the other columns to null.
\<close>

definition new_subscription :: "timestamp \<Rightarrow> string option \<Rightarrow> subscription" where
  "new_subscription now requested =
     \<lparr>requested_type = requested, subscribed_type = None, registered_at = now, keepalive_at = now,
      last_message_at = None, subscription_error = None\<rparr>"

fun client_edit :: "timestamp \<Rightarrow> client \<Rightarrow> (string \<times> subscription) list \<Rightarrow> (string \<times> subscription) list" where
  "client_edit now (Register topic requested) t =
     (if topic \<in> fst ` set t then t else t @ [(topic, new_subscription now requested)])"
| "client_edit now (Renew topic) t = update_where topic (\<lambda>r. r\<lparr>keepalive_at := now\<rparr>) t"
| "client_edit now (Unregister topic) t = delete_where topic t"

lemma client_edit_keys: "distinct (map fst t) \<Longrightarrow> distinct (map fst (client_edit now c t))"
  by (cases c) (auto simp: delete_where_keys)

lemma client_edit_row:
  "map_of (client_edit now c t) topic =
     (case c of
        Register k requested \<Rightarrow>
          (if k = topic \<and> map_of t topic = None then Some (new_subscription now requested) else map_of t topic)
      | Renew k \<Rightarrow> (if k = topic then map_option (\<lambda>r. r\<lparr>keepalive_at := now\<rparr>) (map_of t topic) else map_of t topic)
      | Unregister k \<Rightarrow> (if k = topic then None else map_of t topic))"
proof (cases c)
  case (Register k requested)
  have "j \<in> fst ` set t \<longleftrightarrow> map_of t j \<noteq> None" for j by (simp add: map_of_eq_None_iff)
  then show ?thesis by (simp add: Register map_add_def del: map_of_eq_None_iff split: option.split)
qed (simp_all add: map_of_update_where map_of_delete_where)

definition client_act :: "timestamp \<Rightarrow> client \<Rightarrow> other" where
  "client_act now c = Edit (client_edit now c)"

lemma client_acts:
  assumes "extension d \<noteq> None" and "distinct (map fst (subscriptions_table d))"
  shows "act (client_act now c) d = d\<lparr>subscriptions_table := client_edit now c (subscriptions_table d)\<rparr>"
  using assms(1) client_edit_keys [OF assms(2), of now c] by (simp add: client_act_def Let_def del: not_None_eq)

section \<open>From the INSERT to the message\<close>

text \<open>The extension stays installed through a turn in which nobody drops it.\<close>

lemma flush_step_installed:
  assumes "flush_step pf t w = Inr w'" and "undropped t" and "extension (store w) \<noteq> None"
  shows "extension (store w') \<noteq> None"
  using assms(1,3) undropped_acts(1) [OF assms(2,3)]
  by (auto simp: flush_step_def Let_def same_messages_def same_caches_def split: if_splits dest!: flush_caches)

lemma reconcile_step_installed:
  assumes "reconcile_step pf t w = Inr w'" and "undropped t" and "extension (store w) \<noteq> None"
  shows "extension (store w') \<noteq> None"
proof (cases "next_subscription_poll w \<le> spun_at t")
  case True
  let ?d = "fold act (before_reconcile t) (store w)"
  have d: "extension ?d \<noteq> None" using undropped_acts(2) [OF assms(2,3)] assms(3) by (simp add: same_messages_def)
  from assms(1) True obtain r d ts where run: "reconcile (ttl_config t) (ros_node t) (interval pf) (reconcile_env t)
      (reconcile_write_env t) (read_failure t) (fold act (within_reconcile t)) ?d (subs w) = Inr (r, d, ts)"
    and w': "store w' = d" by (auto simp: reconcile_step_def split: sum.splits)
  show ?thesis using reconcile_caches [OF run] undropped_acts(3) [OF assms(2) d] d
    by (simp add: w' same_caches_def same_messages_def)
qed (use assms in \<open>simp add: reconcile_step_def\<close>)

lemma turn_installed:
  assumes "turn_step pf reinit_after t w = Inr (q, w')" and "undropped t" and "extension (store w) \<noteq> None"
  shows "extension (store w') \<noteq> None"
proof -
  obtain w4 where w4: "before_check pf t w = Inr w4"
    and w': "w' = w4 \<or> graph_step pf reinit_after t (w4\<lparr>dirty := False\<rparr>) = Inr (q, w')"
    using assms(1) by (cases rule: turn_step_cases) auto
  from w4 obtain w2 w3 where steps: "flush_step pf t (spin_step pf t w) = Inr w2" "reconcile_step pf t w2 = Inr w3"
    "parameter_step pf t w3 = Inr w4" by (rule before_check_steps)
  have "extension (store w3) \<noteq> None"
    using reconcile_step_installed [OF steps(2) assms(2)] flush_step_installed [OF steps(1) assms(2)] assms(3) by simp
  with parameter_step_messages [OF steps(3) assms(2)] have "extension (store (w4\<lparr>dirty := False\<rparr>)) \<noteq> None"
    by (simp add: same_messages_def)
  with w' graph_step_messages [OF _ assms(2) this] show ?thesis by (fastforce simp: same_messages_def)
qed

lemma subscribe_mailbox: "Messages.subscribe node topic requested = Inr l \<Longrightarrow> live_mailbox l = empty_mailbox"
  by (auto simp: Messages.subscribe_def split: sum.splits)

text \<open>A flush keeps the rows of \<open>ros2.subscriptions\<close> for the same topics.\<close>

lemma flush_step_rows:
  assumes "flush_step pf t w = Inr w'" and "before_flush t = []"
  shows "map fst (subscriptions_table (store w')) = map fst (subscriptions_table (store w))"
proof (cases "subs w \<noteq> [] \<and> next_message_flush w \<le> spun_at t")
  case True
  with assms obtain d ts where run: "flush (parse_json pf) (flush_env t) (store w) (subs w) = Inr (d, ts)"
    and w': "store w' = d" by (auto simp: flush_step_def Let_def)
  show ?thesis using flush_tables(1) [OF run] flush_absent [OF _ run] by (cases "extension (store w)") (auto simp: w')
qed (use assms in \<open>simp only: flush_step_def if_False sum.inject\<close>)

text \<open>
  A live topic stays live through a turn, with its type and its byte limit, and counts the messages, unless a
  reconciliation finds its row deleted or expired.
\<close>

definition reconcile_keeps :: "platform \<Rightarrow> turn \<Rightarrow> worker \<Rightarrow> string \<Rightarrow> bool" where
  "reconcile_keeps pf t w topic \<longleftrightarrow> (next_subscription_poll w \<le> spun_at t \<longrightarrow>
     (case flush_step pf t (spin_step pf t w) of Inl s \<Rightarrow> False | Inr w' \<Rightarrow> kept pf t w' topic))"

definition listens :: "string \<Rightarrow> string \<Rightarrow> nat \<Rightarrow> u64 \<Rightarrow> worker \<Rightarrow> bool" where
  "listens topic ty bytes n w \<longleftrightarrow> limits w topic = bytes \<and>
     (\<exists>l. map_of (subs w) topic = Some l \<and> live_type l = ty \<and> mb_sequence (live_mailbox l) = n)"

lemma spin_step_listens:
  "listens topic ty bytes n w \<Longrightarrow> listens topic ty bytes (n + of_nat (length (delivered t topic))) (spin_step pf t w)"
  using deliver_all [of "subs w" topic _ pf "limits w" "deliveries t"]
  by (auto simp: listens_def spin_step_def delivered_def callbacks_sequence)

lemma flush_step_listens:
  assumes "listens topic ty bytes n w" and "flush_step pf t w = Inr w'"
  shows "listens topic ty bytes n w'"
proof (cases "subs w \<noteq> [] \<and> next_message_flush w \<le> spun_at t")
  case True
  with assms(2) obtain d ts where "flush (parse_json pf) (flush_env t) (fold act (before_flush t) (store w)) (subs w) = Inr (d, ts)"
    and w': "subs w' = ts" "limits w' = limits w" by (auto simp: flush_step_def Let_def)
  from flush_topics [OF this(1)] assms(1) w' show ?thesis
    by (auto simp: listens_def map_of_map emptied_def)
qed (use assms in \<open>simp only: flush_step_def if_False sum.inject\<close>)

lemma reconcile_step_listens:
  assumes "listens topic ty bytes n w" and "keyed w" and "reconcile_step pf t w = Inr w'" and "extension (store w) \<noteq> None"
    and "undropped t" and "next_subscription_poll w \<le> spun_at t \<longrightarrow> kept pf t w topic"
  shows "listens topic ty bytes n w'"
proof (cases "next_subscription_poll w \<le> spun_at t")
  case True
  let ?d = "fold act (before_reconcile t) (store w)"
  from assms(3) True obtain r d ts where run: "reconcile (ttl_config t) (ros_node t) (interval pf) (reconcile_env t)
      (reconcile_write_env t) (read_failure t) (fold act (within_reconcile t)) ?d (subs w) = Inr (r, d, ts)"
    and w': "subs w' = ts" "limits w' = (\<lambda>x. if contains_key (subs w) x then limits w x else message_max_bytes (limit_config t x))"
    by (auto simp: reconcile_step_def split: sum.splits)
  from undropped_acts(2) [OF assms(5,4)] assms(4) obtain e where e: "extension ?d = Some e" by (auto simp: same_messages_def)
  have "map_of ts topic = map_of (subs w) topic"
  proof (cases "read_failure t")
    case None
    have "distinct (map fst (subscriptions_table ?d))" "distinct (map fst (subs w))" using assms(2) by (simp_all add: keyed_def acts_keys)
    from live_after [where meanwhile = "fold act (within_reconcile t)", OF e this run [unfolded None], of topic] assms(1,6) True None
    show ?thesis by (auto simp: kept_def listens_def split: option.splits)
  next
    case (Some x)
    with run e show ?thesis by (auto simp: reconcile_def read_desired_def transaction_def split: option.splits)
  qed
  with assms(1) w' show ?thesis by (auto simp: listens_def contains_key_def)
qed (use assms in \<open>simp add: reconcile_step_def\<close>)

lemma turn_listens:
  assumes "listens topic ty bytes n w" and "keyed w" and "turn_step pf reinit_after t w = Inr (q, w')"
    and "extension (store w) \<noteq> None" and "undropped t" and "reconcile_keeps pf t w topic"
  shows "listens topic ty bytes (n + of_nat (length (delivered t topic))) w'"
proof -
  obtain w4 where w4: "before_check pf t w = Inr w4"
    and w': "w' = w4 \<or> graph_step pf reinit_after t (w4\<lparr>dirty := False\<rparr>) = Inr (q, w')"
    using assms(3) by (cases rule: turn_step_cases) auto
  from w4 obtain w2 w3 where steps: "flush_step pf t (spin_step pf t w) = Inr w2" "reconcile_step pf t w2 = Inr w3"
    "parameter_step pf t w3 = Inr w4" by (rule before_check_steps)
  note w2 = flush_step_listens [OF spin_step_listens [OF assms(1)] steps(1)] flush_step_keyed [OF spin_step_keyed [OF assms(2)] steps(1)]
  have "extension (store w2) \<noteq> None" using flush_step_installed [OF steps(1) assms(5)] assms(4) by simp
  moreover have "next_subscription_poll w2 \<le> spun_at t \<longrightarrow> kept pf t w2 topic"
    using assms(6) flush_step_fields [OF steps(1)] by (simp add: reconcile_keeps_def steps(1))
  ultimately have w3: "listens topic ty bytes (n + of_nat (length (delivered t topic))) w3"
    using reconcile_step_listens [OF w2 steps(2) _ assms(5)] by blast
  have "same_topics w3 w'"
    using parameter_step_topics [OF steps(3)] w' graph_step_topics [of pf reinit_after t "w4\<lparr>dirty := False\<rparr>" q w']
    by (auto simp: same_topics_def)
  with w3 show ?thesis by (simp add: listens_def same_topics_def)
qed

text \<open>A session in which nothing disturbs a topic: no rebuild, no drop, and its row is found whenever it is read.\<close>

fun undisturbed :: "platform \<Rightarrow> duration option \<Rightarrow> string \<Rightarrow> turn list \<Rightarrow> worker \<Rightarrow> bool" where
  "undisturbed pf reinit_after topic [] w \<longleftrightarrow> True"
| "undisturbed pf reinit_after topic (t # ts) w \<longleftrightarrow> latch t \<and> undropped t \<and> reconcile_keeps pf t w topic \<and>
     (case turn_step pf reinit_after t w of Inr (None, w') \<Rightarrow> undisturbed pf reinit_after topic ts w' | _ \<Rightarrow> False)"

lemma undisturbed_listens:
  assumes "listens topic ty bytes n w" and "keyed w" and "extension (store w) \<noteq> None"
    and "undisturbed pf reinit_after topic ts w" and "session_turns pf reinit_after ts w = Inr (q, w')"
  shows "listens topic ty bytes (n + of_nat (length (concat (map (\<lambda>t. delivered t topic) ts)))) w' \<and> keyed w' \<and>
    extension (store w') \<noteq> None"
  using assms
proof (induction ts arbitrary: w n)
  case (Cons t ts)
  from Cons.prems(4) obtain w1 where t: "undropped t" "latch t" "reconcile_keeps pf t w topic"
    and step: "turn_step pf reinit_after t w = Inr (None, w1)" and rest: "undisturbed pf reinit_after topic ts w1"
    by (auto split: sum.splits option.splits)
  have "session_turns pf reinit_after ts w1 = Inr (q, w')" using Cons.prems(5) t(2) step by simp
  from Cons.IH [OF turn_listens [OF Cons.prems(1,2) step Cons.prems(3) t(1,3)] turn_step_keyed [OF Cons.prems(2) step]
      turn_installed [OF step t(1) Cons.prems(3)] rest this]
  show ?case by (simp add: algebra_simps)
qed simp

text \<open>
  C5. A registered topic delivers. After any history of the worker, let another session insert a new topic
  before a reconciliation that can subscribe to it. After any turns that do not disturb the topic, in a turn
  that receives messages on it and flushes, the last of them is in \<open>ros2.messages\<close> at the end, numbered by
  its position among all messages received since the topic was registered and bounded by the byte limit
  of that time. Disturbing means dropping the extension, rebuilding the context, or a reconciliation that
  finds the row deleted or expired.
\<close>

theorem registered_topic_delivers:
  assumes "run_observer pf qs r0 (initial_worker db) = Inr (stopped, w)" and "distinct (map fst (subscriptions_table db))"
    and "extension (store w) \<noteq> None" and "\<not> contains_key (subs w) topic"
    and "topic \<notin> fst ` set (subscriptions_table (store w))"
    and "before_flush t1 = []" and "before_reconcile t1 = [client_act now (Register topic requested)]"
    and "undropped t1" and "next_subscription_poll w \<le> spun_at t1" and "read_failure t1 = None"
    and "\<not> row_expired (ttl_config t1) (interval pf) (statement_timestamp (reconcile_env t1)) (new_subscription now requested)"
    and "Messages.subscribe (ros_node t1) topic requested = Inr l"
    and "turn_step pf reinit_after t1 w = Inr (None, w1)"
    and "undisturbed pf reinit_after topic ts w1" and "session_turns pf reinit_after ts w1 = Inr (None, w2)"
    and "delivered t2 topic = ms @ [m]"
    and "n = of_nat (length (concat (map (\<lambda>t. delivered t topic) ts) @ ms)) + 1"
    and "payload (strings pf) topic (live_type l) n m (message_max_bytes (limit_config t1 topic)) = Inr x" and "parse_json pf x = Inr v"
    and "next_message_flush w2 \<le> spun_at t2" and "undropped t2" and "reconcile_keeps pf t2 w2 topic"
    and "turn_step pf reinit_after t2 w2 = Inr (q, w')"
  shows "map_of (messages_table (store w')) topic =
    Some \<lparr>cached_sequence = n, received_at = statement_timestamp (flush_env t2), cached_body = v\<rparr>"
proof -
  have w: "keyed w" by (rule run_keyed [OF assms(1,2)])
  obtain w0 where w0: "flush_step pf t1 (spin_step pf t1 w) = Inr w0"
    using assms(13) by (auto simp: turn_step_def before_check_def split: sum.splits)
  let ?d = "fold act (before_reconcile t1) (store w0)"
  have "keyed w0" by (rule flush_step_keyed [OF spin_step_keyed [OF w] w0])
  then have keys: "distinct (map fst (subscriptions_table (store w0)))" by (simp add: keyed_def)
  have ext: "extension (store w0) \<noteq> None" using flush_step_installed [OF w0 assms(8)] assms(3) by simp
  have d: "?d = (store w0)\<lparr>subscriptions_table := client_edit now (Register topic requested) (subscriptions_table (store w0))\<rparr>"
    using client_acts [OF ext keys] by (simp add: assms(7))
  have "map fst (subscriptions_table (store w0)) = map fst (subscriptions_table (store w))"
    using flush_step_rows [OF w0 assms(6)] by simp
  then have "map_of (subscriptions_table (store w0)) topic = None"
    using assms(5) by (metis list.set_map map_of_eq_None_iff)
  then have row: "map_of (subscriptions_table ?d) topic = Some (new_subscription now requested)"
    by (simp add: d client_edit_row del: client_edit.simps)
  have "extension ?d \<noteq> None" using ext d by simp
  note follows = follows_table [OF w assms(13) w0 assms(9,10) this, of topic]
  have "listens topic (live_type l) (message_max_bytes (limit_config t1 topic)) 0 w1"
    using follows row assms(4,11,12) subscribe_mailbox [OF assms(12)]
    by (simp add: listens_def contains_key_def new_subscription_def empty_mailbox_def)
  from undisturbed_listens [OF this turn_step_keyed [OF w assms(13)] turn_installed [OF assms(13,8,3)] assms(14,15)]
  obtain l' where w2: "keyed w2" "extension (store w2) \<noteq> None" "map_of (subs w2) topic = Some l'"
    "live_type l' = live_type l" "limits w2 topic = message_max_bytes (limit_config t1 topic)"
    "mb_sequence (live_mailbox l') = of_nat (length (concat (map (\<lambda>t. delivered t topic) ts)))"
    by (auto simp: listens_def)
  show ?thesis
    using delivered_stored [OF w2(1) assms(23) w2(3) assms(16) _ _ assms(19,20) w2(2) assms(21)]
      w2(4-6) assms(17,18,22) by (auto simp: reconcile_keeps_def split: sum.splits)
qed

definition sample_fresh :: worker where
  "sample_fresh = announce (sample_participant []) (begin_session (sample_participant []) (initial_worker (create_extension 1 ''ros2'')))"

definition sample_registering :: turn where
  "sample_registering = sample_polling\<lparr>before_reconcile := [client_act 0 (Register ''/t'' (Some ''T''))]\<rparr>"

lemma sample_fresh_run:
  "run_observer sample_platform [sample_participant []] None (initial_worker (create_extension 1 ''ros2'')) = Inr (False, sample_fresh)"
  by (simp add: run_session_def sample_participant_def sample_fresh_def)

lemma sample_registers_row: "act (client_act 0 (Register ''/t'' (Some ''T''))) (create_extension 1 ''ros2'') = sample_wanted"
  by (simp add: client_act_def sample_wanted_def create_extension_def new_subscription_def sample_row_def)

lemma sample_registers: "turn_step sample_platform None sample_registering sample_fresh = Inr (None, sample_listening)"
  by (simp add: worker_defs sample_participant_def sample_turn_def sample_listening_def sample_subscribes sample_polling_def
      sample_log_def sample_fresh_def sample_registering_def initial_worker_def from_secs_def sample_platform_def note_read_def
      contains_key_def sample_registers_row [unfolded One_nat_def] del: act.simps)

text \<open>A turn in which nothing happens, after the topic is live.\<close>

definition sample_quiet :: turn where
  "sample_quiet = (sample_turn 0 sample_nodes [])\<lparr>graph_changed := False\<rparr>"

lemma sample_poll_time: "from_millis (i32_as_u64 (subscription_poll_ms default_settings)) = 250 * 10 ^ 6"
  by (simp add: from_millis_def i32_as_u64_def subscription_poll_ms_def default_settings_def i32_max_def)

lemma sample_waits: "turn_step sample_platform None sample_quiet sample_listening = Inr (None, sample_listening)"
  by (simp add: turn_step_def before_check_def spin_step_def flush_step_def reconcile_step_def parameter_step_def check_step_def
      sample_quiet_def sample_turn_def sample_listening_def initial_worker_def sample_poll_time)

lemma sample_undisturbed: "undisturbed sample_platform None ''/t'' [sample_quiet] sample_listening"
  by (simp add: sample_waits) (simp add: sample_quiet_def sample_turn_def undropped_def reconcile_keeps_def sample_listening_def
      sample_poll_time)

theorem registered_topic_delivers_witness:
  "\<exists>q w' x. turn_step sample_platform None sample_registering sample_fresh = Inr (None, sample_listening) \<and>
     turn_step sample_platform None sample_delivery sample_listening = Inr (q, w') \<and>
     map_of (messages_table (store w')) ''/t'' = Some \<lparr>cached_sequence = 2, received_at = 100, cached_body = JString x\<rparr>"
proof -
  let ?pf = sample_platform and ?t1 = sample_registering and ?t2 = sample_delivery
  note t2 = sample_delivery_facts
  have quiet: "session_turns ?pf None [sample_quiet] sample_listening = Inr (None, sample_listening)"
    by (simp add: sample_waits) (simp add: sample_quiet_def sample_turn_def)
  have unheard: "delivered sample_quiet ''/t'' = []" by (simp add: sample_quiet_def sample_turn_def delivered_def)
  obtain q w' w2 where step: "turn_step ?pf None ?t2 sample_listening = Inr (q, w')"
    and w2: "flush_step ?pf ?t2 (spin_step ?pf ?t2 sample_listening) = Inr w2" "kept ?pf ?t2 w2 ''/t''" by (rule sample_delivers)
  obtain x where x: "payload (strings ?pf) ''/t'' ''T'' 2 sample_message (message_max_bytes default_settings) = Inr x"
    "parse_json ?pf x = Inr (JString x)" by (rule sample_stores)
  have w: "extension (store sample_fresh) \<noteq> None" "\<not> contains_key (subs sample_fresh) ''/t''"
    "''/t'' \<notin> fst ` set (subscriptions_table (store sample_fresh))" "next_subscription_poll sample_fresh = 1"
    by (simp_all add: sample_fresh_def begin_session_def Let_def initial_worker_def log_event_def sample_participant_def
        create_extension_def contains_key_def)
  have t1: "before_flush ?t1 = []" "before_reconcile ?t1 = [client_act 0 (Register ''/t'' (Some ''T''))]" "undropped ?t1"
    "spun_at ?t1 = 1" "read_failure ?t1 = None" "ttl_config ?t1 = default_settings" "limit_config ?t1 k = default_settings"
    "ros_node ?t1 = sample_ros" for k
    by (simp_all add: sample_registering_def sample_polling_def sample_turn_def undropped_def drops_def client_act_def)
  have due: "next_subscription_poll sample_fresh \<le> spun_at ?t1" "next_message_flush sample_listening \<le> spun_at ?t2"
    by (simp_all add: w t1 t2 sample_listening_facts)
  have ros: "Messages.subscribe (ros_node ?t1) ''/t'' (Some ''T'') = Inr \<lparr>live_type = ''T'', live_mailbox = empty_mailbox\<rparr>"
    by (simp add: t1 subscribe_def sample_ros_def described_def)
  have "map_of (messages_table (store w')) ''/t'' =
      Some \<lparr>cached_sequence = 2, received_at = statement_timestamp (flush_env ?t2), cached_body = JString x\<rparr>"
    by (rule registered_topic_delivers [OF sample_fresh_run _ w(1-3) t1(1-3) due(1) t1(5) _ ros sample_registers sample_undisturbed quiet
        t2(8) _ _ _ due(2) t2(4) _ step])
      (use x w2 sample_keeps_row in \<open>auto simp: t1 row_expired_def create_extension_def reconcile_keeps_def unheard\<close>)
  with step sample_registers show ?thesis by (auto simp: t2 lenient_env_def sample_env_def)
qed

end
