(* ===== verification/Access.thy ===== *)
theory Access
  imports Clients
begin

text \<open>
  Who may use the extension: the statements of its installation script (\<open>extension_sql!\<close> in \<open>src/lib.rs\<close> and
  the SQL of \<open>src/publish.rs\<close> and \<open>src/subscriptions.rs\<close>), the privileges they leave, and the grants the
  documentation recommends. A guard decides whether a role may run a statement; its effect is the one of
  \<open>Clients\<close>.
\<close>

section \<open>Privileges\<close>

datatype object = Schema | Relation string | Routine string "string list"

datatype privilege = Select | Insert | Update | Delete | Usage | Execute

datatype grantee = Public | Role string

text \<open>A privilege is granted on a whole object or on some columns of a table.\<close>

record grant =
  privilege :: privilege
  columns :: "string list option"
  on_object :: object
  to_grantee :: grantee

text \<open>A column has a name, a type, a \<open>NOT NULL\<close> flag and perhaps a default.\<close>

type_synonym column = "string \<times> string \<times> bool \<times> string option"

datatype ddl =
    CreateTable string "column list" "string list"
  | CreateRoutine string "string list" bool
  | RevokeAll object grantee
  | Grant grant

text \<open>An entry of an access control list; without a column it is about the whole object.\<close>

type_synonym entry = "object \<times> privilege \<times> string option \<times> grantee"

text \<open>A table is created without a grant, a routine with \<open>EXECUTE\<close> for \<open>PUBLIC\<close>, as SQL defines.\<close>

fun run_ddl :: "ddl \<Rightarrow> entry list \<Rightarrow> entry list" where
  "run_ddl (CreateTable name cs key) acl = acl"
| "run_ddl (CreateRoutine name args strict) acl = acl @ [(Routine name args, Execute, None, Public)]"
| "run_ddl (RevokeAll ob who) acl = filter (\<lambda>(ob', p, c, who'). ob' \<noteq> ob \<or> who' \<noteq> who) acl"
| "run_ddl (Grant g) acl = acl @
     (case columns g of
        None \<Rightarrow> [(on_object g, privilege g, None, to_grantee g)]
      | Some cs \<Rightarrow> map (\<lambda>c. (on_object g, privilege g, Some c, to_grantee g)) cs)"

section \<open>The installation script\<close>

text \<open>The tables, with their columns and primary keys.\<close>

definition graph_tables :: "ddl list" where
  "graph_tables =
     [CreateTable ''nodes'' [(''node_name'', ''text'', True, None), (''namespace'', ''text'', True, None),
        (''refreshed_at'', ''timestamptz'', True, None)] [],
      CreateTable ''topics'' [(''topic_name'', ''text'', True, None), (''message_type'', ''text'', True, None),
        (''refreshed_at'', ''timestamptz'', True, None)] [],
      CreateTable ''worker_status'' [(''singleton'', ''boolean'', True, Some ''true''), (''worker_pid'', ''integer'', True, None),
        (''last_checked'', ''timestamptz'', True, None), (''last_refreshed'', ''timestamptz'', False, None),
        (''last_error'', ''text'', False, None)] [''singleton''],
      CreateTable ''parameters'' [(''node_name'', ''text'', True, None), (''namespace'', ''text'', True, None),
        (''parameter_name'', ''text'', True, None), (''parameter_type'', ''text'', True, None), (''value'', ''jsonb'', True, None),
        (''refreshed_at'', ''timestamptz'', True, None)] [''node_name'', ''namespace'', ''parameter_name''],
      CreateTable ''parameter_status'' [(''singleton'', ''boolean'', True, Some ''true''), (''worker_pid'', ''integer'', True, None),
        (''last_checked'', ''timestamptz'', True, None), (''last_refreshed'', ''timestamptz'', False, None),
        (''last_error'', ''text'', False, None)] [''singleton'']]"

definition message_tables :: "ddl list" where
  "message_tables =
     [CreateTable ''subscriptions'' [(''topic_name'', ''text'', True, None), (''requested_type'', ''text'', False, None),
        (''message_type'', ''text'', False, None), (''registered_at'', ''timestamptz'', True, Some ''statement_timestamp()''),
        (''keepalive_at'', ''timestamptz'', True, Some ''statement_timestamp()''), (''last_message_at'', ''timestamptz'', False, None),
        (''last_error'', ''text'', False, None)] [''topic_name''],
      CreateTable ''messages'' [(''topic_name'', ''text'', True, None), (''sequence'', ''bigint'', True, None),
        (''received_at'', ''timestamptz'', True, None), (''message'', ''jsonb'', True, None)] [''topic_name'']]"

definition hello_sql :: "ddl list" where
  "hello_sql = [CreateRoutine ''hello_pg_ros2'' [] False]"

definition subscribe_sql :: "ddl list" where
  "subscribe_sql = [CreateRoutine ''subscribe'' [''text''] False, RevokeAll (Routine ''subscribe'' [''text'']) Public]"

definition publish_sql :: "ddl list" where
  "publish_sql = [CreateRoutine ''publish'' [''text'', ''jsonb''] True, RevokeAll (Routine ''publish'' [''text'', ''jsonb'']) Public]"

definition publish_typed_sql :: "ddl list" where
  "publish_typed_sql = [CreateRoutine ''publish'' [''text'', ''text'', ''jsonb''] True,
     RevokeAll (Routine ''publish'' [''text'', ''text'', ''jsonb'']) Public]"

definition extension_script :: "ddl list" where
  "extension_script = graph_tables @ message_tables @ hello_sql @ subscribe_sql @ publish_sql @ publish_typed_sql"

text \<open>A client has to give a value for the columns that are \<open>NOT NULL\<close> and have no default.\<close>

fun required_columns :: "string \<Rightarrow> ddl list \<Rightarrow> string list" where
  "required_columns table (CreateTable name cs key # ds) =
     (if name = table then map fst (filter (\<lambda>(c, ty, not_null, default). not_null \<and> default = None) cs)
      else required_columns table ds)"
| "required_columns table (d # ds) = required_columns table ds"
| "required_columns table [] = []"

lemma topic_is_enough: "required_columns ''subscriptions'' extension_script = [''topic_name'']"
  by (simp add: extension_script_def graph_tables_def message_tables_def)

text \<open>The one function that calls no ROS code.\<close>

definition hello_pg_ros2 :: string where
  "hello_pg_ros2 = ''Hello, pg_ros2''"

section \<open>Statements\<close>

text \<open>
  A statement of a client: one on \<open>ros2.subscriptions\<close>, an \<open>INSERT\<close> without \<open>ON CONFLICT\<close>, a query that reads some
  columns of a table, or a call.
\<close>

datatype statement =
    Client client
  | PlainInsert string "string option"
  | Query string "string list"
  | Call string "string list"

type_synonym need = "object \<times> privilege \<times> string option"

text \<open>
  What SQL asks for: the privilege of the command for the columns it sets, and \<open>SELECT\<close> for each column that
  is read, in a condition or as the arbiter of \<open>ON CONFLICT\<close>.
\<close>

definition inserts :: "string option \<Rightarrow> need list" where
  "inserts requested = map (\<lambda>c. (Relation ''subscriptions'', Insert, Some c))
     (''topic_name'' # (case requested of None \<Rightarrow> [] | Some kind \<Rightarrow> [''requested_type'']))"

definition finds_topic :: "need list" where
  "finds_topic = [(Relation ''subscriptions'', Select, Some ''topic_name'')]"

fun needs :: "statement \<Rightarrow> need list" where
  "needs (Client (Register topic requested)) = (Schema, Usage, None) # inserts requested @ finds_topic"
| "needs (Client (Renew topic)) =
     (Schema, Usage, None) # (Relation ''subscriptions'', Update, Some ''keepalive_at'') # finds_topic"
| "needs (Client (Unregister topic)) = (Schema, Usage, None) # (Relation ''subscriptions'', Delete, None) # finds_topic"
| "needs (PlainInsert topic requested) = (Schema, Usage, None) # inserts requested"
| "needs (Query table cs) = (Schema, Usage, None) # map (\<lambda>c. (Relation table, Select, Some c)) cs"
| "needs (Call name args) = [(Schema, Usage, None), (Routine name args, Execute, None)]"

definition holds :: "entry list \<Rightarrow> string \<Rightarrow> need \<Rightarrow> bool" where
  "holds acl role = (\<lambda>(ob, p, c).
     list_ex (\<lambda>(ob', p', c', who). ob' = ob \<and> p' = p \<and> (c' = None \<or> c' = c) \<and> (who = Public \<or> who = Role role)) acl)"

definition permitted :: "entry list \<Rightarrow> bool \<Rightarrow> string \<Rightarrow> statement \<Rightarrow> bool" where
  "permitted acl superuser role s \<longleftrightarrow> superuser \<or> list_all (holds acl role) (needs s)"

text \<open>A session runs a statement on \<open>ros2.subscriptions\<close> under its guard.\<close>

definition run_as :: "entry list \<Rightarrow> bool \<Rightarrow> string \<Rightarrow> timestamp \<Rightarrow> client \<Rightarrow> database \<Rightarrow> string + database" where
  "run_as acl superuser role now c d =
     (if permitted acl superuser role (Client c) then Inr (act (client_act now c) d) else Inl ''permission denied'')"

section \<open>Nothing by default\<close>

text \<open>A privilege that some grant gives to a role.\<close>

definition given :: "grant list \<Rightarrow> string \<Rightarrow> need \<Rightarrow> bool" where
  "given gs role = (\<lambda>(ob, p, c). list_ex (\<lambda>g. on_object g = ob \<and> privilege g = p \<and>
     (case columns g of None \<Rightarrow> True | Some cs \<Rightarrow> c \<in> Some ` set cs) \<and> (to_grantee g = Public \<or> to_grantee g = Role role)) gs)"

definition installed_acl :: "grant list \<Rightarrow> entry list" where
  "installed_acl gs = fold run_ddl (extension_script @ map Grant gs) []"

lemma script_acl: "fold run_ddl extension_script [] = [(Routine ''hello_pg_ros2'' [], Execute, None, Public)]"
  by (simp add: extension_script_def graph_tables_def message_tables_def hello_sql_def subscribe_sql_def publish_sql_def
      publish_typed_sql_def)

lemma holds_append [simp]: "holds (acl @ acl') role x \<longleftrightarrow> holds acl role x \<or> holds acl' role x"
  by (cases x) (simp add: holds_def)

lemma holds_grants: "holds (fold run_ddl (map Grant gs) acl) role x \<longleftrightarrow> holds acl role x \<or> given gs role x"
proof (induction gs arbitrary: acl)
  case (Cons g gs)
  have "holds (run_ddl (Grant g) acl) role x \<longleftrightarrow> holds acl role x \<or> given [g] role x"
    by (cases x; cases "columns g") (auto simp: given_def holds_def list_ex_iff)
  then show ?case using Cons.IH by (cases x) (auto simp: given_def)
qed (simp add: given_def split: prod.split)

lemma needs_routine: "(Routine name args, p, c) \<in> set (needs s) \<Longrightarrow> c = None"
  by (cases s rule: needs.cases) (auto simp: inserts_def finds_topic_def)

lemma installed_permits:
  "permitted (installed_acl gs) False role s \<longleftrightarrow>
     list_all (\<lambda>x. x = (Routine ''hello_pg_ros2'' [], Execute, None) \<or> given gs role x) (needs s)"
proof -
  have "holds (installed_acl gs) role x \<longleftrightarrow> x = (Routine ''hello_pg_ros2'' [], Execute, None) \<or> given gs role x"
    if "x \<in> set (needs s)" for x
  proof (cases x)
    case (fields ob p c)
    with that needs_routine have "ob = Routine ''hello_pg_ros2'' [] \<Longrightarrow> c = None" by blast
    then show ?thesis unfolding installed_acl_def fold_append comp_def script_acl holds_grants
      by (auto simp: fields holds_def)
  qed
  then show ?thesis by (simp add: permitted_def list_all_iff)
qed

text \<open>
  C25. Nothing by default. After the installation and any grants, a role that is not a superuser can run a
  statement exactly when every privilege it needs was granted to it or to \<open>PUBLIC\<close>; only the call of
  \<open>hello_pg_ros2\<close> needs no grant but \<open>USAGE\<close>. So \<open>publish\<close>, in each of its two forms, and \<open>subscribe\<close>, which
  load ROS, are closed until they are granted, and a denied session changes no subscription.
\<close>

theorem execution_restricted:
  "(permitted (installed_acl gs) False role s \<longleftrightarrow>
      list_all (\<lambda>x. x = (Routine ''hello_pg_ros2'' [], Execute, None) \<or> given gs role x) (needs s)) \<and>
    run_as (installed_acl gs) False role now c d =
      (if list_all (given gs role) (needs (Client c)) then Inr (act (client_act now c) d) else Inl ''permission denied'') \<and>
    \<not> permitted (installed_acl []) False role s"
proof (intro conjI)
  have "(Routine ''hello_pg_ros2'' [], Execute, None) \<notin> set (needs (Client c))"
    by (cases c) (auto simp: inserts_def finds_topic_def)
  then have "permitted (installed_acl gs) False role (Client c) \<longleftrightarrow> list_all (given gs role) (needs (Client c))"
    unfolding installed_permits list_all_iff by metis
  then show "run_as (installed_acl gs) False role now c d =
      (if list_all (given gs role) (needs (Client c)) then Inr (act (client_act now c) d) else Inl ''permission denied'')"
    by (simp only: run_as_def)
  have "(Schema, Usage, None) \<in> set (needs s)"
    by (cases s rule: needs.cases) simp_all
  then show "\<not> permitted (installed_acl []) False role s" by (auto simp: installed_permits list_all_iff given_def)
qed (rule installed_permits)

section \<open>The documented grants\<close>

text \<open>The grants of the README for subscribers through the table.\<close>

definition subscriber_grants :: "string \<Rightarrow> grant list" where
  "subscriber_grants role =
     [\<lparr>privilege = Usage, columns = None, on_object = Schema, to_grantee = Role role\<rparr>,
      \<lparr>privilege = Insert, columns = Some [''topic_name'', ''requested_type'', ''keepalive_at''],
       on_object = Relation ''subscriptions'', to_grantee = Role role\<rparr>,
      \<lparr>privilege = Update, columns = Some [''keepalive_at''], on_object = Relation ''subscriptions'', to_grantee = Role role\<rparr>,
      \<lparr>privilege = Delete, columns = None, on_object = Relation ''subscriptions'', to_grantee = Role role\<rparr>]"

definition select_topic :: "string \<Rightarrow> grant" where
  "select_topic role = \<lparr>privilege = Select, columns = Some [''topic_name''], on_object = Relation ''subscriptions'',
     to_grantee = Role role\<rparr>"

text \<open>
  The documented grants fall short. A role with the privileges the README gives to subscribers can
  insert a topic with a plain \<open>INSERT\<close>, but none of the three statements the README shows works for it: the
  \<open>INSERT .. ON CONFLICT\<close>, the renewal and the deletion all read \<open>topic_name\<close>, and it lacks \<open>SELECT\<close>. With
  \<open>SELECT (topic_name)\<close> in addition all of them work; reading \<open>ros2.messages\<close> takes a grant of its own.
\<close>

lemma documented_grants_fall_short:
  "permitted (installed_acl (subscriber_grants role)) False role (PlainInsert topic requested) \<and>
    run_as (installed_acl (subscriber_grants role)) False role now c d = Inl ''permission denied'' \<and>
    run_as (installed_acl (subscriber_grants role @ [select_topic role])) False role now c d = Inr (act (client_act now c) d) \<and>
    \<not> permitted (installed_acl (subscriber_grants role @ [select_topic role])) False role (Query ''messages'' [''topic_name'', ''message''])"
proof -
  note grants = subscriber_grants_def select_topic_def given_def inserts_def finds_topic_def
  have "\<not> permitted (installed_acl (subscriber_grants role)) False role (Client c)"
    by (cases c) (simp_all add: installed_permits grants)
  moreover have "permitted (installed_acl (subscriber_grants role @ [select_topic role])) False role (Client c)"
    by (cases c) (auto simp: installed_permits grants split: option.splits)
  moreover have "permitted (installed_acl (subscriber_grants role)) False role (PlainInsert topic requested)"
    by (auto simp: installed_permits grants split: option.splits)
  moreover have "\<not> permitted (installed_acl (subscriber_grants role @ [select_topic role])) False role
      (Query ''messages'' [''topic_name'', ''message''])" by (simp add: installed_permits grants)
  ultimately show ?thesis by (simp add: run_as_def)
qed

end
