(* ===== verification/Conformance.thy ===== *)
theory Conformance
  imports Codec Parameters Naming
begin

text \<open>
  The unit tests of the repository, as lemmas about the model. Where a test reads a table through SQL, the
  lemma reads the list of its rows.
\<close>

section \<open>Topic names\<close>

text \<open>\<open>test_topic_channel_names\<close> and \<open>test_publish_topic_names\<close>; the last name holds two Chinese letters.\<close>

definition good_topics :: "string list" where
  "good_topics = [''/chatter'', ''/robot_1/joint_states'', ''/_private'']"

definition bad_topics :: "string list" where
  "bad_topics = ['''', ''/'', ''relative'', ''/double//slash'', ''/trailing/'', ''/0digit'', ''/bad'' @ CHR 0x27 # ''quote'',
     ''/white space'', CHR 0x2F # map char_of [0xE4, 0xB8, 0x96, 0xE7, 0x95, 0x8C :: nat]]"

lemma test_topic_channel_names:
  "list_all (\<lambda>t. validate_channel t = Inr ()) (good_topics @ [CHR 0x2F # replicate 62 CHR 0x61])"
  "list_all (\<lambda>t. validate_channel t \<noteq> Inr ()) (bad_topics @ [CHR 0x2F # replicate 63 CHR 0x61])"
  by code_simp+

lemma test_publish_topic_names:
  "list_all (\<lambda>t. validate_topic t = Inr ()) (good_topics @ [CHR 0x2F # replicate 200 CHR 0x61])"
  "list_all (\<lambda>t. validate_topic t \<noteq> Inr ()) bad_topics"
  by code_simp+

section \<open>Saving snapshots\<close>

text \<open>\<open>test_snapshot_reconciliation\<close>: each step of the test is a transaction with its own time.\<close>

lemma test_snapshot_reconciliation:
  fixes env :: "nat \<Rightarrow> stmt_env"
  defines "first \<equiv> \<lparr>snapshot_nodes = [(''duplicate'', ''/''), (''duplicate'', ''/'')],
    snapshot_topics = [(''/quoted'' @ CHR 0x27 # ''_topic'', ''test/msg/A''), (''/quoted'' @ CHR 0x27 # ''_topic'', ''test/msg/B'')]\<rparr>"
    and "nothing \<equiv> \<lparr>snapshot_nodes = [], snapshot_topics = []\<rparr>"
  shows "\<exists>d1 d2 d3 d4.
    persist_snapshot (env 1) (Inr first) None None (create_extension 1 ''ros2'') = (Some 1, d1) \<and>
    length (nodes_table d1) = 2 \<and> length (topics_table d1) = 2 \<and>
    persist_snapshot (env 2) (Inr first) (Some first) (Some 1) d1 = (Some 1, d2) \<and> topics_table d2 = topics_table d1 \<and>
    persist_snapshot (env 3) (Inl ''injected discovery failure'') (Some first) (Some 1) d2 = (Some 1, d3) \<and>
    length (topics_table d3) = 2 \<and>
    map_option st_last_error (worker_status d3) = Some (Some ''injected discovery failure'') \<and>
    persist_snapshot (env 4) (Inr nothing) (Some first) (Some 1) d3 = (Some 1, d4) \<and>
    nodes_table d4 = [] \<and> topics_table d4 = [] \<and> map_option st_last_error (worker_status d4) = Some None"
  by (simp add: first_def nothing_def persist_snapshot_def create_extension_def upsert_status_def Let_def)

text \<open>\<open>test_extension_lookup_tolerates_absent_extension\<close>.\<close>

lemma test_extension_lookup: "installed_extension no_extension = None" "installed_extension (create_extension i schema) \<noteq> None"
  by (simp_all add: no_extension_def create_extension_def)

text \<open>\<open>test_parameter_reconciliation\<close>.\<close>

lemma test_parameter_reconciliation:
  fixes env :: "nat \<Rightarrow> stmt_env"
  defines "row \<equiv> \<lambda>v. \<lparr>param_node = ''node'' @ [CHR 0x27], param_namespace = ''/ns'', param_name = ''nested.greeting'',
    param_kind = ''string'', param_value = v\<rparr>"
    and "hello \<equiv> JString (''hello'' @ [CHR 0x27, CHR 0x5C, CHR 0x22])" and "changed \<equiv> JString ''changed''"
  assumes "jsonb_error (env 1) hello = None" and "jsonb_error (env 4) changed = None"
  shows "\<exists>d1 d2 d3 d4 d5.
    persist (env 1) (Inr [row hello]) None None (create_extension 1 ''ros2'') = Inr (Some 1, d1) \<and>
    map row_value (parameters_table d1) = [hello] \<and>
    persist (env 2) (Inr [row hello]) (Some [row hello]) (Some 1) d1 = Inr (Some 1, d2) \<and>
    parameters_table d2 = parameters_table d1 \<and>
    persist (env 3) (Inl ''unreachable peer'') (Some [row hello]) (Some 1) d2 = Inr (Some 1, d3) \<and>
    map_option st_last_error (parameter_status d3) = Some (Some ''unreachable peer'') \<and> length (parameters_table d3) = 1 \<and>
    persist (env 4) (Inr [row changed]) (Some [row hello]) (Some 1) d3 = Inr (Some 1, d4) \<and>
    map row_value (parameters_table d4) = [changed] \<and>
    persist (env 5) (Inr []) (Some [row changed]) (Some 1) d4 = Inr (Some 1, d5) \<and>
    parameters_table d5 = [] \<and> map_option st_last_error (parameter_status d5) = Some None"
  using assms(4,5) unfolding row_def hello_def changed_def
  by (simp add: persist_def insert_parameter_def jsonb_def insert_key_def parameter_row_def create_extension_def
      upsert_status_def Let_def)

section \<open>Parameter values\<close>

text \<open>\<open>test_parameter_types\<close>, for any representation of numbers.\<close>

definition test_value :: "nat \<Rightarrow> f64 \<Rightarrow> parameter_value" where
  "test_value kind x = \<lparr>type_of_parameter = kind, bool_value = True, integer_value = 2 ^ 63 - 1, double_value = x,
     string_value = ''quote'' @ [CHR 0x27, CHR 0x5C, CHR 0x22], byte_array_value = [0, 255],
     bool_array_value = [True, False], integer_array_value = [- (2 ^ 63)], double_array_value = [x],
     string_array_value = [''a'', ''b'']\<rparr>"

lemma test_parameter_types:
  "map (\<lambda>kind. map_res snd (kind_and_value sj (test_value kind x))) [0..<10] = map Inr
    [JNull, JBool True, from_int sj (2 ^ 63 - 1), from_f64 sj x, JString (''quote'' @ [CHR 0x27, CHR 0x5C, CHR 0x22]),
     JArray [from_int sj 0, from_int sj 255], JArray [JBool True, JBool False], JArray [from_int sj (- (2 ^ 63))],
     JArray [from_f64 sj x], JArray [JString ''a'', JString ''b'']]"
  "kind_and_value sj (test_value 255 x) = Inl (Err ''unknown ROS parameter type 255'')"
  by (simp_all add: kind_and_value_def test_value_def upt_rec show_nat.simps digit_def)

section \<open>The encoder\<close>

text \<open>\<open>test_output_byte_limit\<close> and the two direct uses of \<open>Output\<close> in \<open>test_json_nested_arrays_and_sequences\<close>.\<close>

lemma test_output_byte_limit:
  assumes "x = replicate NOTIFY_LIMIT CHR 0x78" and "\<And>s. length (quote rt s) = 2 * length s + 2"
  shows "\<exists>o'. push x (new_output NOTIFY_LIMIT) = (Inr (), o') \<and> isl (fst (push ''x'' o')) \<and>
      length (text_of (snd (push ''x'' o'))) = NOTIFY_LIMIT"
    and "isl (fst (encode_string rt (replicate 4000 CHR 0x0A) (new_output NOTIFY_LIMIT)))"
  using assms
  by (simp_all add: push_def new_output_def NOTIFY_LIMIT_def encode_string_def andthen_def write_str_def done_ok_def)

lemma test_json_values:
  "text_of (snd (encode_value rt (Array (Integers KInt32 [1, -2, 3])) 0 (new_output NOTIFY_LIMIT))) = ''[1,-2,3]''"
  "text_of (snd (encode_value rt (Simple (Double f64_NAN)) 0 (new_output NOTIFY_LIMIT))) = ''null''"
  by (simp_all add: encode_array_def encode_number_def andthen_def push_def write_str_def done_ok_def new_output_def
      NOTIFY_LIMIT_def show_int_def show_nat.simps digit_def encode_f64_def f64_NAN_def f64_is_finite_def f64_exponent_def)

section \<open>The decoder\<close>

text \<open>\<open>test_decode_scalars_and_rejections\<close> on a message with one string field.\<close>

definition int_json :: "int \<Rightarrow> json" where
  "int_json n = JNumber \<lparr>num_i64 = Some n, num_u64 = None, num_f64 = None\<rparr>"

definition string_message :: "string \<Rightarrow> message" where
  "string_message s = Msg [(''data'', Simple (Str KString s))]"

lemma test_decode_scalars_and_rejections:
  "decode rt (string_message []) (JObject [(''data'', JString s)]) = Inr (string_message s)"
  "list_all (\<lambda>v. isl (decode rt (string_message []) v))
     [JObject [(''missing'', int_json 1)], JObject [(''data'', int_json 1)], JArray [int_json 1, int_json 2], JNull]"
  by (simp_all add: decode_def string_message_def unknown_field_def get_field_def set_field_def assign_string_def
      string_item_def string_ok_def int_json_def ok_or_def value_mut.simps simple_mut.simps)

text \<open>\<open>test_decode_arrays_and_sequences\<close> and \<open>test_decode_sequences\<close>.\<close>

definition int_arrays :: "int list \<Rightarrow> message" where
  "int_arrays ns = Msg [(''int32_values_default'', Array (Integers KInt32 ns))]"

lemma test_decode_arrays_and_sequences:
  "decode rt (int_arrays [0, 0, 0]) (JObject [(''int32_values_default'', JArray (map int_json [1, -2, 3]))]) = Inr (int_arrays [1, -2, 3])"
  "isl (decode rt (int_arrays [0, 0, 0]) (JObject [(''int32_values_default'', JArray (map int_json [1, 2]))]))"
  "isl (decode rt (int_arrays [0, 0, 0]) (JObject [(''int32_values_default'', JArray (map int_json [1, 2, 9999999999]))]))"
  by (simp_all add: decode_def int_arrays_def unknown_field_def get_field_def set_field_def int_json_def fill_def
      check_length_def json_array_def integer_def ok_or_def int_in_range_def value_mut.simps array_mut.simps)

text \<open>\<open>test_decode_null_float_is_nan\<close>.\<close>

definition float_json :: "f64 \<Rightarrow> json" where
  "float_json x = JNumber \<lparr>num_i64 = None, num_u64 = None, num_f64 = Some x\<rparr>"

lemma test_decode_null_float_is_nan:
  "decode rt (Msg [(''float32_values_default'', Array (Floats [0, 0, 0]))])
     (JObject [(''float32_values_default'', JArray [float_json 0x3FF8000000000000, JNull, float_json 0x4004000000000000])]) =
   Inr (Msg [(''float32_values_default'', Array (Floats [0x3FC00000, f32_NAN, 0x40200000]))])"
proof -
  have casts: "f64_to_f32 0x3FF8000000000000 = 0x3FC00000" "f64_to_f32 0x4004000000000000 = 0x40200000"
    by (simp_all add: f64_to_f32_def f64_is_nan_def f64_is_finite_def f64_exponent_def f64_fraction_def f64_sign_def
        round_half_even_def)
  show ?thesis
    by (simp add: decode_def unknown_field_def get_field_def set_field_def float_json_def fill_def check_length_def
        json_array_def float32_def float64_def ok_or_def value_mut.simps array_mut.simps casts)
qed

end
