(* ===== verification/Spec2Isabelle.thy ===== *)
theory Spec2Isabelle
  imports Codec Notify Publish Isolation Restart Access Conformance
begin

text \<open>
  pg_ros2 is a PostgreSQL extension, written in Rust, that connects a database to ROS 2. It has four
  parts that run.

  \<^item> A background worker (\<open>src/lib.rs\<close>) keeps a ROS participant. It copies the ROS graph into
    \<open>ros2.nodes\<close> and \<open>ros2.topics\<close>, polls the parameter services of all nodes (\<open>src/parameters.rs\<close>) into
    \<open>ros2.parameters\<close>, and keeps subscriptions for the rows of \<open>ros2.subscriptions\<close>, whose newest messages
    it stores in \<open>ros2.messages\<close> (\<open>src/messages.rs\<close>).
  \<^item> The procedure \<open>subscribe\<close> (\<open>src/subscriptions.rs\<close>) notifies a channel of every message of a topic.
  \<^item> The function \<open>publish\<close> (\<open>src/publish.rs\<close>) publishes one JSON value to a topic.
  \<^item> Two codecs turn a ROS message into bounded JSON text (\<open>src/subscriptions/json.rs\<close>) and a JSON value
    into a ROS message (\<open>src/publish/json.rs\<close>).

  The worker calls the encoder in the callbacks of its subscriptions and shares the database with other
  sessions; \<open>subscribe\<close> calls the encoder, \<open>publish\<close> the decoder.

  \<^bold>\<open>The theories\<close>, in the order of their imports. Definitions have the names of the code; a state is a
  record with the fields of the code's variables, an error is a value of \<open>'a res\<close>, and every panic is a
  value of its own, so that its absence is a theorem.

  \<^item> \<open>Prelude\<close>: results, loops over lists with early return, decimal numbers, sorting.
  \<^item> \<open>Naming\<close>: \<open>src/naming.rs\<close> and the check of a channel in \<open>src/subscriptions.rs\<close>. The checks decide
    a grammar of ROS names, given as inductive predicates.
  \<^item> \<open>Floats\<close>, \<open>Json\<close>: the bits of binary32 and binary64 values, and the values of \<open>serde_json\<close>.
  \<^item> \<open>Settings\<close>: the settings of \<open>_PG_init\<close>, their accessors, the check of the database name and the
    backoff of the rebuild interval. No cast wraps and no product overflows; the interval doubles up to ten minutes.
  \<^item> \<open>Diagnostics\<close>: \<open>describe\<close>, an error with the chain of its causes.
  \<^item> \<open>Ros_Message\<close>: the dynamic messages of rclrs as nested datatypes, their types and well-formedness.
  \<^item> \<open>Encoder\<close>: \<open>Output\<close> and the traversal of a message. The interface of a bounded sink is a locale,
    interpreted for \<open>Output\<close>. The bounded encoder refines an unbounded printer of JSON trees: it gives the
    text when the text fits and an error when it does not.
  \<^item> \<open>Decoder\<close>: every function of the decoder. It never panics, keeps the type of a message, works field
    by field and accepts exactly the objects with known keys and decodable values.
  \<^item> \<open>Codec\<close>: decoding what was encoded gives a message with the same text.
  \<^item> \<open>Database\<close>: the tables, the statements the worker runs, its transactions with the errors PostgreSQL
    raises in them, and the lookup of the extension. The interface of a table with a primary key is a locale.
  \<^item> \<open>Graph\<close>: \<open>GraphSnapshot::read\<close> and \<open>persist_snapshot\<close>. The contract of a store that skips unchanged
    snapshots is a locale, interpreted here for the graph and in \<open>Parameters\<close> for the parameters.
  \<^item> \<open>Parameters\<close>: the poll as a state machine, its result in the order of the primary key, its end.
  \<^item> \<open>Messages\<close>: mailboxes, \<open>reconcile\<close> in its two transactions with interference between them, \<open>flush\<close>.
  \<^item> \<open>Notify\<close>: \<open>subscribe\<close> with its callback, queue, transactions and loop. What is numbered is accounted
    for: PostgreSQL drops equal notifications of one transaction, and the numbers in the payloads keep them
    different. Below the capacity of the queue the loop is the map of the encoder; an advertised topic
    gets subscribed.
  \<^item> \<open>Publish\<close>: one publish with the session it leaves behind. Its three waits share a locale of loops
    that poll between spins. Publishing returns, sends at most once and is not affected by the cache.
  \<^item> \<open>Worker\<close>: \<open>run_session\<close>, \<open>run_observer\<close> and \<open>graph_worker_main\<close>, composed of the operations of
    \<open>Graph\<close>, \<open>Parameters\<close>, \<open>Messages\<close> and \<open>Settings\<close>. A step of a turn gives the next state or stops the
    worker, with the database it leaves. An invariant of turns is a locale whose lemmas lift it to runs; its
    interpretation says that the caches track the tables. The worker panics only for the name of its
    database and for errors of PostgreSQL, and its tables mirror ROS.
  \<^item> \<open>Isolation\<close>: the worker rebuilds its ROS context exactly when it is isolated; how a failed reading
    hides a reinstallation.
  \<^item> \<open>Delivery\<close>: the keys of the subscriptions as a second invariant of runs. The live subscriptions follow
    the table; the last message of a turn is in \<open>ros2.messages\<close> when the turn ends; a message or a parameter
    that \<open>jsonb\<close> refuses stops the worker.
  \<^item> \<open>Restart\<close>: the lives of a worker that the postmaster starts again after each failure. An invariant of the
    database is a locale with one law for each kind of write; its lemmas lift it to turns, runs and lives with
    any crash. No crash leaves a table with parts of two snapshots, and the primary keys hold.
  \<^item> \<open>Clients\<close>: the statements of a client on \<open>ros2.subscriptions\<close>, with the column defaults, as actions of
    other sessions; a registered topic delivers.
  \<^item> \<open>Access\<close>: the installation script, the privileges it leaves and those a statement needs. Nothing but
    \<open>hello_pg_ros2\<close> is open by default; the grants of the README are too few for its own statements.
  \<^item> \<open>Conformance\<close>: the unit tests of the repository that run code of one component, as lemmas.

  \<^bold>\<open>The outside.\<close> ROS, the clock and PostgreSQL are not under \<open>src/\<close>. What the code asks of them is an
  argument: a record of answers for each tick, pass or turn, or for each numbered call in \<open>Publish\<close>. A
  clock is a number of nanoseconds and a promise or a client is a name; nothing is assumed of the answers
  unless a theorem says so, as \<open>time_passes\<close> and \<open>healthy\<close> in \<open>Publish\<close> do. What other sessions commit is a
  function of the database in \<open>Messages\<close> and a list of actions in \<open>Worker\<close>; the settings can
  be reloaded between any two readings of a turn. A \<open>stmt_env\<close> holds the error
  PostgreSQL raises in a transaction, if any, and the values \<open>jsonb\<close> refuses; \<open>refuses_nul\<close> states the refusal
  its documentation gives. A worker that is started again finds the database the last one left: a history
  may start from any database. Which privileges a statement needs is defined by SQL and stated in \<open>Access\<close>.
  The arguments \<open>quote\<close>,
  \<open>show_f32\<close>, \<open>show_f64\<close>, \<open>debug_str\<close> and \<open>fits\<close> of a \<open>runtime\<close> stand for the string and number formatting
  of Rust and serde_json and for the bounded strings of rclrs; \<open>from_int\<close>, \<open>from_f64\<close> and \<open>from_str\<close>
  for serde_json; the hypotheses about them say that a formatted value parses back.

  \<^bold>\<open>Loops.\<close> The loops over data are structural recursions or have a measure. The loops that wait for ROS in
  \<open>publish\<close> are partial functions with the value \<open>None\<close> for not returning; \<open>publish_returns\<close> proves that
  they return as soon as time passes. The loops of \<open>subscribe\<close> and of the worker run until they are
  canceled: a run is a list of passes or turns of any length, and a theorem about a run is about every
  finite part of it. No fuel is used.

  \<^bold>\<open>Not modelled.\<close> The connection to the database, signals and the search path of the worker; the locks
  of the tables, except that a lock or a timeout can make a transaction fail; a process that is killed,
  which leaves the database as a panic in its next transaction does; the owner of
  the extension and roles that inherit privileges of others; the poisoning of a mutex, which needs a panic in
  a callback; the unsafe interface to PostgreSQL and the lifetimes of ROS objects; ROS strings that are not valid
  UTF-8 or UTF-16; the order of keys and the format of numbers in a \<open>jsonb\<close> value; edits of the other tables by
  other sessions; the benchmarks and build
  scripts. Instants do not overflow and lengths fit \<open>usize\<close>.
\<close>

end
